theory Spec2Isabelle
  imports Main
begin

section \<open>Errors\<close>

text \<open>
  The exception classes of \<^verbatim>\<open>Exceptions.h\<close>, one constructor per class.  Every
  \<^verbatim>\<open>throw\<close> of the modelled code is a result \<open>Inl e\<close>.  \<open>UndefinedBehaviour\<close> is
  not an exception of the library: it marks the places where the C++ code would
  dereference a pointer to no live object or index a \<^verbatim>\<open>std::vector\<close> out of range.
\<close>

datatype error =
    NonexistingItem
  | ConflictingItem
  | InvalidIdentifier
  | UnavailableMemory
  | ParsingFailed
  | OutOfRange
  | EmptyArray
  | UndefinedBehaviour

section \<open>Memory\<close>

text \<open>
  \<^verbatim>\<open>Array<element>\<close> keeps its elements in separately allocated blocks
  (\<^verbatim>\<open>std::vector<std::unique_ptr<element[]>> data\<close>).  A block is identified by its
  address, a natural number; an element address (\<^verbatim>\<open>element*\<close>) is a block address
  together with an offset inside the block.

  A heap maps the addresses of the allocated blocks to their contents.  A slot holds
  \<open>Some v\<close> while it stores an element that was written by \<^verbatim>\<open>push_back\<close> or by a
  copy, and \<open>None\<close> while it holds a value-initialised or destroyed object, which the
  interface of the container never hands out.  \<open>brk\<close> is the next address the
  allocator hands out, and \<open>avail\<close> counts the allocation requests the allocator will
  still satisfy: a request made at \<open>avail = 0\<close> is the \<^verbatim>\<open>std::bad_alloc\<close> of the source.

  \<open>destroyed\<close> is the set of the slots on which the code has called the destructor
  \<^verbatim>\<open>~element()\<close> explicitly.  The storage of such a slot stays in its block, but it holds
  no object any more: assigning to it, reading it or destroying it once more (which
  \<^verbatim>\<open>delete[]\<close> of the block does) is undefined behaviour.  Nothing in \<^verbatim>\<open>Array.h\<close>
  constructs an object in a destroyed slot again, so a slot never leaves the set.

  \<^verbatim>\<open>size_t\<close> values (sizes, indices, identifiers) are natural numbers below \<open>2 ^ 64\<close>;
  the one subtraction of the code that can wrap around, in \<^verbatim>\<open>free_space_count_\<close>,
  is written out.
\<close>

type_synonym ptr = "nat \<times> nat"

record 'a heap =
  blk :: "nat \<Rightarrow> 'a option list option"
  brk :: nat
  avail :: nat
  destroyed :: "ptr set"

definition load :: "'a heap \<Rightarrow> ptr \<Rightarrow> 'a option" where
  "load h p =
     (case blk h (fst p) of
        None \<Rightarrow> None
      | Some xs \<Rightarrow> if snd p < length xs then xs ! snd p else None)"

definition store :: "'a heap \<Rightarrow> ptr \<Rightarrow> 'a option \<Rightarrow> 'a heap" where
  "store h p v =
     (case blk h (fst p) of
        None \<Rightarrow> h
      | Some xs \<Rightarrow> h\<lparr>blk := (blk h)(fst p \<mapsto> xs[snd p := v])\<rparr>)"

text \<open>\<^verbatim>\<open>p->~element()\<close> on a slot that holds an object.\<close>

definition destroy :: "'a heap \<Rightarrow> ptr \<Rightarrow> 'a heap" where
  "destroy h p = (store h p None)\<lparr>destroyed := insert p (destroyed h)\<rparr>"

section \<open>Array.h: the container that never moves its elements\<close>

record Array =
  data :: "nat list"
  block_size :: nat
  element_count :: nat

definition DEFAULT_BLOCK_SIZE :: nat where
  "DEFAULT_BLOCK_SIZE = 10"

definition Array_new :: "nat \<Rightarrow> Array" where
  "Array_new bs = \<lparr>data = [], block_size = bs, element_count = 0\<rparr>"

text \<open>
  \<^verbatim>\<open>data_.size() * block_size_ - element_count_\<close> in \<^verbatim>\<open>size_t\<close>: when the container
  counts more elements than its blocks hold, the difference wraps around.
\<close>

definition free_space_count :: "Array \<Rightarrow> nat" where
  "free_space_count a =
     (if element_count a \<le> length (data a) * block_size a
      then length (data a) * block_size a - element_count a
      else 2 ^ 64 - (element_count a - length (data a) * block_size a))"

definition add_block :: "'a heap \<Rightarrow> Array \<Rightarrow> error + ('a heap \<times> Array)" where
  "add_block h a =
     (if avail h = 0 then Inl UnavailableMemory
      else Inr (h\<lparr>blk := (blk h)(brk h \<mapsto> replicate (block_size a) None),
                  brk := Suc (brk h),
                  avail := avail h - 1\<rparr>,
                a\<lparr>data := data a @ [brk h]\<rparr>))"

text \<open>The address \<^verbatim>\<open>&data[index / block_size][index % block_size]\<close>.\<close>

definition slot :: "Array \<Rightarrow> nat \<Rightarrow> ptr" where
  "slot a index = (data a ! (index div block_size a), index mod block_size a)"

text \<open>
  Indexing \<^verbatim>\<open>data\<close> beyond its blocks, or dividing by a zero block size, is undefined
  behaviour in the source; the model says so instead of reading an unspecified value.
\<close>

definition slot_ok :: "Array \<Rightarrow> nat \<Rightarrow> bool" where
  "slot_ok a index \<longleftrightarrow> block_size a \<noteq> 0 \<and> index div block_size a < length (data a)"

text \<open>
  \<^verbatim>\<open>push_back\<close>.  \<open>reserve\<close> is its first statement,
  \<^verbatim>\<open>if (free_space_count_() == 0) add_block_();\<close>.  The second statement is a copy
  assignment to the object in the slot, which is undefined behaviour when the slot has
  been destroyed.
\<close>

definition reserve :: "'a heap \<Rightarrow> Array \<Rightarrow> error + ('a heap \<times> Array)" where
  "reserve h a = (if free_space_count a = 0 then add_block h a else Inr (h, a))"

definition push_back :: "'a \<Rightarrow> 'a heap \<Rightarrow> Array \<Rightarrow> error + ('a heap \<times> Array)" where
  "push_back item h a =
     (case (if free_space_count a = 0 then add_block h a else Inr (h, a)) of
        Inl e \<Rightarrow> Inl e
      | Inr (h1, a1) \<Rightarrow>
          if \<not> slot_ok a1 (element_count a1) then Inl UndefinedBehaviour
          else if slot a1 (element_count a1) \<in> destroyed h1 then Inl UndefinedBehaviour
          else Inr (store h1 (slot a1 (element_count a1)) (Some item),
                    a1\<lparr>element_count := Suc (element_count a1)\<rparr>))"

text \<open>
  \<^verbatim>\<open>pop_back\<close>: the count is decremented and the destructor of the last element is
  called; the block keeps the slot.
\<close>

definition pop_back :: "'a heap \<Rightarrow> Array \<Rightarrow> error + ('a heap \<times> Array)" where
  "pop_back h a =
     (if element_count a = 0 then Inl EmptyArray
      else let a1 = a\<lparr>element_count := element_count a - 1\<rparr>
           in if \<not> slot_ok a1 (element_count a1) then Inl UndefinedBehaviour
              else if slot a1 (element_count a1) \<in> destroyed h then Inl UndefinedBehaviour
              else Inr (destroy h (slot a1 (element_count a1)), a1))"

definition size_of :: "Array \<Rightarrow> nat" where
  "size_of a = element_count a"

text \<open>\<^verbatim>\<open>get_\<close>, \<^verbatim>\<open>at\<close> and \<^verbatim>\<open>operator[]\<close> return a reference: the address of the slot.\<close>

definition get_elem :: "Array \<Rightarrow> nat \<Rightarrow> error + ptr" where
  "get_elem a index = (if index \<ge> element_count a then Inl OutOfRange else Inr (slot a index))"

section \<open>States of the container\<close>

text \<open>
  \<open>heap_ok\<close>: the allocator has handed out no address at or above \<open>brk\<close>, and the
  destroyed slots lie in blocks it has handed out.
  \<open>wf_array h a\<close>: the blocks of \<open>a\<close> are distinct, allocated in \<open>h\<close> with
  \<open>block_size\<close> slots each, the elements fit the blocks, and the slots below
  \<open>element_count\<close> hold elements.  Every state that \<^verbatim>\<open>push_back\<close> and \<^verbatim>\<open>pop_back\<close>
  reach from a new container satisfies it (\<open>run_ops_wf\<close>).
\<close>

definition heap_ok :: "'a heap \<Rightarrow> bool" where
  "heap_ok h \<longleftrightarrow>
     (\<forall>b. brk h \<le> b \<longrightarrow> blk h b = None) \<and> (\<forall>p \<in> destroyed h. fst p < brk h)"

definition wf_array :: "'a heap \<Rightarrow> Array \<Rightarrow> bool" where
  "wf_array h a \<longleftrightarrow>
     0 < block_size a \<and>
     element_count a \<le> length (data a) * block_size a \<and>
     distinct (data a) \<and>
     (\<forall>b \<in> set (data a). \<exists>xs. blk h b = Some xs \<and> length xs = block_size a) \<and>
     (\<forall>i < element_count a. load h (slot a i) \<noteq> None)"

text \<open>\<open>spare_fresh h a\<close>: no slot of \<open>a\<close> at or above \<open>element_count\<close> has been
  destroyed.  It holds of a container that was built by appends alone, and fails after
  \<^verbatim>\<open>pop_back\<close>.\<close>

definition spare_fresh :: "'a heap \<Rightarrow> Array \<Rightarrow> bool" where
  "spare_fresh h a \<longleftrightarrow>
     (\<forall>i. element_count a \<le> i \<and> i < length (data a) * block_size a \<longrightarrow>
          slot a i \<notin> destroyed h)"

text \<open>\<open>packed a\<close>: the last block of \<open>a\<close> holds an element, so that the container is
  full exactly when its size is a multiple of the block size.  It holds of a container
  that was built by appends alone.\<close>

definition packed :: "Array \<Rightarrow> bool" where
  "packed a \<longleftrightarrow> length (data a) * block_size a < element_count a + block_size a"

text \<open>A client of the container: a sequence of appends and removals, stopped by the
  first exception.\<close>

datatype 'a array_op = Append 'a | RemoveLast

fun run_ops :: "'a array_op list \<Rightarrow> 'a heap \<times> Array \<Rightarrow> error + ('a heap \<times> Array)" where
  "run_ops [] s = Inr s"
| "run_ops (Append v # ops) (h, a) =
     (case push_back v h a of Inl e \<Rightarrow> Inl e | Inr s' \<Rightarrow> run_ops ops s')"
| "run_ops (RemoveLast # ops) (h, a) =
     (case pop_back h a of Inl e \<Rightarrow> Inl e | Inr s' \<Rightarrow> run_ops ops s')"

text \<open>A heap with no block, whose allocator satisfies \<open>n\<close> requests.\<close>

definition empty_heap :: "nat \<Rightarrow> 'a heap" where
  "empty_heap n = \<lparr>blk = (\<lambda>_. None), brk = 0, avail = n, destroyed = {}\<rparr>"

section \<open>Node.h, Edge.h: the records\<close>

text \<open>
  A node is its identifier and its payload.  An edge holds its identifier, its payload
  and two \<^verbatim>\<open>Node<NData>*\<close>: addresses of node records in a node container.
\<close>

record 'n Node =
  node_id :: nat
  node_data :: 'n

record 'e Edge =
  edge_id :: nat
  edge_source :: ptr
  edge_target :: ptr
  edge_data :: 'e

section \<open>Graph.h, Nodes.h, Edges.h: the state\<close>

text \<open>
  \<^verbatim>\<open>Graph\<close> owns a \<^verbatim>\<open>Nodes\<close> (one \<^verbatim>\<open>Array<Node>\<close>) and an \<^verbatim>\<open>Edges\<close> (one
  \<^verbatim>\<open>Array<Edge>\<close> and the adjacency matrix, a vector of rows of \<^verbatim>\<open>Edge*\<close>, \<open>None\<close>
  for \<^verbatim>\<open>nullptr\<close>).  In the source both stores point back to their graph
  (\<^verbatim>\<open>graph_\<close>), and every constructor sets that pointer to the enclosing object, so the
  model keeps the three parts in one record and reads \<^verbatim>\<open>graph_->nodes()\<close> and
  \<^verbatim>\<open>graph_->is_undirected()\<close> from it.  \<open>is_undirected\<close> is the answer of the
  concrete class: \<open>False\<close> for \<^verbatim>\<open>DirectedGraph\<close>, \<open>True\<close> for \<^verbatim>\<open>UndirectedGraph\<close>.

  The records of all graphs live in two heaps, one of node blocks and one of edge
  blocks.  \<open>row_avail\<close> counts the allocation requests of the adjacency matrices that
  will still succeed; every \<^verbatim>\<open>push_back\<close> or \<^verbatim>\<open>emplace_back\<close> on a vector of the
  matrix makes one request.
\<close>

type_synonym matrix = "ptr option list list"

record Graph =
  nodes :: Array
  edges :: Array
  adjacency_matrix :: matrix
  is_undirected :: bool

record ('n, 'e) world =
  node_heap :: "'n Node heap"
  edge_heap :: "'e Edge heap"
  row_avail :: nat

definition Graph_new :: "bool \<Rightarrow> Graph" where
  "Graph_new u =
     \<lparr>nodes = Array_new DEFAULT_BLOCK_SIZE, edges = Array_new DEFAULT_BLOCK_SIZE,
      adjacency_matrix = [], is_undirected = u\<rparr>"

definition DirectedGraph_new :: Graph where
  "DirectedGraph_new = Graph_new False"

definition UndirectedGraph_new :: Graph where
  "UndirectedGraph_new = Graph_new True"

text \<open>
  \<^verbatim>\<open>adjacency_matrix_[s][t]\<close>, read and written.  An index beyond the vectors is
  undefined behaviour in the source.
\<close>

definition matrix_at :: "matrix \<Rightarrow> nat \<Rightarrow> nat \<Rightarrow> error + ptr option" where
  "matrix_at m s t =
     (if s < length m \<and> t < length (m ! s) then Inr (m ! s ! t) else Inl UndefinedBehaviour)"

definition matrix_set :: "matrix \<Rightarrow> nat \<Rightarrow> nat \<Rightarrow> ptr option \<Rightarrow> error + matrix" where
  "matrix_set m s t v =
     (if s < length m \<and> t < length (m ! s) then Inr (m[s := (m ! s)[t := v]])
      else Inl UndefinedBehaviour)"

text \<open>An exception caught by \<^verbatim>\<open>catch (...)\<close> is replaced by the handler's own;
  undefined behaviour is no exception and is not caught.\<close>

definition caught :: "error \<Rightarrow> error \<Rightarrow> error" where
  "caught e thrown = (if e = UndefinedBehaviour then UndefinedBehaviour else thrown)"

section \<open>Nodes.h\<close>

definition Nodes_size :: "Graph \<Rightarrow> nat" where
  "Nodes_size g = size_of (nodes g)"

definition Nodes_exists :: "Graph \<Rightarrow> nat \<Rightarrow> bool" where
  "Nodes_exists g ident \<longleftrightarrow> ident < Nodes_size g"

definition Nodes_get :: "Graph \<Rightarrow> nat \<Rightarrow> error + ptr" where
  "Nodes_get g ident =
     (if \<not> Nodes_exists g ident then Inl NonexistingItem else get_elem (nodes g) ident)"

text \<open>
  \<^verbatim>\<open>Edges::grow_adjacency_matrix\<close>.  \<open>push_rows\<close> is the loop that appends
  \<^verbatim>\<open>nullptr\<close> to the rows, stopped by the first refused request; \<open>resize\<close> is
  \<^verbatim>\<open>std::vector::resize\<close>.  The handler shortens every row and the matrix to the size
  before the call.
\<close>

fun push_rows :: "nat \<Rightarrow> matrix \<Rightarrow> bool \<times> nat \<times> matrix" where
  "push_rows k [] = (True, k, [])"
| "push_rows k (r # rs) =
     (if k = 0 then (False, 0, r # rs)
      else case push_rows (k - 1) rs of (ok, k', rs') \<Rightarrow> (ok, k', (r @ [None]) # rs'))"

definition resize :: "nat \<Rightarrow> 'a \<Rightarrow> 'a list \<Rightarrow> 'a list" where
  "resize n d xs = take n xs @ replicate (n - length xs) d"

definition grow_adjacency_matrix ::
  "('n, 'e) world \<Rightarrow> Graph \<Rightarrow> (error + unit) \<times> ('n, 'e) world \<times> Graph" where
  "grow_adjacency_matrix w g =
     (let pre_modification_size = length (adjacency_matrix g)
      in case push_rows (row_avail w) (adjacency_matrix g) of
           (ok, k, m1) \<Rightarrow>
             if ok \<and> k \<noteq> 0
             then (Inr (), w\<lparr>row_avail := k - 1\<rparr>,
                   g\<lparr>adjacency_matrix := m1 @ [replicate (pre_modification_size + 1) None]\<rparr>)
             else (Inl UnavailableMemory, w\<lparr>row_avail := 0\<rparr>,
                   g\<lparr>adjacency_matrix :=
                       resize pre_modification_size []
                         (map (resize pre_modification_size None) m1)\<rparr>))"

text \<open>
  \<^verbatim>\<open>Nodes::add(id, data)\<close>.  The result is the outcome (an exception, or the address of
  the new node) with the state the call leaves behind.
\<close>

definition Nodes_add ::
  "nat \<Rightarrow> 'n \<Rightarrow> ('n, 'e) world \<Rightarrow> Graph \<Rightarrow> (error + ptr) \<times> ('n, 'e) world \<times> Graph" where
  "Nodes_add ident d w g =
     (let pre_modification_size = size_of (nodes g)
      in if ident > pre_modification_size then (Inl InvalidIdentifier, w, g)
         else if ident < pre_modification_size then (Inl ConflictingItem, w, g)
         else case push_back \<lparr>node_id = ident, node_data = d\<rparr> (node_heap w) (nodes g) of
                Inl e \<Rightarrow> (Inl (caught e UnavailableMemory), w, g)
              | Inr (h1, a1) \<Rightarrow>
                  (case grow_adjacency_matrix (w\<lparr>node_heap := h1\<rparr>) (g\<lparr>nodes := a1\<rparr>) of
                     (Inl e, w2, g2) \<Rightarrow>
                       if size_of (nodes g2) > pre_modification_size
                       then (case pop_back (node_heap w2) (nodes g2) of
                               Inl e' \<Rightarrow> (Inl e', w2, g2)
                             | Inr (h3, a3) \<Rightarrow>
                                 (Inl (caught e UnavailableMemory),
                                  w2\<lparr>node_heap := h3\<rparr>, g2\<lparr>nodes := a3\<rparr>))
                       else (Inl (caught e UnavailableMemory), w2, g2)
                   | (Inr _, w2, g2) \<Rightarrow>
                       (case get_elem (nodes g2) (size_of (nodes g2) - 1) of
                          Inl e \<Rightarrow> (Inl e, w2, g2)
                        | Inr p \<Rightarrow> (Inr p, w2, g2))))"

text \<open>\<^verbatim>\<open>Nodes::add(data)\<close>.\<close>

definition Nodes_add_next ::
  "'n \<Rightarrow> ('n, 'e) world \<Rightarrow> Graph \<Rightarrow> (error + ptr) \<times> ('n, 'e) world \<times> Graph" where
  "Nodes_add_next d w g = Nodes_add (size_of (nodes g)) d w g"

section \<open>Edges.h\<close>

definition Edges_size :: "Graph \<Rightarrow> nat" where
  "Edges_size g = size_of (edges g)"

text \<open>\<^verbatim>\<open>Edges::exists(id)\<close> and \<^verbatim>\<open>Edges::exists(source, target)\<close>.\<close>

definition Edges_exists_id :: "Graph \<Rightarrow> nat \<Rightarrow> bool" where
  "Edges_exists_id g ident \<longleftrightarrow> ident < Edges_size g"

definition Edges_exists :: "Graph \<Rightarrow> nat \<Rightarrow> nat \<Rightarrow> error + bool" where
  "Edges_exists g s t =
     (let adjacency_matrix_size = length (adjacency_matrix g)
      in if s \<ge> adjacency_matrix_size \<or> t \<ge> adjacency_matrix_size then Inl NonexistingItem
         else case matrix_at (adjacency_matrix g) s t of
                Inl e \<Rightarrow> Inl e
              | Inr c \<Rightarrow> Inr (c \<noteq> None))"

text \<open>\<^verbatim>\<open>Edges::get(id)\<close> and \<^verbatim>\<open>Edges::get(source, target)\<close>: the address of the edge.\<close>

definition Edges_get_id :: "Graph \<Rightarrow> nat \<Rightarrow> error + ptr" where
  "Edges_get_id g ident =
     (if \<not> Edges_exists_id g ident then Inl NonexistingItem else get_elem (edges g) ident)"

definition Edges_get :: "Graph \<Rightarrow> nat \<Rightarrow> nat \<Rightarrow> error + ptr" where
  "Edges_get g s t =
     (let adjacency_matrix_size = length (adjacency_matrix g)
      in if s \<ge> adjacency_matrix_size \<or> t \<ge> adjacency_matrix_size then Inl NonexistingItem
         else case matrix_at (adjacency_matrix g) s t of
                Inl e \<Rightarrow> Inl e
              | Inr None \<Rightarrow> Inl NonexistingItem
              | Inr (Some p) \<Rightarrow> Inr p)"

text \<open>
  \<^verbatim>\<open>Edges::add(id, source, target, data)\<close>: the body of its \<^verbatim>\<open>try\<close> block, its
  handler, and the function.
\<close>

definition Edges_add_try ::
  "nat \<Rightarrow> nat \<Rightarrow> nat \<Rightarrow> 'e \<Rightarrow> ('n, 'e) world \<Rightarrow> Graph \<Rightarrow>
   (error + ptr) \<times> ('n, 'e) world \<times> Graph" where
  "Edges_add_try ident s t d w g =
     (case Nodes_get g s of
        Inl e \<Rightarrow> (Inl e, w, g)
      | Inr source_node \<Rightarrow>
     (case Nodes_get g t of
        Inl e \<Rightarrow> (Inl e, w, g)
      | Inr target_node \<Rightarrow>
     (case push_back \<lparr>edge_id = ident, edge_source = source_node,
                      edge_target = target_node, edge_data = d\<rparr> (edge_heap w) (edges g) of
        Inl e \<Rightarrow> (Inl e, w, g)
      | Inr (h1, a1) \<Rightarrow>
     (let w1 = w\<lparr>edge_heap := h1\<rparr>; g1 = g\<lparr>edges := a1\<rparr>
      in case get_elem a1 (size_of a1 - 1) of
           Inl e \<Rightarrow> (Inl e, w1, g1)
         | Inr p \<Rightarrow>
     (case matrix_set (adjacency_matrix g1) s t (Some p) of
        Inl e \<Rightarrow> (Inl e, w1, g1)
      | Inr m1 \<Rightarrow>
          if is_undirected g1
          then (case matrix_set m1 t s (Some p) of
                  Inl e \<Rightarrow> (Inl e, w1, g1\<lparr>adjacency_matrix := m1\<rparr>)
                | Inr m2 \<Rightarrow> (Inr p, w1, g1\<lparr>adjacency_matrix := m2\<rparr>))
          else (Inr p, w1, g1\<lparr>adjacency_matrix := m1\<rparr>))))))"

definition Edges_add_catch ::
  "nat \<Rightarrow> nat \<Rightarrow> nat \<Rightarrow> error \<Rightarrow> ('n, 'e) world \<Rightarrow> Graph \<Rightarrow>
   (error + ptr) \<times> ('n, 'e) world \<times> Graph" where
  "Edges_add_catch pre_modification_size s t e w g =
     (if e = UndefinedBehaviour then (Inl UndefinedBehaviour, w, g)
      else case (if size_of (edges g) > pre_modification_size
                 then pop_back (edge_heap w) (edges g) else Inr (edge_heap w, edges g)) of
             Inl e' \<Rightarrow> (Inl e', w, g)
           | Inr (h1, a1) \<Rightarrow>
               (let w1 = w\<lparr>edge_heap := h1\<rparr>; g1 = g\<lparr>edges := a1\<rparr>
                in case matrix_set (adjacency_matrix g1) s t None of
                     Inl e' \<Rightarrow> (Inl e', w1, g1)
                   | Inr m1 \<Rightarrow>
                       (case (if is_undirected g1 then matrix_set m1 t s None else Inr m1) of
                          Inl e' \<Rightarrow> (Inl e', w1, g1\<lparr>adjacency_matrix := m1\<rparr>)
                        | Inr m2 \<Rightarrow>
                            (Inl UnavailableMemory, w1, g1\<lparr>adjacency_matrix := m2\<rparr>))))"

definition Edges_add ::
  "nat \<Rightarrow> nat \<Rightarrow> nat \<Rightarrow> 'e \<Rightarrow> ('n, 'e) world \<Rightarrow> Graph \<Rightarrow>
   (error + ptr) \<times> ('n, 'e) world \<times> Graph" where
  "Edges_add ident s t d w g =
     (let pre_modification_size = size_of (edges g)
      in if ident > pre_modification_size then (Inl InvalidIdentifier, w, g)
         else if ident < pre_modification_size then (Inl ConflictingItem, w, g)
         else let nodes_size = Nodes_size g
              in if s \<ge> nodes_size \<or> t \<ge> nodes_size then (Inl NonexistingItem, w, g)
                 else case matrix_at (adjacency_matrix g) s t of
                        Inl e \<Rightarrow> (Inl e, w, g)
                      | Inr (Some p) \<Rightarrow> (Inl ConflictingItem, w, g)
                      | Inr None \<Rightarrow>
                          (case Edges_add_try ident s t d w g of
                             (Inl e, w1, g1) \<Rightarrow> Edges_add_catch pre_modification_size s t e w1 g1
                           | (Inr p, w1, g1) \<Rightarrow> (Inr p, w1, g1)))"

text \<open>\<^verbatim>\<open>Edges::add(source, target, data)\<close>.\<close>

definition Edges_add_next ::
  "nat \<Rightarrow> nat \<Rightarrow> 'e \<Rightarrow> ('n, 'e) world \<Rightarrow> Graph \<Rightarrow>
   (error + ptr) \<times> ('n, 'e) world \<times> Graph" where
  "Edges_add_next s t d w g = Edges_add (size_of (edges g)) s t d w g"

section \<open>Array.h: copying and moving a container\<close>

text \<open>A \<^verbatim>\<open>for\<close> loop over indices whose body may throw.\<close>

fun for_each :: "(nat \<Rightarrow> 's \<Rightarrow> error + 's) \<Rightarrow> nat list \<Rightarrow> 's \<Rightarrow> error + 's" where
  "for_each body [] s = Inr s"
| "for_each body (i # is) s =
     (case body i s of Inl e \<Rightarrow> Inl e | Inr s' \<Rightarrow> for_each body is s')"

text \<open>\<^verbatim>\<open>for (i < n) add_block_();\<close>\<close>

fun add_blocks :: "nat \<Rightarrow> 'a heap \<Rightarrow> Array \<Rightarrow> error + ('a heap \<times> Array)" where
  "add_blocks 0 h a = Inr (h, a)"
| "add_blocks (Suc n) h a =
     (case add_block h a of Inl e \<Rightarrow> Inl e | Inr (h1, a1) \<Rightarrow> add_blocks n h1 a1)"

text \<open>
  \<^verbatim>\<open>data_[i / block_size_][i % block_size_] = other.data_[i / block_size_][i % block_size_]\<close>:
  the element is copied by its copy assignment, field by field.  Reading a slot that
  holds no element, and assigning to a slot whose object has been destroyed, is
  undefined behaviour.
\<close>

definition copy_element :: "Array \<Rightarrow> Array \<Rightarrow> nat \<Rightarrow> 'a heap \<Rightarrow> error + 'a heap" where
  "copy_element this other i h =
     (if \<not> slot_ok this i \<or> \<not> slot_ok (other\<lparr>block_size := block_size this\<rparr>) i
      then Inl UndefinedBehaviour
      else if slot this i \<in> destroyed h then Inl UndefinedBehaviour
      else case load h (slot (other\<lparr>block_size := block_size this\<rparr>) i) of
             None \<Rightarrow> Inl UndefinedBehaviour
           | Some v \<Rightarrow> Inr (store h (slot this i) (Some v)))"

text \<open>\<^verbatim>\<open>Array(const Array& other)\<close>: as many blocks as \<open>other\<close> has, then the elements.\<close>

definition Array_copy :: "'a heap \<Rightarrow> Array \<Rightarrow> error + ('a heap \<times> Array)" where
  "Array_copy h other =
     (case add_blocks (length (data other)) h
             \<lparr>data = [], block_size = block_size other, element_count = element_count other\<rparr> of
        Inl e \<Rightarrow> Inl e
      | Inr (h1, this) \<Rightarrow>
          (case for_each (copy_element this other) [0..<element_count this] h1 of
             Inl e \<Rightarrow> Inl e
           | Inr h2 \<Rightarrow> Inr (h2, this)))"

text \<open>
  \<^verbatim>\<open>Array::operator=(const Array& other)\<close>: the destructor is called on every element
  of \<open>this\<close>, the blocks are released when the block sizes differ, blocks are added
  while the elements of \<open>other\<close> do not fit, and the elements are copy-assigned into
  the slots.  The operator has no test for self-assignment.  An exception leaves the
  container as it is at the throw.

  Releasing a block (\<^verbatim>\<open>data_ = std::vector<...>()\<close>, that is \<^verbatim>\<open>delete[]\<close>) destroys every
  object of the block, which is undefined behaviour for a block with a slot that has
  been destroyed already.
\<close>

definition destroy_element :: "Array \<Rightarrow> nat \<Rightarrow> 'a heap \<Rightarrow> error + 'a heap" where
  "destroy_element this i h =
     (if \<not> slot_ok this i then Inl UndefinedBehaviour
      else if slot this i \<in> destroyed h then Inl UndefinedBehaviour
      else Inr (destroy h (slot this i)))"

definition release_blocks :: "nat list \<Rightarrow> 'a heap \<Rightarrow> 'a heap" where
  "release_blocks bs h = h\<lparr>blk := (\<lambda>b. if b \<in> set bs then None else blk h b)\<rparr>"

function add_blocks_until :: "nat \<Rightarrow> 'a heap \<Rightarrow> Array \<Rightarrow> error + ('a heap \<times> Array)" where
  "add_blocks_until n h a =
     (if length (data a) * block_size a < n
      then (case add_block h a of Inl e \<Rightarrow> Inl e | Inr (h1, a1) \<Rightarrow> add_blocks_until n h1 a1)
      else Inr (h, a))"
  by pat_completeness auto
termination
  by (relation "measure (\<lambda>(n, h, a). avail h)") (auto simp: add_block_def split: if_splits)

declare add_blocks_until.simps [simp del]

definition Array_copy_assign ::
  "'a heap \<Rightarrow> Array \<Rightarrow> Array \<Rightarrow> (error + unit) \<times> 'a heap \<times> Array" where
  "Array_copy_assign h this other =
     (case for_each (destroy_element this) [0..<element_count this] h of
        Inl e \<Rightarrow> (Inl e, h, this)
      | Inr h1 \<Rightarrow>
          (let this1 = this\<lparr>element_count := element_count other\<rparr>
           in if block_size this1 \<noteq> block_size other \<and>
                 (\<exists>p \<in> destroyed h1. fst p \<in> set (data this1))
              then (Inl UndefinedBehaviour, h1, this1)
              else
          (let (h2, this2) =
                 (if block_size this1 \<noteq> block_size other
                  then (release_blocks (data this1) h1,
                        this1\<lparr>block_size := block_size other, data := []\<rparr>)
                  else (h1, this1))
           in case add_blocks_until (element_count other) h2 this2 of
                Inl e \<Rightarrow> (Inl e, h2, this2)
              | Inr (h3, this3) \<Rightarrow>
                  (case for_each (copy_element this3 other) [0..<element_count other] h3 of
                     Inl e \<Rightarrow> (Inl e, h3, this3)
                   | Inr h4 \<Rightarrow> (Inr (), h4, this3)))))"

text \<open>
  \<^verbatim>\<open>Array(Array&& other)\<close>: the new container starts with block size 0 and no element
  and exchanges its three members with \<open>other\<close>.  The result is the new container and
  what is left in \<open>other\<close>; no block is touched.
\<close>

definition Array_move :: "Array \<Rightarrow> Array \<times> Array" where
  "Array_move other = (other, \<lparr>data = [], block_size = 0, element_count = 0\<rparr>)"

text \<open>\<^verbatim>\<open>std::swap\<close> on two containers (a move construction and two move assignments,
  each an exchange of the members): the containers trade places.\<close>

definition Array_swap :: "Array \<Rightarrow> Array \<Rightarrow> Array \<times> Array" where
  "Array_swap a b = (b, a)"

section \<open>Edges.h: rebuilding the references\<close>

text \<open>\<^verbatim>\<open>edge.getSource().getId()\<close> and \<^verbatim>\<open>edge.getTarget().getId()\<close>: the pointer is
  followed into the heap of node records.\<close>

definition getSource_getId :: "('n, 'e) world \<Rightarrow> 'e Edge \<Rightarrow> error + nat" where
  "getSource_getId w e =
     (case load (node_heap w) (edge_source e) of
        None \<Rightarrow> Inl UndefinedBehaviour
      | Some n \<Rightarrow> Inr (node_id n))"

definition getTarget_getId :: "('n, 'e) world \<Rightarrow> 'e Edge \<Rightarrow> error + nat" where
  "getTarget_getId w e =
     (case load (node_heap w) (edge_target e) of
        None \<Rightarrow> Inl UndefinedBehaviour
      | Some n \<Rightarrow> Inr (node_id n))"

text \<open>\<^verbatim>\<open>edges_[i]\<close>, the record behind the reference.\<close>

definition edges_index :: "('n, 'e) world \<Rightarrow> Graph \<Rightarrow> nat \<Rightarrow> error + (ptr \<times> 'e Edge)" where
  "edges_index w g i =
     (case get_elem (edges g) i of
        Inl e \<Rightarrow> Inl e
      | Inr p \<Rightarrow>
          (if \<not> slot_ok (edges g) i then Inl UndefinedBehaviour
           else case load (edge_heap w) p of
                  None \<Rightarrow> Inl UndefinedBehaviour
                | Some e \<Rightarrow> Inr (p, e)))"

text \<open>The body of the loop of \<^verbatim>\<open>Edges::update_source_and_target_pointers\<close>.\<close>

definition update_pointers_of :: "Graph \<Rightarrow> nat \<Rightarrow> ('n, 'e) world \<Rightarrow> error + ('n, 'e) world" where
  "update_pointers_of g i w =
     (case edges_index w g i of
        Inl e \<Rightarrow> Inl e
      | Inr (p, e) \<Rightarrow>
     (case getSource_getId w e of
        Inl x \<Rightarrow> Inl x
      | Inr s \<Rightarrow>
     (case Nodes_get g s of
        Inl x \<Rightarrow> Inl x
      | Inr updated_source \<Rightarrow>
     (case getTarget_getId w e of
        Inl x \<Rightarrow> Inl x
      | Inr t \<Rightarrow>
     (case Nodes_get g t of
        Inl x \<Rightarrow> Inl x
      | Inr updated_target \<Rightarrow>
          Inr (w\<lparr>edge_heap :=
                   store (edge_heap w) p
                     (Some (e\<lparr>edge_source := updated_source,
                              edge_target := updated_target\<rparr>))\<rparr>))))))"

definition update_source_and_target_pointers ::
  "('n, 'e) world \<Rightarrow> Graph \<Rightarrow> error + ('n, 'e) world" where
  "update_source_and_target_pointers w g =
     for_each (update_pointers_of g) [0..<size_of (edges g)] w"

text \<open>
  \<^verbatim>\<open>Edges::construct_adjacency_matrix\<close>.  \<open>emplace_rows\<close> is the loop that appends
  the empty rows, stopped by the first refused request; \<open>place_edge\<close> is the body of
  the loop over the edges.
\<close>

fun emplace_rows :: "nat \<Rightarrow> nat \<Rightarrow> nat \<Rightarrow> matrix \<Rightarrow> bool \<times> nat \<times> matrix" where
  "emplace_rows 0 nodes_size k m = (True, k, m)"
| "emplace_rows (Suc i) nodes_size k m =
     (if k = 0 then (False, 0, m)
      else emplace_rows i nodes_size (k - 1) (m @ [replicate nodes_size None]))"

definition place_edge ::
  "('n, 'e) world \<Rightarrow> Graph \<Rightarrow> nat \<Rightarrow> matrix \<Rightarrow> error + matrix" where
  "place_edge w g i m =
     (case edges_index w g i of
        Inl e \<Rightarrow> Inl e
      | Inr (p, e) \<Rightarrow>
     (case getSource_getId w e of
        Inl x \<Rightarrow> Inl x
      | Inr s \<Rightarrow>
     (case getTarget_getId w e of
        Inl x \<Rightarrow> Inl x
      | Inr t \<Rightarrow>
     (case matrix_set m s t (Some p) of
        Inl x \<Rightarrow> Inl x
      | Inr m1 \<Rightarrow> if is_undirected g then matrix_set m1 t s (Some p) else Inr m1))))"

definition construct_adjacency_matrix ::
  "('n, 'e) world \<Rightarrow> Graph \<Rightarrow> (error + unit) \<times> ('n, 'e) world \<times> Graph" where
  "construct_adjacency_matrix w g =
     (let nodes_size = Nodes_size g
      in case emplace_rows nodes_size nodes_size (row_avail w) [] of
           (ok, k, m0) \<Rightarrow>
             if \<not> ok
             then (Inl UnavailableMemory, w\<lparr>row_avail := k\<rparr>, g\<lparr>adjacency_matrix := m0\<rparr>)
             else (case for_each (place_edge w g) [0..<size_of (edges g)] m0 of
                     Inl e \<Rightarrow> (Inl e, w\<lparr>row_avail := k\<rparr>, g\<lparr>adjacency_matrix := m0\<rparr>)
                   | Inr m1 \<Rightarrow> (Inr (), w\<lparr>row_avail := k\<rparr>, g\<lparr>adjacency_matrix := m1\<rparr>)))"

section \<open>Graph.h: copying and moving a graph\<close>

text \<open>
  \<^verbatim>\<open>DirectedGraph(const DirectedGraph&)\<close> and \<^verbatim>\<open>UndirectedGraph(const
  UndirectedGraph&)\<close>: the base constructor copies the nodes (\<^verbatim>\<open>Nodes(other.nodes_,
  this)\<close>), copies the edges and rebinds their node pointers (\<^verbatim>\<open>Edges(other.edges_,
  this)\<close>); the body of the derived constructor builds the adjacency matrix.  The new
  graph has the class of \<open>other\<close>.  A constructor that throws constructs nothing.
\<close>

definition Graph_copy :: "('n, 'e) world \<Rightarrow> Graph \<Rightarrow> error + (('n, 'e) world \<times> Graph)" where
  "Graph_copy w other =
     (case Array_copy (node_heap w) (nodes other) of
        Inl e \<Rightarrow> Inl e
      | Inr (nh, ns) \<Rightarrow>
     (case Array_copy (edge_heap w) (edges other) of
        Inl e \<Rightarrow> Inl e
      | Inr (eh, es) \<Rightarrow>
     (let w1 = w\<lparr>node_heap := nh, edge_heap := eh\<rparr>;
          this = \<lparr>nodes = ns, edges = es, adjacency_matrix = [],
                  is_undirected = is_undirected other\<rparr>
      in case update_source_and_target_pointers w1 this of
           Inl e \<Rightarrow> Inl e
         | Inr w2 \<Rightarrow>
             (case construct_adjacency_matrix w2 this of
                (Inl e, w3, g3) \<Rightarrow> Inl e
              | (Inr _, w3, g3) \<Rightarrow> Inr (w3, g3)))))"

text \<open>
  \<^verbatim>\<open>Graph::operator=(const Graph&)\<close>: \<^verbatim>\<open>nodes_ = other.nodes_\<close> assigns the node
  container; \<^verbatim>\<open>edges_ = other.edges_\<close> assigns the edge container, rebinds the node
  pointers and rebuilds the matrix.  \<open>this\<close> keeps its class.
\<close>

definition Graph_copy_assign ::
  "('n, 'e) world \<Rightarrow> Graph \<Rightarrow> Graph \<Rightarrow> (error + unit) \<times> ('n, 'e) world \<times> Graph" where
  "Graph_copy_assign w this other =
     (case Array_copy_assign (node_heap w) (nodes this) (nodes other) of
        (Inl e, nh, ns) \<Rightarrow> (Inl e, w\<lparr>node_heap := nh\<rparr>, this\<lparr>nodes := ns\<rparr>)
      | (Inr _, nh, ns) \<Rightarrow>
     (let w1 = w\<lparr>node_heap := nh\<rparr>; g1 = this\<lparr>nodes := ns\<rparr>
      in case Array_copy_assign (edge_heap w1) (edges g1) (edges other) of
           (Inl e, eh, es) \<Rightarrow> (Inl e, w1\<lparr>edge_heap := eh\<rparr>, g1\<lparr>edges := es\<rparr>)
         | (Inr _, eh, es) \<Rightarrow>
     (let w2 = w1\<lparr>edge_heap := eh\<rparr>; g2 = g1\<lparr>edges := es\<rparr>
      in case update_source_and_target_pointers w2 g2 of
           Inl e \<Rightarrow> (Inl e, w2, g2)
         | Inr w3 \<Rightarrow> construct_adjacency_matrix w3 g2)))"

text \<open>
  \<^verbatim>\<open>Graph(Graph&& other)\<close>: the new graph is built empty (\<^verbatim>\<open>nodes_(this),
  edges_(this)\<close>) and both stores are exchanged with those of \<open>other\<close> by \<^verbatim>\<open>std::swap\<close>,
  read here as the exchange that the move assignments of \<^verbatim>\<open>Nodes\<close> and \<^verbatim>\<open>Edges\<close>
  perform (the containers and the matrix change hands, the \<^verbatim>\<open>graph_\<close> pointers stay).
  The result is the new graph and what is left of \<open>other\<close>; the heaps are not
  touched.  No constructor of \<^verbatim>\<open>DirectedGraph\<close> or \<^verbatim>\<open>UndirectedGraph\<close> calls this
  constructor.
\<close>

definition Graph_move :: "Graph \<Rightarrow> Graph \<times> Graph" where
  "Graph_move other =
     (let this = Graph_new (is_undirected other);
          (n1, n2) = Array_swap (nodes this) (nodes other);
          (e1, e2) = Array_swap (edges this) (edges other);
          (m1, m2) = (adjacency_matrix other, adjacency_matrix this)
      in (this\<lparr>nodes := n1, edges := e1, adjacency_matrix := m1\<rparr>,
          other\<lparr>nodes := n2, edges := e2, adjacency_matrix := m2\<rparr>))"

section \<open>Well-formed graphs\<close>

text \<open>The records behind the identifiers: \<^verbatim>\<open>nodes_[i]\<close> and \<^verbatim>\<open>edges_[j]\<close>.\<close>

definition node_at :: "('n, 'e) world \<Rightarrow> Graph \<Rightarrow> nat \<Rightarrow> 'n Node option" where
  "node_at w g i = load (node_heap w) (slot (nodes g) i)"

definition edge_at :: "('n, 'e) world \<Rightarrow> Graph \<Rightarrow> nat \<Rightarrow> 'e Edge option" where
  "edge_at w g j = load (edge_heap w) (slot (edges g) j)"

text \<open>
  The invariant of a graph \<open>g\<close> whose records live in \<open>w\<close>:
  \<^item> \<open>stores_ok\<close>: both containers are well formed in their heaps;
  \<^item> \<open>matrix_ok\<close>: the matrix is square, of the size of the node store;
  \<^item> \<open>nodes_dense\<close>: the node at position \<open>i\<close> has identifier \<open>i\<close>;
  \<^item> \<open>edge_ok\<close>: the edge at position \<open>j\<close> has identifier \<open>j\<close>, points to two node
    records of this graph's node store, and the matrix cell of its endpoints (both
    cells in an undirected graph) holds its address;
  \<^item> \<open>cell_ok\<close>: an occupied cell holds the address of an edge of this graph's edge store
    that joins the cell's row and column (in either order in an undirected graph);
  \<^item> no slot of the edge store above its elements has been destroyed: \<^verbatim>\<open>Edges::add\<close>
    never removes an edge.  (The node store can have such a slot, after
    \<^verbatim>\<open>Nodes::add\<close> has removed the node whose matrix row was refused.)
\<close>

definition stores_ok :: "('n, 'e) world \<Rightarrow> Graph \<Rightarrow> bool" where
  "stores_ok w g \<longleftrightarrow>
     heap_ok (node_heap w) \<and> heap_ok (edge_heap w) \<and>
     wf_array (node_heap w) (nodes g) \<and> wf_array (edge_heap w) (edges g)"

definition matrix_ok :: "Graph \<Rightarrow> bool" where
  "matrix_ok g \<longleftrightarrow>
     length (adjacency_matrix g) = Nodes_size g \<and>
     (\<forall>r \<in> set (adjacency_matrix g). length r = Nodes_size g)"

definition nodes_dense :: "('n, 'e) world \<Rightarrow> Graph \<Rightarrow> bool" where
  "nodes_dense w g \<longleftrightarrow> (\<forall>i < Nodes_size g. \<exists>n. node_at w g i = Some n \<and> node_id n = i)"

definition edge_ok :: "('n, 'e) world \<Rightarrow> Graph \<Rightarrow> nat \<Rightarrow> bool" where
  "edge_ok w g j \<longleftrightarrow>
     (\<exists>e s t. edge_at w g j = Some e \<and> edge_id e = j \<and>
        s < Nodes_size g \<and> t < Nodes_size g \<and>
        edge_source e = slot (nodes g) s \<and> edge_target e = slot (nodes g) t \<and>
        adjacency_matrix g ! s ! t = Some (slot (edges g) j) \<and>
        (is_undirected g \<longrightarrow> adjacency_matrix g ! t ! s = Some (slot (edges g) j)))"

definition cell_ok :: "('n, 'e) world \<Rightarrow> Graph \<Rightarrow> nat \<Rightarrow> nat \<Rightarrow> bool" where
  "cell_ok w g s t \<longleftrightarrow>
     (\<forall>p. adjacency_matrix g ! s ! t = Some p \<longrightarrow>
        (\<exists>j < Edges_size g. \<exists>e. p = slot (edges g) j \<and> edge_at w g j = Some e \<and>
           (edge_source e = slot (nodes g) s \<and> edge_target e = slot (nodes g) t \<or>
            is_undirected g \<and>
            edge_source e = slot (nodes g) t \<and> edge_target e = slot (nodes g) s)))"

definition wf_graph :: "('n, 'e) world \<Rightarrow> Graph \<Rightarrow> bool" where
  "wf_graph w g \<longleftrightarrow>
     stores_ok w g \<and> matrix_ok g \<and> nodes_dense w g \<and>
     (\<forall>j < Edges_size g. edge_ok w g j) \<and>
     (\<forall>s < Nodes_size g. \<forall>t < Nodes_size g. cell_ok w g s t) \<and>
     spare_fresh (edge_heap w) (edges g)"

text \<open>The matrix after \<^verbatim>\<open>Edges::add\<close> has written the cell of an edge, and its mirror
  in an undirected graph.\<close>

definition added_cells :: "bool \<Rightarrow> matrix \<Rightarrow> nat \<Rightarrow> nat \<Rightarrow> ptr option \<Rightarrow> matrix" where
  "added_cells u m s t v =
     (let m1 = m[s := (m ! s)[t := v]] in if u then m1[t := (m1 ! t)[s := v]] else m1)"

section \<open>Programs over a graph\<close>

text \<open>
  A client that adds nodes and edges and goes on after an exception, with the state the
  failed call left behind.
\<close>

datatype ('n, 'e) command = AddNode nat 'n | AddEdge nat nat nat 'e

fun run_command ::
  "('n, 'e) command \<Rightarrow> ('n, 'e) world \<times> Graph \<Rightarrow> ('n, 'e) world \<times> Graph" where
  "run_command (AddNode ident d) (w, g) = snd (Nodes_add ident d w g)"
| "run_command (AddEdge ident s t d) (w, g) = snd (Edges_add ident s t d w g)"

definition run_commands ::
  "('n, 'e) command list \<Rightarrow> ('n, 'e) world \<times> Graph \<Rightarrow> ('n, 'e) world \<times> Graph" where
  "run_commands cs s = fold run_command cs s"

text \<open>A world with no record, whose allocators satisfy \<open>k\<close> requests each.\<close>

definition empty_world :: "nat \<Rightarrow> ('n, 'e) world" where
  "empty_world k = \<lparr>node_heap = empty_heap k, edge_heap = empty_heap k, row_avail = k\<rparr>"

text \<open>
  The graph of the first scenario: nodes 0, 1, 2 with payloads a, b, c and the edges
  \<open>(0, 1)\<close> with payload x and \<open>(1, 2)\<close> with payload y, directed or undirected.
\<close>

definition scenario_commands :: "(string, string) command list" where
  "scenario_commands =
     [AddNode 0 ''a'', AddNode 1 ''b'', AddNode 2 ''c'',
      AddEdge 0 0 1 ''x'', AddEdge 1 1 2 ''y'']"

definition scenario :: "bool \<Rightarrow> (string, string) world \<times> Graph" where
  "scenario u = run_commands scenario_commands (empty_world 100, Graph_new u)"

text \<open>A one-node graph in a world whose allocators have nothing left to give.\<close>

definition tight :: "(string, string) world \<times> Graph" where
  "tight = run_commands [AddNode 0 ''a''] (empty_world 1, Graph_new False)"

text \<open>Two graphs in one world: the example graph, and a second graph \<open>snd two_graphs\<close>
  with the one node 0 of payload z, added after the example graph was built.\<close>

definition two_graphs :: "(string, string) world \<times> Graph" where
  "two_graphs = snd (Nodes_add 0 ''z'' (fst (scenario False)) (Graph_new False))"

subsection \<open>Predicates used to specify copying\<close>

definition blocks_ok :: "'a heap \<Rightarrow> Array \<Rightarrow> bool" where
  "blocks_ok h a \<longleftrightarrow>
     0 < block_size a \<and> distinct (data a) \<and>
     (\<forall>b \<in> set (data a). \<exists>xs. blk h b = Some xs \<and> length xs = block_size a)"

definition edge_ids :: "('n, 'e) world \<Rightarrow> Graph \<Rightarrow> nat \<Rightarrow> 'e Edge \<Rightarrow> nat \<Rightarrow> nat \<Rightarrow> bool" where
  "edge_ids w g j e s t \<longleftrightarrow>
     edge_at w g j = Some e \<and> getSource_getId w e = Inr s \<and> getTarget_getId w e = Inr t \<and>
     s < Nodes_size g \<and> t < Nodes_size g"

definition simple_edges :: "bool \<Rightarrow> nat \<Rightarrow> (nat \<Rightarrow> nat) \<Rightarrow> (nat \<Rightarrow> nat) \<Rightarrow> bool" where
  "simple_edges u m S T \<longleftrightarrow>
     (\<forall>j < m. \<forall>j' < m. j \<noteq> j' \<longrightarrow>
        \<not> (S j = S j' \<and> T j = T j') \<and> \<not> (u \<and> S j = T j' \<and> T j = S j'))"

definition cells_from ::
  "bool \<Rightarrow> nat \<Rightarrow> (nat \<Rightarrow> ptr) \<Rightarrow> (nat \<Rightarrow> nat) \<Rightarrow> (nat \<Rightarrow> nat) \<Rightarrow> nat \<Rightarrow> matrix \<Rightarrow> bool" where
  "cells_from u n P S T k M \<longleftrightarrow>
     length M = n \<and> (\<forall>r \<in> set M. length r = n) \<and>
     (\<forall>a < n. \<forall>b < n. \<forall>p. M ! a ! b = Some p \<longrightarrow>
        (\<exists>j < k. p = P j \<and> (S j = a \<and> T j = b \<or> u \<and> T j = a \<and> S j = b)))"

definition edges_placed ::
  "bool \<Rightarrow> (nat \<Rightarrow> ptr) \<Rightarrow> (nat \<Rightarrow> nat) \<Rightarrow> (nat \<Rightarrow> nat) \<Rightarrow> nat \<Rightarrow> matrix \<Rightarrow> bool" where
  "edges_placed u P S T k M \<longleftrightarrow>
     (\<forall>j < k. M ! S j ! T j = Some (P j) \<and> (u \<longrightarrow> M ! T j ! S j = Some (P j)))"

definition source_id :: "('n, 'e) world \<Rightarrow> Graph \<Rightarrow> nat \<Rightarrow> nat" where
  "source_id w g j =
     (case edge_at w g j of
        None \<Rightarrow> 0
      | Some e \<Rightarrow> (case getSource_getId w e of Inl x \<Rightarrow> 0 | Inr s \<Rightarrow> s))"

definition target_id :: "('n, 'e) world \<Rightarrow> Graph \<Rightarrow> nat \<Rightarrow> nat" where
  "target_id w g j =
     (case edge_at w g j of
        None \<Rightarrow> 0
      | Some e \<Rightarrow> (case getTarget_getId w e of Inl x \<Rightarrow> 0 | Inr t \<Rightarrow> t))"

definition untouched :: "Graph \<Rightarrow> ('n, 'e) world \<Rightarrow> ('n, 'e) world \<Rightarrow> bool" where
  "untouched g w w' \<longleftrightarrow>
     (\<forall>b \<in> set (data (nodes g)). blk (node_heap w') b = blk (node_heap w) b) \<and>
     (\<forall>b \<in> set (data (edges g)). blk (edge_heap w') b = blk (edge_heap w) b) \<and>
     (\<forall>p. fst p \<in> set (data (nodes g)) \<longrightarrow>
          (p \<in> destroyed (node_heap w') \<longleftrightarrow> p \<in> destroyed (node_heap w))) \<and>
     (\<forall>p. fst p \<in> set (data (edges g)) \<longrightarrow>
          (p \<in> destroyed (edge_heap w') \<longleftrightarrow> p \<in> destroyed (edge_heap w)))"

definition node_view :: "('n, 'e) world \<Rightarrow> Graph \<Rightarrow> nat \<Rightarrow> (nat \<times> 'n) option" where
  "node_view w g i =
     (case node_at w g i of None \<Rightarrow> None | Some n \<Rightarrow> Some (node_id n, node_data n))"

definition edge_view :: "('n, 'e) world \<Rightarrow> Graph \<Rightarrow> nat \<Rightarrow> (nat \<times> nat \<times> nat \<times> 'e) option" where
  "edge_view w g j =
     (case edge_at w g j of
        None \<Rightarrow> None
      | Some e \<Rightarrow>
          (case getSource_getId w e of
             Inl x \<Rightarrow> None
           | Inr s \<Rightarrow>
               (case getTarget_getId w e of
                  Inl x \<Rightarrow> None
                | Inr t \<Rightarrow> Some (edge_id e, s, t, edge_data e))))"

definition owns :: "Array \<Rightarrow> ptr \<Rightarrow> bool" where
  "owns a p \<longleftrightarrow> fst p \<in> set (data a)"

definition copy_fidelity ::
  "('n, 'e) world \<Rightarrow> Graph \<Rightarrow> ('n, 'e) world \<Rightarrow> Graph \<Rightarrow> bool" where
  "copy_fidelity w G w' C \<longleftrightarrow>
     Nodes_size C = Nodes_size G \<and> Edges_size C = Edges_size G \<and>
     (\<forall>i < Nodes_size G. \<exists>d.
        node_view w G i = Some (i, d) \<and> node_view w' C i = Some (i, d)) \<and>
     (\<forall>j < Edges_size G. \<exists>s t d e.
        edge_view w G j = Some (j, s, t, d) \<and> edge_view w' C j = Some (j, s, t, d) \<and>
        edge_at w' C j = Some e \<and>
        Nodes_get C s = Inr (edge_source e) \<and> Nodes_get C t = Inr (edge_target e) \<and>
        owns (nodes C) (edge_source e) \<and> owns (nodes C) (edge_target e) \<and>
        \<not> owns (nodes G) (edge_source e) \<and> \<not> owns (nodes G) (edge_target e)) \<and>
     (\<forall>s < Nodes_size C. \<forall>t < Nodes_size C. \<forall>p.
        adjacency_matrix C ! s ! t = Some p \<longrightarrow>
          (\<exists>j < Edges_size C. Edges_get_id C j = Inr p) \<and>
          owns (edges C) p \<and> \<not> owns (edges G) p)"

definition separate :: "Graph \<Rightarrow> Graph \<Rightarrow> bool" where
  "separate a b \<longleftrightarrow>
     set (data (nodes a)) \<inter> set (data (nodes b)) = {} \<and>
     set (data (edges a)) \<inter> set (data (edges b)) = {}"

section \<open>Reachable graphs\<close>

text \<open>
  \<open>reachable w g\<close>: the graph \<open>g\<close>, with its records in the world \<open>w\<close>, is the
  result of operations of the library.  A graph starts as a new graph; nodes and edges
  are added by both overloads of \<^verbatim>\<open>add\<close>, whatever the outcome of the call (a failed
  call goes on from the state it left behind; \<^verbatim>\<open>import\<close> is a sequence of such calls);
  a graph is copied by the copy constructor and assigned to a graph that never held an
  element.  Moving a \<^verbatim>\<open>DirectedGraph\<close> or an \<^verbatim>\<open>UndirectedGraph\<close> is copying it: the
  classes declare a copy constructor and no move operation, so that
  \<^verbatim>\<open>C(std::move(G))\<close> and \<^verbatim>\<open>C = std::move(G)\<close> select the copy constructor and the
  copy assignment.  The stores have no operation that removes a node or an edge; the
  one removal of the code is the \<^verbatim>\<open>pop_back\<close> inside \<^verbatim>\<open>Nodes::add\<close>.  The last rule
  stands for what the program does to its other graphs: their operations change the
  world, but no block of \<open>g\<close>.

  The copy assignment onto a graph that holds elements is no step: the operator calls
  the destructors of these elements and the blocks keep the destroyed objects, which
  are assigned to by the operator or destroyed again by \<^verbatim>\<open>delete[]\<close>.  The base class
  operator can assign a directed graph to an undirected one (through a reference to
  \<^verbatim>\<open>Graph\<close>; the classes \<^verbatim>\<open>DirectedGraph\<close> and \<^verbatim>\<open>UndirectedGraph\<close> cannot be assigned to
  each other), which is no step either.
\<close>

inductive reachable :: "('n, 'e) world \<Rightarrow> Graph \<Rightarrow> bool" where
  new_graph:
    "heap_ok (node_heap w) \<Longrightarrow> heap_ok (edge_heap w) \<Longrightarrow> reachable w (Graph_new u)"
| node_add:
    "reachable w g \<Longrightarrow> Nodes_add i d w g = (r, w', g') \<Longrightarrow> reachable w' g'"
| node_add_next:
    "reachable w g \<Longrightarrow> Nodes_add_next d w g = (r, w', g') \<Longrightarrow> reachable w' g'"
| edge_add:
    "reachable w g \<Longrightarrow> Edges_add j s t x w g = (q, w', g') \<Longrightarrow> reachable w' g'"
| edge_add_next:
    "reachable w g \<Longrightarrow> Edges_add_next s t x w g = (q, w', g') \<Longrightarrow> reachable w' g'"
| copy:
    "reachable w g \<Longrightarrow> Graph_copy w g = Inr (w', c) \<Longrightarrow> reachable w' c"
| copy_assign:
    "reachable w this \<Longrightarrow> reachable w g \<Longrightarrow> separate this g \<Longrightarrow>
     Nodes_size this = 0 \<Longrightarrow> Edges_size this = 0 \<Longrightarrow>
     spare_fresh (node_heap w) (nodes this) \<Longrightarrow>
     (is_undirected this \<longrightarrow> is_undirected g) \<Longrightarrow>
     Graph_copy_assign w this g = (Inr y, w', c) \<Longrightarrow> reachable w' c"
| elsewhere:
    "reachable w g \<Longrightarrow> untouched g w w' \<Longrightarrow>
     heap_ok (node_heap w') \<Longrightarrow> heap_ok (edge_heap w') \<Longrightarrow> reachable w' g"
section \<open>The container: addresses, frames, well-formed states\<close>

lemma div_less_blocks: "i < n * bs \<Longrightarrow> i div bs < (n::nat)"
  by (simp add: less_mult_imp_div_less)

lemma slot_inj:
  assumes "0 < block_size a" "distinct (data a)"
    "i < length (data a) * block_size a" "j < length (data a) * block_size a"
    "slot a i = slot a j"
  shows "i = j"
proof -
  have di: "i div block_size a < length (data a)" and dj: "j div block_size a < length (data a)"
    using assms by (simp_all add: div_less_blocks)
  from assms(5) have "data a ! (i div block_size a) = data a ! (j div block_size a)"
    and m: "i mod block_size a = j mod block_size a" by (simp_all add: slot_def)
  with di dj assms(2) have "i div block_size a = j div block_size a"
    by (simp add: nth_eq_iff_index_eq)
  with m show ?thesis by (metis div_mult_mod_eq)
qed

lemma load_store:
  "blk h (fst p) = Some xs \<Longrightarrow> snd p < length xs \<Longrightarrow>
   load (store h p v) q = (if q = p then v else load h q)"
  by (cases p; cases q) (auto simp: load_def store_def)

lemma load_store_other:
  "fst q \<noteq> fst p \<Longrightarrow> load (store h p v) q = load h q"
  by (auto simp: load_def store_def split: option.splits)

lemma blk_store_other: "b \<noteq> fst p \<Longrightarrow> blk (store h p v) b = blk h b"
  by (auto simp: store_def split: option.splits)

lemma blk_store_length:
  "blk h b = Some xs \<Longrightarrow> \<exists>ys. blk (store h p v) b = Some ys \<and> length ys = length xs"
  by (auto simp: store_def split: option.splits)

lemma brk_store [simp]: "brk (store h p v) = brk h"
  by (auto simp: store_def split: option.splits)

lemma avail_store [simp]: "avail (store h p v) = avail h"
  by (auto simp: store_def split: option.splits)

lemma destroyed_store [simp]: "destroyed (store h p v) = destroyed h"
  by (auto simp: store_def split: option.splits)

lemma blk_destroy [simp]: "blk (destroy h p) = blk (store h p None)"
  by (simp add: destroy_def)

lemma brk_destroy [simp]: "brk (destroy h p) = brk h"
  by (simp add: destroy_def)

lemma avail_destroy [simp]: "avail (destroy h p) = avail h"
  by (simp add: destroy_def)

lemma destroyed_destroy [simp]: "destroyed (destroy h p) = insert p (destroyed h)"
  by (simp add: destroy_def)

lemma load_destroy [simp]: "load (destroy h p) q = load (store h p None) q"
  by (simp add: load_def)

lemma heap_okI:
  assumes "\<And>b. brk h \<le> b \<Longrightarrow> blk h b = None" "\<And>p. p \<in> destroyed h \<Longrightarrow> fst p < brk h"
  shows "heap_ok h"
  using assms by (simp add: heap_ok_def)

lemma heap_ok_blk: "heap_ok h \<Longrightarrow> brk h \<le> b \<Longrightarrow> blk h b = None"
  by (simp add: heap_ok_def)

lemma heap_ok_destroyed: "heap_ok h \<Longrightarrow> p \<in> destroyed h \<Longrightarrow> fst p < brk h"
  by (simp add: heap_ok_def)

lemma heap_ok_cong:
  assumes "heap_ok h" "brk h \<le> brk h'" "\<And>b. brk h' \<le> b \<Longrightarrow> blk h' b = None"
    "destroyed h' = destroyed h"
  shows "heap_ok h'"
  using assms by (fastforce simp: heap_ok_def)

lemma heap_ok_store: "heap_ok h \<Longrightarrow> heap_ok (store h p v)"
  by (rule heap_okI) (auto simp: heap_ok_def store_def split: option.splits)

lemma free_space_count_fits:
  "element_count a \<le> length (data a) * block_size a \<Longrightarrow>
   free_space_count a = length (data a) * block_size a - element_count a"
  by (simp add: free_space_count_def)

lemma free_space_count_wf:
  "wf_array h a \<Longrightarrow> free_space_count a = length (data a) * block_size a - element_count a"
  by (simp add: wf_array_def free_space_count_def)

lemma wf_array_allocated:
  "wf_array h a \<Longrightarrow> heap_ok h \<Longrightarrow> b \<in> set (data a) \<Longrightarrow> b < brk h"
  unfolding wf_array_def using heap_ok_blk[of h b] by (metis not_le option.distinct(1))

lemma wf_array_cong:
  assumes "wf_array h a" "\<forall>b \<in> set (data a). blk h' b = blk h b"
  shows "wf_array h' a"
proof -
  have "load h' (slot a i) = load h (slot a i)" if "i < element_count a" for i
  proof -
    have "i div block_size a < length (data a)"
      using assms(1) that unfolding wf_array_def
      by (meson div_less_blocks less_le_trans)
    then have "fst (slot a i) \<in> set (data a)" by (simp add: slot_def)
    with assms(2) show ?thesis by (simp add: load_def)
  qed
  with assms show ?thesis unfolding wf_array_def by simp
qed

lemma slot_in_data:
  "wf_array h a \<Longrightarrow> i < length (data a) * block_size a \<Longrightarrow> fst (slot a i) \<in> set (data a)"
  by (simp add: slot_def div_less_blocks)

lemma slot_valid:
  assumes "wf_array h a" "i < length (data a) * block_size a"
  shows "\<exists>xs. blk h (fst (slot a i)) = Some xs \<and> snd (slot a i) < length xs"
proof -
  from assms have "fst (slot a i) \<in> set (data a)" by (rule slot_in_data)
  with assms(1) obtain xs where "blk h (fst (slot a i)) = Some xs" "length xs = block_size a"
    unfolding wf_array_def by blast
  moreover have "snd (slot a i) < block_size a"
    using assms(1) by (simp add: slot_def wf_array_def)
  ultimately show ?thesis by simp
qed

lemma push_back_full:
  assumes "wf_array h a" "heap_ok h" "free_space_count a = 0"
  shows "push_back v h a =
    (if avail h = 0 then Inl UnavailableMemory
     else Inr (h\<lparr>blk := (blk h)(brk h \<mapsto> (replicate (block_size a) None)[0 := Some v]),
                 brk := Suc (brk h), avail := avail h - 1\<rparr>,
               a\<lparr>data := data a @ [brk h], element_count := Suc (element_count a)\<rparr>))"
proof -
  from assms have c: "element_count a = length (data a) * block_size a" and bs: "0 < block_size a"
    by (simp_all add: wf_array_def free_space_count_def)
  have nd: "(brk h, 0) \<notin> destroyed h"
    using heap_ok_destroyed[OF assms(2), of "(brk h, 0)"] by auto
  show ?thesis
    using bs nd by (simp add: push_back_def add_block_def assms(3) slot_ok_def slot_def c store_def)
qed

lemma push_back_room:
  assumes "wf_array h a" "free_space_count a \<noteq> 0"
  shows "push_back v h a =
    (if slot a (element_count a) \<in> destroyed h then Inl UndefinedBehaviour
     else Inr (store h (slot a (element_count a)) (Some v),
               a\<lparr>element_count := Suc (element_count a)\<rparr>))"
proof -
  from assms have "element_count a < length (data a) * block_size a" and bs: "0 < block_size a"
    by (simp_all add: wf_array_def free_space_count_def)
  then have "slot_ok a (element_count a)" by (simp add: slot_ok_def div_less_blocks)
  then show ?thesis using assms(2) by (simp add: push_back_def)
qed

lemma push_back_wf:
  assumes wf: "wf_array h a" and ok: "heap_ok h" and pb: "push_back v h a = Inr (h', a')"
  shows "wf_array h' a'"
proof (cases "free_space_count a = 0")
  case True
  from wf True have c: "element_count a = length (data a) * block_size a" and bs: "0 < block_size a"
    by (simp_all add: wf_array_def free_space_count_def)
  from pb True wf ok have av: "avail h \<noteq> 0"
    and h': "h' = h\<lparr>blk := (blk h)(brk h \<mapsto> (replicate (block_size a) None)[0 := Some v]),
                 brk := Suc (brk h), avail := avail h - 1\<rparr>"
    and a': "a' = a\<lparr>data := data a @ [brk h], element_count := Suc (element_count a)\<rparr>"
    by (auto simp: push_back_full split: if_splits)
  have fresh: "brk h \<notin> set (data a)"
    using wf_array_allocated[OF wf ok] by blast
  have old: "load h' (slot a' i) = load h (slot a i)" if "i < element_count a" for i
  proof -
    from that c have d: "i div block_size a < length (data a)" by (simp add: div_less_blocks)
    then have "data a ! (i div block_size a) \<in> set (data a)" by simp
    with fresh have "data a ! (i div block_size a) \<noteq> brk h" by metis
    with d show ?thesis by (simp add: h' a' load_def slot_def nth_append)
  qed
  have new: "load h' (slot a' (element_count a)) = Some v"
    using bs by (simp add: h' a' load_def slot_def c nth_append)
  have live: "load h' (slot a' i) \<noteq> None" if "i < Suc (element_count a)" for i
  proof (cases "i = element_count a")
    case True then show ?thesis using new by simp
  next
    case False
    with that have "i < element_count a" by simp
    with old wf show ?thesis by (simp add: wf_array_def)
  qed
  have blocks: "\<exists>xs. blk h' b = Some xs \<and> length xs = block_size a" if "b \<in> set (data a')" for b
    using that wf fresh by (auto simp: h' a' wf_array_def)
  show ?thesis
    unfolding wf_array_def
    using bs fresh wf live blocks by (auto simp: a' c wf_array_def)
next
  case False
  from wf False have lt: "element_count a < length (data a) * block_size a"
    by (simp add: wf_array_def free_space_count_def)
  from pb wf False have h': "h' = store h (slot a (element_count a)) (Some v)"
    and a': "a' = a\<lparr>element_count := Suc (element_count a)\<rparr>"
    by (auto simp: push_back_room split: if_splits)
  from slot_valid[OF wf lt] obtain xs where
    xs: "blk h (fst (slot a (element_count a))) = Some xs" "snd (slot a (element_count a)) < length xs"
    by blast
  have sl: "slot a' i = slot a i" for i by (simp add: a' slot_def)
  have live: "load h' (slot a' i) \<noteq> None" if "i < Suc (element_count a)" for i
    using that wf by (auto simp: h' sl load_store[OF xs] wf_array_def less_Suc_eq)
  have blocks: "\<exists>xs. blk h' b = Some xs \<and> length xs = block_size a" if "b \<in> set (data a')" for b
  proof -
    from that wf obtain ys where "blk h b = Some ys" "length ys = block_size a"
      by (auto simp: a' wf_array_def)
    with blk_store_length[of h b ys] show ?thesis by (metis h')
  qed
  show ?thesis
    unfolding wf_array_def
    using wf lt live blocks by (auto simp: a' wf_array_def)
qed

lemma push_back_heap_ok:
  assumes "wf_array h a" "heap_ok h" "push_back v h a = Inr (h', a')"
  shows "heap_ok h'"
proof (cases "free_space_count a = 0")
  case True
  with assms show ?thesis by (fastforce simp: push_back_full heap_ok_def split: if_splits)
next
  case False
  with assms show ?thesis by (auto simp: push_back_room heap_ok_store split: if_splits)
qed

lemma push_back_data:
  assumes "wf_array h a" "heap_ok h" "push_back v h a = Inr (h', a')"
  shows "data a' = (if free_space_count a = 0 then data a @ [brk h] else data a)"
    and "brk h' = (if free_space_count a = 0 then Suc (brk h) else brk h)"
    and "element_count a' = Suc (element_count a)"
    and "block_size a' = block_size a"
  using assms by (cases "free_space_count a = 0"; auto simp: push_back_full push_back_room split: if_splits)+

lemma push_back_slot:
  assumes "wf_array h a" "heap_ok h" "push_back v h a = Inr (h', a')" "i < element_count a"
  shows "slot a' i = slot a i"
proof -
  from assms(1,4) have "i div block_size a < length (data a)"
    unfolding wf_array_def by (meson div_less_blocks less_le_trans)
  then show ?thesis
    using push_back_data[OF assms(1-3)] by (simp add: slot_def nth_append)
qed

lemma push_back_frame:
  assumes "wf_array h a" "heap_ok h" "push_back v h a = Inr (h', a')"
    "p \<noteq> slot a' (element_count a)" "fst p < brk h"
  shows "load h' p = load h p"
proof (cases "free_space_count a = 0")
  case True
  with assms show ?thesis
    by (auto simp: push_back_full load_def split: if_splits)
next
  case False
  from assms(1) False have lt: "element_count a < length (data a) * block_size a"
    by (simp add: wf_array_def free_space_count_def)
  from slot_valid[OF assms(1) lt] obtain xs where
    xs: "blk h (fst (slot a (element_count a))) = Some xs" "snd (slot a (element_count a)) < length xs"
    by blast
  from assms False have "h' = store h (slot a (element_count a)) (Some v)"
    and "slot a' (element_count a) = slot a (element_count a)"
    by (auto simp: push_back_room slot_def split: if_splits)
  with assms(4) show ?thesis by (simp add: load_store[OF xs])
qed

lemma push_back_blk_frame:
  assumes "wf_array h a" "heap_ok h" "push_back v h a = Inr (h', a')" "b \<notin> set (data a')"
  shows "blk h' b = blk h b"
proof (cases "free_space_count a = 0")
  case True
  with assms show ?thesis
    by (auto simp: push_back_full split: if_splits)
next
  case False
  from assms(1) False have lt: "element_count a < length (data a) * block_size a"
    by (simp add: wf_array_def free_space_count_def)
  from assms False have h': "h' = store h (slot a (element_count a)) (Some v)"
    and "data a' = data a"
    by (auto simp: push_back_room split: if_splits)
  with assms(4) slot_in_data[OF assms(1) lt] have "b \<noteq> fst (slot a (element_count a))" by metis
  then show ?thesis by (simp add: h' blk_store_other)
qed

lemma push_back_new:
  assumes "wf_array h a" "heap_ok h" "push_back v h a = Inr (h', a')"
  shows "load h' (slot a' (element_count a)) = Some v"
proof (cases "free_space_count a = 0")
  case True
  from assms(1) True have c: "element_count a = length (data a) * block_size a" and bs: "0 < block_size a"
    by (simp_all add: wf_array_def free_space_count_def)
  from True assms bs show ?thesis
    by (auto simp: push_back_full load_def slot_def c nth_append split: if_splits)
next
  case False
  from assms(1) False have lt: "element_count a < length (data a) * block_size a"
    by (simp add: wf_array_def free_space_count_def)
  from slot_valid[OF assms(1) lt] obtain xs where
    xs: "blk h (fst (slot a (element_count a))) = Some xs" "snd (slot a (element_count a)) < length xs"
    by blast
  from assms False have "h' = store h (slot a (element_count a)) (Some v)"
    and "slot a' (element_count a) = slot a (element_count a)"
    by (auto simp: push_back_room slot_def split: if_splits)
  then show ?thesis by (simp add: load_store[OF xs])
qed

lemma push_back_old:
  assumes "wf_array h a" "heap_ok h" "push_back v h a = Inr (h', a')" "i < element_count a"
  shows "load h' (slot a' i) = load h (slot a i)"
proof -
  have s: "slot a' i = slot a i" using assms by (rule push_back_slot)
  have a'wf: "wf_array h' a'" using assms(1-3) by (rule push_back_wf)
  have dl: "length (data a) \<le> length (data a')" "block_size a' = block_size a"
    "element_count a' = Suc (element_count a)"
    using push_back_data[OF assms(1-3)] by (auto split: if_splits)
  have "slot a' i \<noteq> slot a' (element_count a)"
  proof
    assume e: "slot a' i = slot a' (element_count a)"
    have "i = element_count a"
    proof (rule slot_inj[OF _ _ _ _ e])
      show "0 < block_size a'" "distinct (data a')" using a'wf by (simp_all add: wf_array_def)
      have "element_count a < length (data a') * block_size a'"
        using a'wf dl by (simp add: wf_array_def)
      then show "element_count a < length (data a') * block_size a'" .
      with assms(4) show "i < length (data a') * block_size a'" by simp
    qed
    with assms(4) show False by simp
  qed
  moreover have "fst (slot a i) < brk h"
  proof -
    from assms(1,4) have "i < length (data a) * block_size a" by (simp add: wf_array_def)
    from slot_in_data[OF assms(1) this] wf_array_allocated[OF assms(1,2)] show ?thesis by blast
  qed
  ultimately show ?thesis using push_back_frame[OF assms(1-3), of "slot a i"] s by simp
qed

text \<open>A successful \<^verbatim>\<open>push_back\<close> has found its slot not destroyed, and destroys nothing.\<close>

lemma push_back_destroyed:
  assumes "wf_array h a" "heap_ok h" "push_back v h a = Inr (h', a')"
  shows "destroyed h' = destroyed h" "slot a' (element_count a) \<notin> destroyed h"
proof -
  show "destroyed h' = destroyed h"
    using assms
    by (cases "free_space_count a = 0") (auto simp: push_back_full push_back_room split: if_splits)
  show "slot a' (element_count a) \<notin> destroyed h"
  proof (cases "free_space_count a = 0")
    case True
    from assms(1) True have c: "element_count a = length (data a) * block_size a"
      and bs: "0 < block_size a"
      by (simp_all add: wf_array_def free_space_count_def)
    from assms True have "data a' = data a @ [brk h]" "block_size a' = block_size a"
      by (auto simp: push_back_full split: if_splits)
    then have "fst (slot a' (element_count a)) = brk h"
      using bs by (simp add: slot_def c nth_append)
    with heap_ok_destroyed[OF assms(2), of "slot a' (element_count a)"] show ?thesis by auto
  next
    case False
    with assms show ?thesis by (auto simp: push_back_room slot_def split: if_splits)
  qed
qed

lemma push_back_result:
  assumes "wf_array h a" "heap_ok h" "spare_fresh h a"
  shows "(\<exists>e. push_back v h a = Inl e) \<longleftrightarrow> free_space_count a = 0 \<and> avail h = 0"
    and "push_back v h a = Inl e \<Longrightarrow> e = UnavailableMemory"
proof -
  have fresh: "slot a (element_count a) \<notin> destroyed h" if "free_space_count a \<noteq> 0"
  proof -
    from that assms(1) have "element_count a < length (data a) * block_size a"
      by (simp add: wf_array_def free_space_count_def)
    with assms(3) show ?thesis by (simp add: spare_fresh_def)
  qed
  show "(\<exists>e. push_back v h a = Inl e) \<longleftrightarrow> free_space_count a = 0 \<and> avail h = 0"
    using fresh
    by (cases "free_space_count a = 0")
       (auto simp: push_back_full[OF assms(1,2)] push_back_room[OF assms(1)])
  show "push_back v h a = Inl e \<Longrightarrow> e = UnavailableMemory"
    using fresh
    by (cases "free_space_count a = 0")
       (auto simp: push_back_full[OF assms(1,2)] push_back_room[OF assms(1)] split: if_splits)
qed

lemma push_back_Inl:
  assumes "wf_array h a" "heap_ok h" "push_back v h a = Inl e"
  shows "free_space_count a = 0 \<and> avail h = 0 \<and> e = UnavailableMemory \<or>
         free_space_count a \<noteq> 0 \<and> slot a (element_count a) \<in> destroyed h \<and>
         e = UndefinedBehaviour"
  using assms(3)
  by (cases "free_space_count a = 0")
     (auto simp: push_back_full[OF assms(1,2)] push_back_room[OF assms(1)] split: if_splits)

text \<open>Appending keeps the spare slots fresh.\<close>

lemma push_back_spare:
  assumes wf: "wf_array h a" and ok: "heap_ok h" and sp: "spare_fresh h a"
    and pb: "push_back v h a = Inr (h', a')"
  shows "spare_fresh h' a'"
  unfolding spare_fresh_def
proof (intro allI impI)
  fix i assume i: "element_count a' \<le> i \<and> i < length (data a') * block_size a'"
  note d = push_back_data[OF wf ok pb] and dd = push_back_destroyed(1)[OF wf ok pb]
  from wf have bs: "0 < block_size a" by (simp add: wf_array_def)
  show "slot a' i \<notin> destroyed h'"
  proof (cases "i < length (data a) * block_size a")
    case True
    then have "i div block_size a < length (data a)" by (simp add: div_less_blocks)
    then have "slot a' i = slot a i" using d by (simp add: slot_def nth_append)
    moreover have "slot a i \<notin> destroyed h"
      using sp i True d(3) by (simp add: spare_fresh_def)
    ultimately show ?thesis by (simp add: dd)
  next
    case False
    with i d have full: "free_space_count a = 0" and da: "data a' = data a @ [brk h]"
      by (auto split: if_splits)
    from False have "length (data a) \<le> i div block_size a"
      using bs by (simp add: less_eq_div_iff_mult_less_eq mult.commute not_less)
    moreover from i d da have "i div block_size a < Suc (length (data a))"
      using bs by (simp add: div_less_blocks)
    ultimately have "i div block_size a = length (data a)" by simp
    then have "fst (slot a' i) = brk h" using d da by (simp add: slot_def)
    with heap_ok_destroyed[OF ok, of "slot a' i"] show ?thesis by (auto simp: dd)
  qed
qed

lemma pop_back_eq:
  assumes "wf_array h a"
  shows "pop_back h a =
    (if element_count a = 0 then Inl EmptyArray
     else if slot a (element_count a - 1) \<in> destroyed h then Inl UndefinedBehaviour
     else Inr (destroy h (slot a (element_count a - 1)),
               a\<lparr>element_count := element_count a - 1\<rparr>))"
proof (cases "element_count a = 0")
  case True then show ?thesis by (simp add: pop_back_def)
next
  case False
  from assms have "element_count a \<le> length (data a) * block_size a" "0 < block_size a"
    by (simp_all add: wf_array_def)
  with False have "element_count a - 1 < length (data a) * block_size a" "0 < block_size a"
    by simp_all
  then have "slot_ok a (element_count a - 1)" by (simp add: slot_ok_def div_less_blocks)
  then show ?thesis using False by (simp add: pop_back_def Let_def slot_ok_def slot_def)
qed

lemma pop_back_old:
  assumes "wf_array h a" "pop_back h a = Inr (h', a')" "i < element_count a - 1"
  shows "load h' (slot a' i) = load h (slot a i)"
proof -
  from assms have ne: "element_count a \<noteq> 0" by auto
  from assms ne have h': "h' = destroy h (slot a (element_count a - 1))"
    and a': "a' = a\<lparr>element_count := element_count a - 1\<rparr>"
    by (auto simp: pop_back_eq split: if_splits)
  from assms(1) have "element_count a \<le> length (data a) * block_size a"
    by (simp add: wf_array_def)
  with ne have lt: "element_count a - 1 < length (data a) * block_size a"
    by simp
  from slot_valid[OF assms(1) lt] obtain xs where
    xs: "blk h (fst (slot a (element_count a - 1))) = Some xs"
        "snd (slot a (element_count a - 1)) < length xs"
    by blast
  have "slot a i \<noteq> slot a (element_count a - 1)"
  proof
    assume e: "slot a i = slot a (element_count a - 1)"
    have "i = element_count a - 1"
      by (rule slot_inj[OF _ _ _ lt e]) (use assms(1,3) lt in \<open>simp_all add: wf_array_def\<close>)
    with assms(3) show False by simp
  qed
  moreover have "slot a' i = slot a i" by (simp add: a' slot_def)
  ultimately show ?thesis using load_store[OF xs, of None "slot a i"] by (simp add: h')
qed

lemma pop_back_wf:
  assumes "wf_array h a" "pop_back h a = Inr (h', a')"
  shows "wf_array h' a'"
proof -
  from assms have ne: "element_count a \<noteq> 0" by (auto simp: pop_back_def split: if_splits)
  from assms ne have h': "h' = destroy h (slot a (element_count a - 1))"
    and a': "a' = a\<lparr>element_count := element_count a - 1\<rparr>"
    by (auto simp: pop_back_eq split: if_splits)
  have live: "load h' (slot a' i) \<noteq> None" if "i < element_count a - 1" for i
    using pop_back_old[OF assms that] that assms(1) by (simp add: wf_array_def)
  have blocks: "\<exists>xs. blk h' b = Some xs \<and> length xs = block_size a" if "b \<in> set (data a)" for b
  proof -
    from that assms(1) obtain ys where "blk h b = Some ys" "length ys = block_size a"
      by (auto simp: wf_array_def)
    with blk_store_length[of h b ys] show ?thesis by (simp add: h')
  qed
  show ?thesis
    unfolding wf_array_def using assms(1) live blocks by (auto simp: a' wf_array_def)
qed

lemma pop_back_heap_ok:
  assumes "wf_array h a" "heap_ok h" "pop_back h a = Inr (h', a')"
  shows "heap_ok h'"
proof -
  from assms have ne: "element_count a \<noteq> 0" by (auto simp: pop_back_def split: if_splits)
  from assms ne have h': "h' = destroy h (slot a (element_count a - 1))"
    by (auto simp: pop_back_eq split: if_splits)
  from assms(1) have "element_count a \<le> length (data a) * block_size a"
    by (simp add: wf_array_def)
  with ne have lt: "element_count a - 1 < length (data a) * block_size a" by simp
  from slot_in_data[OF assms(1) lt] wf_array_allocated[OF assms(1,2)]
  have b: "fst (slot a (element_count a - 1)) < brk h" by blast
  show ?thesis
  proof (rule heap_okI)
    fix b assume "brk h' \<le> b"
    then show "blk h' b = None"
      using heap_ok_blk[OF heap_ok_store[OF assms(2)], of _ _ b] by (simp add: h')
  next
    fix p assume "p \<in> destroyed h'"
    then show "fst p < brk h'"
      using b heap_ok_destroyed[OF assms(2), of p] by (auto simp: h')
  qed
qed

lemma pop_back_data:
  assumes "wf_array h a" "pop_back h a = Inr (h', a')"
  shows "data a' = data a" "block_size a' = block_size a"
    "element_count a' = element_count a - 1" "element_count a \<noteq> 0" "brk h' = brk h"
    "avail h' = avail h"
  using assms by (auto simp: pop_back_eq split: if_splits)

text \<open>\<^verbatim>\<open>pop_back\<close> leaves the slot of the removed element destroyed, and the next
  \<^verbatim>\<open>push_back\<close> assigns to that slot.\<close>

lemma pop_back_destroyed:
  assumes "wf_array h a" "pop_back h a = Inr (h', a')"
  shows "destroyed h' = insert (slot a' (element_count a')) (destroyed h)"
  using assms by (auto simp: pop_back_eq slot_def split: if_splits)

lemma push_back_after_pop_back:
  assumes "wf_array h a" "pop_back h a = Inr (h', a')"
  shows "push_back v h' a' = Inl UndefinedBehaviour"
proof -
  have wf': "wf_array h' a'" using assms by (rule pop_back_wf)
  note d = pop_back_data[OF assms]
  from assms(1) have "element_count a \<le> length (data a) * block_size a"
    by (simp add: wf_array_def)
  with d have "element_count a' < length (data a') * block_size a'" by simp
  with wf' have "free_space_count a' \<noteq> 0" by (simp add: free_space_count_wf)
  from push_back_room[OF wf' this, of v] pop_back_destroyed[OF assms] show ?thesis by simp
qed

lemma pop_back_blk_frame:
  assumes "wf_array h a" "pop_back h a = Inr (h', a')" "b \<notin> set (data a)"
  shows "blk h' b = blk h b"
proof -
  from assms have ne: "element_count a \<noteq> 0" by (auto simp: pop_back_def split: if_splits)
  from assms ne have h': "h' = destroy h (slot a (element_count a - 1))"
    by (auto simp: pop_back_eq split: if_splits)
  from assms(1) have "element_count a \<le> length (data a) * block_size a"
    by (simp add: wf_array_def)
  with ne have lt: "element_count a - 1 < length (data a) * block_size a"
    by simp
  with assms(3) slot_in_data[OF assms(1) lt] have "b \<noteq> fst (slot a (element_count a - 1))" by metis
  then show ?thesis by (simp add: h' blk_store_other)
qed

lemma Array_new_wf: "0 < bs \<Longrightarrow> wf_array h (Array_new bs)"
  by (simp add: wf_array_def Array_new_def)

lemma run_ops_wf:
  "wf_array h a \<Longrightarrow> heap_ok h \<Longrightarrow> run_ops ops (h, a) = Inr (h', a') \<Longrightarrow>
   wf_array h' a' \<and> heap_ok h'"
proof (induction ops "(h, a)" arbitrary: h a rule: run_ops.induct)
  case 1
  then show ?case by simp
next
  case (2 v ops h a)
  then show ?case
    by (auto split: sum.splits dest: push_back_wf push_back_heap_ok)
next
  case (3 ops h a)
  then show ?case
    by (auto split: sum.splits dest: pop_back_wf pop_back_heap_ok)
qed

section \<open>Claims about the container\<close>

lemma reserve_eq:
  assumes "wf_array h a"
  shows "reserve h a =
           (if element_count a = length (data a) * block_size a
            then (if avail h = 0 then Inl UnavailableMemory
                  else Inr (h\<lparr>blk := (blk h)(brk h \<mapsto> replicate (block_size a) None),
                              brk := Suc (brk h), avail := avail h - 1\<rparr>,
                            a\<lparr>data := data a @ [brk h]\<rparr>))
            else Inr (h, a))"
proof -
  from assms have "element_count a \<le> length (data a) * block_size a" by (simp add: wf_array_def)
  then show ?thesis by (auto simp: reserve_def add_block_def free_space_count_def)
qed

lemma packed_full:
  assumes "wf_array h a" "packed a"
  shows "element_count a = length (data a) * block_size a \<longleftrightarrow>
         element_count a mod block_size a = 0"
proof
  assume "element_count a = length (data a) * block_size a"
  then show "element_count a mod block_size a = 0" by simp
next
  assume "element_count a mod block_size a = 0"
  then have "block_size a dvd element_count a" by (simp add: mod_eq_0_iff_dvd)
  then obtain k where k: "element_count a = k * block_size a"
    by (auto simp: dvd_def mult.commute)
  from assms have bs: "0 < block_size a"
    and le: "element_count a \<le> length (data a) * block_size a"
    and lt: "length (data a) * block_size a < element_count a + block_size a"
    by (simp_all add: wf_array_def packed_def)
  from le k bs have "k \<le> length (data a)" by simp
  moreover from lt k have "length (data a) * block_size a < Suc k * block_size a" by simp
  then have "length (data a) < Suc k" using bs by (simp only: mult_less_cancel2)
  ultimately have "k = length (data a)" by simp
  with k show "element_count a = length (data a) * block_size a" by simp
qed

lemma push_back_packed:
  assumes "wf_array h a" "heap_ok h" "packed a" "push_back v h a = Inr (h', a')"
  shows "packed a'"
proof -
  note d = push_back_data[OF assms(1,2,4)]
  from assms(1) have le: "element_count a \<le> length (data a) * block_size a"
    by (simp add: wf_array_def)
  show ?thesis
  proof (cases "free_space_count a = 0")
    case True
    with le have "element_count a = length (data a) * block_size a"
      by (simp add: free_space_count_def)
    with True d show ?thesis by (simp add: packed_def)
  next
    case False
    with d assms(3) show ?thesis by (simp add: packed_def)
  qed
qed

lemma appends_inv:
  "wf_array h a \<Longrightarrow> heap_ok h \<Longrightarrow> spare_fresh h a \<Longrightarrow> packed a \<Longrightarrow>
   RemoveLast \<notin> set ops \<Longrightarrow> run_ops ops (h, a) = Inr (h', a') \<Longrightarrow>
   wf_array h' a' \<and> heap_ok h' \<and> spare_fresh h' a' \<and> packed a'"
proof (induction ops "(h, a)" arbitrary: h a rule: run_ops.induct)
  case 1
  then show ?case by simp
next
  case (2 v ops h a)
  from "2.prems"(6) obtain h1 a1 where pb: "push_back v h a = Inr (h1, a1)"
    and rest: "run_ops ops (h1, a1) = Inr (h', a')"
    by (auto split: sum.splits)
  from "2.prems" have no: "RemoveLast \<notin> set ops" by simp
  show ?case
    using "2.hyps"[OF pb push_back_wf[OF "2.prems"(1,2) pb]
        push_back_heap_ok[OF "2.prems"(1,2) pb]
        push_back_spare[OF "2.prems"(1,2,3) pb]
        push_back_packed[OF "2.prems"(1,2,4) pb] no rest] .
next
  case (3 ops h a)
  then show ?case by simp
qed

text \<open>
  Claim C3, as amended.  Let the block size be \<open>bs > 0\<close>.  In every state reached from
  a new container by appends and removals, the first step of \<^verbatim>\<open>push_back\<close>, before
  the element is written, allocates exactly one block (or fails with
  \<open>UnavailableMemory\<close> when the allocator refuses it) when no allocated slot is free,
  \<open>element_count = length data * block_size\<close>, and allocates no block otherwise.  In a
  state reached by appends alone no slot is free exactly when the size is a multiple of
  the block size; there \<^verbatim>\<open>push_back\<close> fails only with \<open>UnavailableMemory\<close>, only when
  the block is refused, and otherwise the new element is at index \<open>element_count\<close> and
  every element stored before keeps its address and its value.  After a removal a
  block is still held, and nothing more is stated about the append that follows.
\<close>

theorem push_back_allocation:
  assumes "0 < bs" and "heap_ok h0" and "run_ops ops (h0, Array_new bs) = Inr (h, a)"
  shows "reserve h a =
           (if element_count a = length (data a) * block_size a
            then (if avail h = 0 then Inl UnavailableMemory
                  else Inr (h\<lparr>blk := (blk h)(brk h \<mapsto> replicate (block_size a) None),
                              brk := Suc (brk h), avail := avail h - 1\<rparr>,
                            a\<lparr>data := data a @ [brk h]\<rparr>))
            else Inr (h, a)) \<and>
         (RemoveLast \<notin> set ops \<longrightarrow>
            (element_count a = length (data a) * block_size a \<longleftrightarrow>
               element_count a mod block_size a = 0) \<and>
            (if element_count a mod block_size a = 0 \<and> avail h = 0
             then push_back v h a = Inl UnavailableMemory
             else (\<exists>h' a'. push_back v h a = Inr (h', a') \<and>
                    (data a', brk h') =
                      (if element_count a mod block_size a = 0
                       then (data a @ [brk h], Suc (brk h)) else (data a, brk h)) \<and>
                    element_count a' = Suc (element_count a) \<and>
                    load h' (slot a' (element_count a)) = Some v \<and>
                    (\<forall>i < element_count a.
                       slot a' i = slot a i \<and> load h' (slot a i) = load h (slot a i)))))"
proof (intro conjI impI)
  from run_ops_wf[OF Array_new_wf[OF assms(1)] assms(2,3)]
  have wf: "wf_array h a" and ok: "heap_ok h" by simp_all
  show "reserve h a =
           (if element_count a = length (data a) * block_size a
            then (if avail h = 0 then Inl UnavailableMemory
                  else Inr (h\<lparr>blk := (blk h)(brk h \<mapsto> replicate (block_size a) None),
                              brk := Suc (brk h), avail := avail h - 1\<rparr>,
                            a\<lparr>data := data a @ [brk h]\<rparr>))
            else Inr (h, a))"
    using wf by (rule reserve_eq)
  assume no: "RemoveLast \<notin> set ops"
  have "spare_fresh h0 (Array_new bs)" "packed (Array_new bs)"
    using assms(1) by (simp_all add: spare_fresh_def packed_def Array_new_def)
  from appends_inv[OF Array_new_wf[OF assms(1)] assms(2) this no assms(3)]
  have sp: "spare_fresh h a" and pk: "packed a" by simp_all
  from wf have le: "element_count a \<le> length (data a) * block_size a"
    by (simp add: wf_array_def)
  show pf: "element_count a = length (data a) * block_size a \<longleftrightarrow>
      element_count a mod block_size a = 0"
    using wf pk by (rule packed_full)
  have full: "free_space_count a = 0 \<longleftrightarrow> element_count a mod block_size a = 0"
  proof -
    have "free_space_count a = 0 \<longleftrightarrow> element_count a = length (data a) * block_size a"
      using le unfolding free_space_count_wf[OF wf] by arith
    then show ?thesis by (simp only: pf)
  qed
  show "if element_count a mod block_size a = 0 \<and> avail h = 0
        then push_back v h a = Inl UnavailableMemory
        else (\<exists>h' a'. push_back v h a = Inr (h', a') \<and>
               (data a', brk h') =
                 (if element_count a mod block_size a = 0
                  then (data a @ [brk h], Suc (brk h)) else (data a, brk h)) \<and>
               element_count a' = Suc (element_count a) \<and>
               load h' (slot a' (element_count a)) = Some v \<and>
               (\<forall>i < element_count a.
                  slot a' i = slot a i \<and> load h' (slot a i) = load h (slot a i)))"
  proof (cases "element_count a mod block_size a = 0 \<and> avail h = 0")
    case True
    with full have "free_space_count a = 0 \<and> avail h = 0" by simp
    with push_back_result(1)[OF wf ok sp, of v] obtain e where e: "push_back v h a = Inl e"
      by blast
    with push_back_result(2)[OF wf ok sp e] have "push_back v h a = Inl UnavailableMemory"
      by simp
    then show ?thesis unfolding if_P[OF True] .
  next
    case False
    with full have "\<not> (free_space_count a = 0 \<and> avail h = 0)" by simp
    with push_back_result(1)[OF wf ok sp, of v]
    obtain h' a' where pb: "push_back v h a = Inr (h', a')"
      by (cases "push_back v h a") auto
    note d = push_back_data[OF wf ok pb]
    have dd: "(data a', brk h') =
        (if element_count a mod block_size a = 0
         then (data a @ [brk h], Suc (brk h)) else (data a, brk h))"
      using d(1,2) full by simp
    have old: "\<forall>i < element_count a.
        slot a' i = slot a i \<and> load h' (slot a i) = load h (slot a i)"
      using push_back_slot[OF wf ok pb] push_back_old[OF wf ok pb] by simp
    have "push_back v h a = Inr (h', a') \<and>
               (data a', brk h') =
                 (if element_count a mod block_size a = 0
                  then (data a @ [brk h], Suc (brk h)) else (data a, brk h)) \<and>
               element_count a' = Suc (element_count a) \<and>
               load h' (slot a' (element_count a)) = Some v \<and>
               (\<forall>i < element_count a.
                  slot a' i = slot a i \<and> load h' (slot a i) = load h (slot a i))"
      by (intro conjI pb dd d(3) push_back_new[OF wf ok pb] old)
    then show ?thesis
      unfolding if_not_P[OF False] by (intro exI)
  qed
qed

text \<open>
  The claim as written fails after a removal: with block size 2, three appends and one
  removal leave two elements in two blocks; the size is a multiple of the block size,
  and the first step of the next append allocates nothing.  (What follows is the
  assignment to the slot of the removed element.)
\<close>

theorem push_back_allocation_counterexample:
  "case run_ops [Append (1::nat), Append 2, Append 3, RemoveLast] (empty_heap 5, Array_new 2) of
     Inl e \<Rightarrow> False
   | Inr (h, a) \<Rightarrow>
       element_count a = 2 \<and> element_count a mod block_size a = 0 \<and> length (data a) = 2 \<and>
       brk h = 2 \<and> reserve h a = Inr (h, a) \<and> push_back 4 h a = Inl UndefinedBehaviour"
  by (simp add: push_back_def pop_back_def add_block_def free_space_count_def slot_ok_def
      slot_def store_def destroy_def reserve_def empty_heap_def Array_new_def Let_def)

theorem push_back_allocation_witness:
  "0 < (2::nat) \<and> heap_ok (empty_heap 5 :: nat heap) \<and>
   run_ops [Append (1::nat), Append 2] (empty_heap 5, Array_new 2) =
     Inr (\<lparr>blk = (\<lambda>_. None)(0 \<mapsto> [Some 1, Some 2]), brk = 1, avail = 4, destroyed = {}\<rparr>,
          \<lparr>data = [0], block_size = 2, element_count = 2\<rparr>) \<and>
   RemoveLast \<notin> set [Append (1::nat), Append 2] \<and>
   reserve \<lparr>blk = (\<lambda>_. None)(0 \<mapsto> [Some (1::nat), Some 2]), brk = 1, avail = 4, destroyed = {}\<rparr>
          \<lparr>data = [0], block_size = 2, element_count = 2\<rparr> =
     Inr (\<lparr>blk = (\<lambda>_. None)(0 \<mapsto> [Some 1, Some 2], 1 \<mapsto> [None, None]), brk = 2, avail = 3,
            destroyed = {}\<rparr>,
          \<lparr>data = [0, 1], block_size = 2, element_count = 2\<rparr>) \<and>
   push_back 3 \<lparr>blk = (\<lambda>_. None)(0 \<mapsto> [Some (1::nat), Some 2]), brk = 1, avail = 4, destroyed = {}\<rparr>
          \<lparr>data = [0], block_size = 2, element_count = 2\<rparr> =
     Inr (\<lparr>blk = (\<lambda>_. None)(0 \<mapsto> [Some 1, Some 2], 1 \<mapsto> [Some 3, None]), brk = 2, avail = 3,
            destroyed = {}\<rparr>,
          \<lparr>data = [0, 1], block_size = 2, element_count = 3\<rparr>)"
proof -
  have r: "run_ops [Append (1::nat), Append 2] (empty_heap 5, Array_new 2) =
     Inr (\<lparr>blk = (\<lambda>_. None)(0 \<mapsto> [Some 1, Some 2]), brk = 1, avail = 4, destroyed = {}\<rparr>,
          \<lparr>data = [0], block_size = 2, element_count = 2\<rparr>)"
    by (simp add: push_back_def add_block_def free_space_count_fits slot_ok_def
      slot_def store_def empty_heap_def Array_new_def Let_def eval_nat_numeral)
  have ok: "heap_ok (empty_heap 5 :: nat heap)" by (simp add: heap_ok_def empty_heap_def)
  have p: "0 < (2::nat)" by simp
  from push_back_allocation[OF p ok r, of 3] show ?thesis
    using r ok
    by (simp add: push_back_def reserve_def add_block_def free_space_count_fits slot_ok_def
      slot_def store_def Let_def eval_nat_numeral)
qed
section \<open>Adding nodes and edges keeps a graph well formed\<close>

lemma push_rows_eq:
  "push_rows k m =
     (if length m \<le> k then (True, k - length m, map (\<lambda>r. r @ [None]) m)
      else (False, 0, map (\<lambda>r. r @ [None]) (take k m) @ drop k m))"
proof (induction m arbitrary: k)
  case Nil
  then show ?case by simp
next
  case (Cons r rs)
  show ?case
  proof (cases k)
    case 0
    then show ?thesis by simp
  next
    case (Suc k')
    then show ?thesis by (simp add: Cons.IH)
  qed
qed

lemma resize_id: "length xs = n \<Longrightarrow> resize n d xs = xs"
  by (simp add: resize_def)

lemma resize_snoc: "length xs = n \<Longrightarrow> resize n d (xs @ [x]) = xs"
  by (simp add: resize_def)

lemma grow_rollback:
  assumes "\<forall>r \<in> set m. length r = n"
  shows "map (resize n None) (map (\<lambda>r. r @ [None]) (take k m) @ drop k m) = m"
proof -
  have "map (resize n None) (map (\<lambda>r. r @ [None]) (take k m)) = take k m"
    unfolding map_map using assms
    by (intro map_idI) (auto simp: resize_snoc dest: in_set_takeD)
  moreover have "map (resize n None) (drop k m) = drop k m"
    using assms by (intro map_idI) (auto simp: resize_id dest: in_set_dropD)
  ultimately show ?thesis by simp
qed

lemma grow_adjacency_matrix_eq:
  assumes "\<forall>r \<in> set (adjacency_matrix g). length r = length (adjacency_matrix g)"
  shows "grow_adjacency_matrix w g =
     (if length (adjacency_matrix g) < row_avail w
      then (Inr (), w\<lparr>row_avail := row_avail w - length (adjacency_matrix g) - 1\<rparr>,
            g\<lparr>adjacency_matrix := map (\<lambda>r. r @ [None]) (adjacency_matrix g)
                 @ [replicate (length (adjacency_matrix g) + 1) None]\<rparr>)
      else (Inl UnavailableMemory, w\<lparr>row_avail := 0\<rparr>, g))"
proof -
  let ?m = "adjacency_matrix g"
  from assms have rows: "\<forall>r \<in> set ?m. length r = length ?m" .
  have undo: "resize (length ?m) [] (map (resize (length ?m) None)
      (map (\<lambda>r. r @ [None]) (take k ?m) @ drop k ?m)) = ?m" for k
  proof -
    have "length (map (resize (length ?m) None)
      (map (\<lambda>r. r @ [None]) (take k ?m) @ drop k ?m)) = length ?m" by simp
    then show ?thesis
      unfolding grow_rollback[OF rows] by (simp only: resize_id)
  qed
  have undo2: "resize (length ?m) [] (map (resize (length ?m) None)
      (map (\<lambda>r. r @ [None]) ?m)) = ?m"
    using undo[of "length ?m"] by simp
  show ?thesis
  proof (cases "length ?m < row_avail w")
    case True
    then show ?thesis
      by (simp add: grow_adjacency_matrix_def push_rows_eq Let_def)
  next
    case False
    show ?thesis
    proof (cases "length ?m = row_avail w")
      case True
      then have "push_rows (row_avail w) ?m = (True, 0, map (\<lambda>r. r @ [None]) ?m)"
        by (simp add: push_rows_eq)
      then have "grow_adjacency_matrix w g =
         (Inl UnavailableMemory, w\<lparr>row_avail := 0\<rparr>, g\<lparr>adjacency_matrix := ?m\<rparr>)"
        by (simp add: grow_adjacency_matrix_def Let_def undo2 del: map_map map_append)
      with True show ?thesis by simp
    next
      case ne: False
      with False have "push_rows (row_avail w) ?m =
          (False, 0, map (\<lambda>r. r @ [None]) (take (row_avail w) ?m) @ drop (row_avail w) ?m)"
        by (simp add: push_rows_eq)
      then have "grow_adjacency_matrix w g =
         (Inl UnavailableMemory, w\<lparr>row_avail := 0\<rparr>, g\<lparr>adjacency_matrix := ?m\<rparr>)"
        by (simp add: grow_adjacency_matrix_def Let_def undo del: map_map map_append)
      with False show ?thesis by simp
    qed
  qed
qed

lemma Nodes_add_invalid:
  "ident > Nodes_size g \<Longrightarrow> Nodes_add ident d w g = (Inl InvalidIdentifier, w, g)"
  "ident < Nodes_size g \<Longrightarrow> Nodes_add ident d w g = (Inl ConflictingItem, w, g)"
  by (simp_all add: Nodes_add_def Nodes_size_def Let_def)

lemma Nodes_add_cases:
  assumes so: "stores_ok w g" and mo: "matrix_ok g"
  obtains
    (nomem) "free_space_count (nodes g) = 0" "avail (node_heap w) = 0"
      "Nodes_add (Nodes_size g) d w g = (Inl UnavailableMemory, w, g)"
  | (dead) "free_space_count (nodes g) \<noteq> 0"
      "slot (nodes g) (Nodes_size g) \<in> destroyed (node_heap w)"
      "Nodes_add (Nodes_size g) d w g = (Inl UndefinedBehaviour, w, g)"
  | (norows) h1 a1 h3 a3 where
      "push_back \<lparr>node_id = Nodes_size g, node_data = d\<rparr> (node_heap w) (nodes g) = Inr (h1, a1)"
      "row_avail w \<le> Nodes_size g"
      "pop_back h1 a1 = Inr (h3, a3)"
      "Nodes_add (Nodes_size g) d w g =
         (Inl UnavailableMemory, w\<lparr>node_heap := h3, row_avail := 0\<rparr>, g\<lparr>nodes := a3\<rparr>)"
  | (ok) h1 a1 where
      "push_back \<lparr>node_id = Nodes_size g, node_data = d\<rparr> (node_heap w) (nodes g) = Inr (h1, a1)"
      "Nodes_size g < row_avail w"
      "Nodes_add (Nodes_size g) d w g =
         (Inr (slot a1 (Nodes_size g)),
          w\<lparr>node_heap := h1, row_avail := row_avail w - Nodes_size g - 1\<rparr>,
          g\<lparr>nodes := a1,
            adjacency_matrix := map (\<lambda>r. r @ [None]) (adjacency_matrix g)
                 @ [replicate (Nodes_size g + 1) None]\<rparr>)"
proof -
  let ?v = "\<lparr>node_id = Nodes_size g, node_data = d\<rparr>"
  from so have wf: "wf_array (node_heap w) (nodes g)" and hk: "heap_ok (node_heap w)"
    by (simp_all add: stores_ok_def)
  from mo have len: "length (adjacency_matrix g) = Nodes_size g"
    and sq: "\<forall>r \<in> set (adjacency_matrix g). length r = length (adjacency_matrix g)"
    by (simp_all add: matrix_ok_def)
  show thesis
  proof (cases "push_back ?v (node_heap w) (nodes g)")
    case (Inl e)
    from push_back_Inl[OF wf hk Inl] show ?thesis
    proof (elim disjE conjE)
      assume f: "free_space_count (nodes g) = 0" "avail (node_heap w) = 0"
        and e: "e = UnavailableMemory"
      from Inl e
      have "Nodes_add (Nodes_size g) d w g = (Inl UnavailableMemory, w, g)"
        by (simp add: Nodes_add_def Nodes_size_def Let_def caught_def)
      with f show ?thesis by (rule nomem)
    next
      assume f: "free_space_count (nodes g) \<noteq> 0"
        "slot (nodes g) (element_count (nodes g)) \<in> destroyed (node_heap w)"
        and e: "e = UndefinedBehaviour"
      from Inl e
      have "Nodes_add (Nodes_size g) d w g = (Inl UndefinedBehaviour, w, g)"
        by (simp add: Nodes_add_def Nodes_size_def Let_def caught_def)
      with f show ?thesis by (intro dead) (simp_all add: Nodes_size_def size_of_def)
    qed
  next
    case (Inr s1)
    then obtain h1 a1 where pb: "push_back ?v (node_heap w) (nodes g) = Inr (h1, a1)"
      by (cases s1) auto
    note d = push_back_data[OF wf hk pb]
    have wf1: "wf_array h1 a1" using wf hk pb by (rule push_back_wf)
    let ?g1 = "g\<lparr>nodes := a1\<rparr>" and ?w1 = "w\<lparr>node_heap := h1\<rparr>"
    have sq1: "\<forall>r \<in> set (adjacency_matrix ?g1). length r = length (adjacency_matrix ?g1)"
      using sq by simp
    note gr = grow_adjacency_matrix_eq[OF sq1, of ?w1]
    show ?thesis
    proof (cases "Nodes_size g < row_avail w")
      case True
      have "get_elem a1 (size_of a1 - 1) = Inr (slot a1 (Nodes_size g))"
        using d by (simp add: get_elem_def size_of_def Nodes_size_def)
      then have "Nodes_add (Nodes_size g) d w g =
         (Inr (slot a1 (Nodes_size g)),
          w\<lparr>node_heap := h1, row_avail := row_avail w - Nodes_size g - 1\<rparr>,
          g\<lparr>nodes := a1,
            adjacency_matrix := map (\<lambda>r. r @ [None]) (adjacency_matrix g)
                 @ [replicate (Nodes_size g + 1) None]\<rparr>)"
        using True pb gr len
        by (simp add: Nodes_add_def Let_def Nodes_size_def)
      with pb True show ?thesis by (rule ok)
    next
      case False
      from push_back_destroyed[OF wf hk pb] d
      have "slot a1 (element_count a1 - 1) \<notin> destroyed h1" by simp
      with wf1 d have "pop_back h1 a1 =
         Inr (destroy h1 (slot a1 (element_count a1 - 1)),
              a1\<lparr>element_count := element_count a1 - 1\<rparr>)"
        by (simp add: pop_back_eq)
      then obtain h3 a3 where pp: "pop_back h1 a1 = Inr (h3, a3)" by blast
      have "Nodes_add (Nodes_size g) d w g =
         (Inl UnavailableMemory, w\<lparr>node_heap := h3, row_avail := 0\<rparr>, g\<lparr>nodes := a3\<rparr>)"
        using False pb gr len pp d
        by (simp add: Nodes_add_def Let_def Nodes_size_def size_of_def caught_def)
      with pb False pp show ?thesis by (intro norows) auto
    qed
  qed
qed

lemma wf_graph_extend_nodes:
  assumes wf: "wf_graph w g"
    and so: "stores_ok w' g'" and mo: "matrix_ok g'" and dense: "nodes_dense w' g'"
    and eq: "edges g' = edges g" "edge_heap w' = edge_heap w" "is_undirected g' = is_undirected g"
    and le: "Nodes_size g \<le> Nodes_size g'"
    and old: "\<And>i. i < Nodes_size g \<Longrightarrow> slot (nodes g') i = slot (nodes g) i"
    and cells: "\<And>s t. s < Nodes_size g' \<Longrightarrow> t < Nodes_size g' \<Longrightarrow>
        adjacency_matrix g' ! s ! t =
          (if s < Nodes_size g \<and> t < Nodes_size g then adjacency_matrix g ! s ! t else None)"
  shows "wf_graph w' g'"
proof -
  have es: "Edges_size g' = Edges_size g" by (simp add: Edges_size_def eq)
  have ea: "edge_at w' g' j = edge_at w g j" for j by (simp add: edge_at_def eq)
  have "edge_ok w' g' j" if "j < Edges_size g" for j
  proof -
    from wf that have "edge_ok w g j" by (simp add: wf_graph_def)
    then obtain e s t where e: "edge_at w g j = Some e" "edge_id e = j"
      "s < Nodes_size g" "t < Nodes_size g"
      "edge_source e = slot (nodes g) s" "edge_target e = slot (nodes g) t"
      "adjacency_matrix g ! s ! t = Some (slot (edges g) j)"
      "is_undirected g \<longrightarrow> adjacency_matrix g ! t ! s = Some (slot (edges g) j)"
      unfolding edge_ok_def by blast
    from e(3,4) le have lt: "s < Nodes_size g'" "t < Nodes_size g'" by simp_all
    show ?thesis
      unfolding edge_ok_def
      apply (rule exI[of _ e], rule exI[of _ s], rule exI[of _ t])
      using e lt old[OF e(3)] old[OF e(4)] cells[OF lt] cells[OF lt(2) lt(1)]
      by (simp add: ea eq)
  qed
  moreover have "cell_ok w' g' s t" if "s < Nodes_size g'" "t < Nodes_size g'" for s t
  proof (cases "s < Nodes_size g \<and> t < Nodes_size g")
    case True
    with wf have "cell_ok w g s t" by (simp add: wf_graph_def)
    then show ?thesis
      unfolding cell_ok_def using True cells[OF that] old by (simp add: ea eq es)
  next
    case False
    then show ?thesis unfolding cell_ok_def using cells[OF that] by auto
  qed
  moreover have "spare_fresh (edge_heap w') (edges g')"
    using wf by (simp add: wf_graph_def eq)
  ultimately show ?thesis
    unfolding wf_graph_def using so mo dense by (simp add: es)
qed

lemma slot_cong: "data a = data b \<Longrightarrow> block_size a = block_size b \<Longrightarrow> slot a i = slot b i"
  by (simp add: slot_def)

lemma Nodes_add_wf:
  assumes wf: "wf_graph w g" and r: "Nodes_add ident d w g = (r, w', g')"
  shows "wf_graph w' g'"
proof -
  from wf have so: "stores_ok w g" and mo: "matrix_ok g" and nd: "nodes_dense w g"
    by (simp_all add: wf_graph_def)
  from so have awf: "wf_array (node_heap w) (nodes g)" and hk: "heap_ok (node_heap w)"
    and ewf: "wf_array (edge_heap w) (edges g)" and ehk: "heap_ok (edge_heap w)"
    by (simp_all add: stores_ok_def)
  from mo have len: "length (adjacency_matrix g) = Nodes_size g"
    and rows: "\<And>r. r \<in> set (adjacency_matrix g) \<Longrightarrow> length r = Nodes_size g"
    by (simp_all add: matrix_ok_def)
  consider "ident > Nodes_size g" | "ident < Nodes_size g" | "ident = Nodes_size g"
    by linarith
  then show ?thesis
  proof cases
    case 1 with r wf show ?thesis by (simp add: Nodes_add_invalid)
  next
    case 2 with r wf show ?thesis by (simp add: Nodes_add_invalid)
  next
    case 3
    from so mo show ?thesis
    proof (cases rule: Nodes_add_cases[where d = d])
      case nomem
      with r[unfolded 3] wf show ?thesis by simp
    next
      case dead
      with r[unfolded 3] wf show ?thesis by simp
    next
      case (norows h1 a1 h3 a3)
      from r[unfolded 3 norows(4)] have w': "w' = w\<lparr>node_heap := h3, row_avail := 0\<rparr>"
        and g': "g' = g\<lparr>nodes := a3\<rparr>" by simp_all
      have wf1: "wf_array h1 a1" and hk1: "heap_ok h1"
        using push_back_wf[OF awf hk norows(1)] push_back_heap_ok[OF awf hk norows(1)] by simp_all
      note d1 = push_back_data[OF awf hk norows(1)]
      note d3 = pop_back_data[OF wf1 norows(3)]
      have wf3: "wf_array h3 a3" and hk3: "heap_ok h3"
        using pop_back_wf[OF wf1 norows(3)] pop_back_heap_ok[OF wf1 hk1 norows(3)] by simp_all
      have sz: "Nodes_size g' = Nodes_size g"
        using d1 d3 by (simp add: g' Nodes_size_def size_of_def)
      have sl: "slot (nodes g') i = slot (nodes g) i" if "i < Nodes_size g" for i
      proof -
        have "slot a3 i = slot a1 i" using d3 by (simp add: slot_def)
        also have "\<dots> = slot (nodes g) i"
          using push_back_slot[OF awf hk norows(1)] that by (simp add: Nodes_size_def size_of_def)
        finally show ?thesis by (simp add: g')
      qed
      have na: "node_at w' g' i = node_at w g i" if "i < Nodes_size g" for i
      proof -
        have "load h3 (slot a3 i) = load h1 (slot a1 i)"
          using pop_back_old[OF wf1 norows(3)] that d1
          by (simp add: Nodes_size_def size_of_def)
        also have "\<dots> = load (node_heap w) (slot (nodes g) i)"
          using push_back_old[OF awf hk norows(1)] that by (simp add: Nodes_size_def size_of_def)
        finally show ?thesis by (simp add: node_at_def w' g')
      qed
      show ?thesis
      proof (rule wf_graph_extend_nodes[OF wf])
        show "stores_ok w' g'" using wf3 hk3 ewf ehk by (simp add: stores_ok_def w' g')
        show "matrix_ok g'" using mo sz by (simp add: matrix_ok_def g')
        show "nodes_dense w' g'" using nd na sz by (simp add: nodes_dense_def)
        show "Nodes_size g \<le> Nodes_size g'" using sz by simp
        show "adjacency_matrix g' ! s ! t =
          (if s < Nodes_size g \<and> t < Nodes_size g then adjacency_matrix g ! s ! t else None)"
          if "s < Nodes_size g'" "t < Nodes_size g'" for s t
          using that sz by (simp add: g')
      qed (use sl in \<open>simp_all add: w' g'\<close>)
    next
      case (ok h1 a1)
      from r[unfolded 3 ok(3)] have w': "w' = w\<lparr>node_heap := h1, row_avail := row_avail w - Nodes_size g - 1\<rparr>"
        and g': "g' = g\<lparr>nodes := a1,
            adjacency_matrix := map (\<lambda>r. r @ [None]) (adjacency_matrix g)
                 @ [replicate (Nodes_size g + 1) None]\<rparr>" by simp_all
      have wf1: "wf_array h1 a1" and hk1: "heap_ok h1"
        using push_back_wf[OF awf hk ok(1)] push_back_heap_ok[OF awf hk ok(1)] by simp_all
      note d1 = push_back_data[OF awf hk ok(1)]
      have sz: "Nodes_size g' = Suc (Nodes_size g)"
        using d1 by (simp add: g' Nodes_size_def size_of_def)
      have sl: "slot (nodes g') i = slot (nodes g) i" if "i < Nodes_size g" for i
        using push_back_slot[OF awf hk ok(1)] that by (simp add: g' Nodes_size_def size_of_def)
      have na: "node_at w' g' i = node_at w g i" if "i < Nodes_size g" for i
        using push_back_old[OF awf hk ok(1)] that
        by (simp add: node_at_def w' g' Nodes_size_def size_of_def)
      have nn: "node_at w' g' (Nodes_size g) = Some \<lparr>node_id = Nodes_size g, node_data = d\<rparr>"
        using push_back_new[OF awf hk ok(1)]
        by (simp add: node_at_def w' g' Nodes_size_def size_of_def)
      show ?thesis
      proof (rule wf_graph_extend_nodes[OF wf])
        show "stores_ok w' g'" using wf1 hk1 ewf ehk by (simp add: stores_ok_def w' g')
        show "matrix_ok g'" using len rows sz by (auto simp: matrix_ok_def g')
        show "nodes_dense w' g'"
          unfolding nodes_dense_def sz using nd na nn by (auto simp: nodes_dense_def less_Suc_eq)
        show "Nodes_size g \<le> Nodes_size g'" using sz by simp
        show "adjacency_matrix g' ! s ! t =
          (if s < Nodes_size g \<and> t < Nodes_size g then adjacency_matrix g ! s ! t else None)"
          if "s < Nodes_size g'" "t < Nodes_size g'" for s t
        proof (cases "s < Nodes_size g")
          case True
          then have "length (adjacency_matrix g ! s) = Nodes_size g"
            using rows len by simp
          with True that sz len show ?thesis
            by (auto simp: g' nth_append less_Suc_eq)
        next
          case False
          with that sz have "s = Nodes_size g" by simp
          moreover have "replicate (Suc (Nodes_size g)) (None :: ptr option) ! t = None"
            using that sz by (intro nth_replicate) simp
          ultimately show ?thesis using len by (simp add: g' nth_append del: replicate.simps)
        qed
      qed (use sl in \<open>simp_all add: w' g'\<close>)
    qed
  qed
qed

lemma wf_array_slot_inj:
  assumes "wf_array h a" "i < element_count a" "j < element_count a" "slot a i = slot a j"
  shows "i = j"
proof -
  from assms(1) have bs: "0 < block_size a" and di: "distinct (data a)"
    and le: "element_count a \<le> length (data a) * block_size a"
    by (simp_all add: wf_array_def)
  from le assms(2,3) have lt: "i < length (data a) * block_size a"
    "j < length (data a) * block_size a" by simp_all
  show ?thesis by (rule slot_inj[OF bs di lt assms(4)])
qed

lemma node_slot_inj:
  assumes "stores_ok w g" "i < Nodes_size g" "j < Nodes_size g"
    "slot (nodes g) i = slot (nodes g) j"
  shows "i = j"
  using assms wf_array_slot_inj[of "node_heap w" "nodes g" i j]
  by (simp add: stores_ok_def Nodes_size_def size_of_def)

lemma edge_slot_inj:
  assumes "stores_ok w g" "i < Edges_size g" "j < Edges_size g"
    "slot (edges g) i = slot (edges g) j"
  shows "i = j"
  using assms wf_array_slot_inj[of "edge_heap w" "edges g" i j]
  by (simp add: stores_ok_def Edges_size_def size_of_def)

lemma matrix_ok_row:
  "matrix_ok g \<Longrightarrow> s < Nodes_size g \<Longrightarrow> length (adjacency_matrix g ! s) = Nodes_size g"
  by (simp add: matrix_ok_def)

lemma matrix_at_ok:
  "matrix_ok g \<Longrightarrow> s < Nodes_size g \<Longrightarrow> t < Nodes_size g \<Longrightarrow>
   matrix_at (adjacency_matrix g) s t = Inr (adjacency_matrix g ! s ! t)"
  by (simp add: matrix_at_def matrix_ok_def)

text \<open>An occupied cell names an edge whose own cell it is.\<close>

lemma cell_edge:
  assumes wf: "wf_graph w g" and st: "s < Nodes_size g" "t < Nodes_size g"
    and c: "adjacency_matrix g ! s ! t = Some p"
  obtains j e where "j < Edges_size g" "p = slot (edges g) j" "edge_at w g j = Some e"
    "edge_source e = slot (nodes g) s \<and> edge_target e = slot (nodes g) t \<or>
     is_undirected g \<and> edge_source e = slot (nodes g) t \<and> edge_target e = slot (nodes g) s"
proof -
  from wf st have "cell_ok w g s t" by (simp add: wf_graph_def)
  with c show thesis unfolding cell_ok_def using that by blast
qed

lemma edge_cell:
  assumes wf: "wf_graph w g" and j: "j < Edges_size g"
  obtains e s t where "edge_at w g j = Some e" "edge_id e = j"
    "s < Nodes_size g" "t < Nodes_size g"
    "edge_source e = slot (nodes g) s" "edge_target e = slot (nodes g) t"
    "adjacency_matrix g ! s ! t = Some (slot (edges g) j)"
    "is_undirected g \<longrightarrow> adjacency_matrix g ! t ! s = Some (slot (edges g) j)"
proof -
  from wf j have "edge_ok w g j" by (simp add: wf_graph_def)
  then show thesis unfolding edge_ok_def using that by blast
qed

lemma undirected_symmetric:
  assumes wf: "wf_graph w g" and u: "is_undirected g"
    and st: "s < Nodes_size g" "t < Nodes_size g"
  shows "adjacency_matrix g ! t ! s = adjacency_matrix g ! s ! t"
proof -
  have so: "stores_ok w g" using wf by (simp add: wf_graph_def)
  have half: "adjacency_matrix g ! b ! a = Some p"
    if ab: "a < Nodes_size g" "b < Nodes_size g" and c: "adjacency_matrix g ! a ! b = Some p"
    for a b p
  proof -
    from cell_edge[OF wf ab c] obtain j e where j: "j < Edges_size g" "p = slot (edges g) j"
      "edge_at w g j = Some e"
      and cs: "edge_source e = slot (nodes g) a \<and> edge_target e = slot (nodes g) b \<or>
       is_undirected g \<and> edge_source e = slot (nodes g) b \<and> edge_target e = slot (nodes g) a"
      by blast
    from edge_cell[OF wf j(1)] obtain e' s' t' where e': "edge_at w g j = Some e'"
      "s' < Nodes_size g" "t' < Nodes_size g"
      "edge_source e' = slot (nodes g) s'" "edge_target e' = slot (nodes g) t'"
      "adjacency_matrix g ! s' ! t' = Some (slot (edges g) j)"
      "is_undirected g \<longrightarrow> adjacency_matrix g ! t' ! s' = Some (slot (edges g) j)"
      by blast
    from e'(1) j(3) have ee: "e' = e" by simp
    from cs show ?thesis
    proof
      assume "edge_source e = slot (nodes g) a \<and> edge_target e = slot (nodes g) b"
      with e'(4,5) ee have "slot (nodes g) s' = slot (nodes g) a" "slot (nodes g) t' = slot (nodes g) b"
        by simp_all
      with node_slot_inj[OF so e'(2) ab(1)] node_slot_inj[OF so e'(3) ab(2)]
      have "s' = a" "t' = b" by simp_all
      with e'(7) u j(2) show ?thesis by simp
    next
      assume "is_undirected g \<and> edge_source e = slot (nodes g) b \<and> edge_target e = slot (nodes g) a"
      with e'(4,5) ee have "slot (nodes g) s' = slot (nodes g) b" "slot (nodes g) t' = slot (nodes g) a"
        by simp_all
      with node_slot_inj[OF so e'(2) ab(2)] node_slot_inj[OF so e'(3) ab(1)]
      have "s' = b" "t' = a" by simp_all
      with e'(6) j(2) show ?thesis by simp
    qed
  qed
  show ?thesis
  proof (cases "adjacency_matrix g ! s ! t")
    case None
    show ?thesis
    proof (cases "adjacency_matrix g ! t ! s")
      case n: None with None show ?thesis by simp
    next
      case (Some p)
      from half[OF st(2,1) Some] None show ?thesis by simp
    qed
  next
    case (Some p)
    from half[OF st Some] Some show ?thesis by simp
  qed
qed

lemma Edges_add_invalid:
  "ident > Edges_size g \<Longrightarrow> Edges_add ident s t d w g = (Inl InvalidIdentifier, w, g)"
  "ident < Edges_size g \<Longrightarrow> Edges_add ident s t d w g = (Inl ConflictingItem, w, g)"
  "ident = Edges_size g \<Longrightarrow> s \<ge> Nodes_size g \<or> t \<ge> Nodes_size g \<Longrightarrow>
     Edges_add ident s t d w g = (Inl NonexistingItem, w, g)"
  by (auto simp: Edges_add_def Edges_size_def Let_def)

lemma Edges_add_occupied:
  assumes "matrix_ok g" "s < Nodes_size g" "t < Nodes_size g"
    "adjacency_matrix g ! s ! t = Some p"
  shows "Edges_add (Edges_size g) s t d w g = (Inl ConflictingItem, w, g)"
  using assms by (simp add: Edges_add_def Edges_size_def Let_def matrix_at_ok)

lemma nth_matrix_update:
  assumes "a < length m" "b < length (m ! a)"
  shows "m[s := (m ! s)[t := v]] ! a ! b = (if a = s \<and> b = t then v else m ! a ! b)"
  using assms by (cases "a = s") auto

lemma Nodes_get_ok: "s < Nodes_size g \<Longrightarrow> Nodes_get g s = Inr (slot (nodes g) s)"
  by (simp add: Nodes_get_def Nodes_exists_def get_elem_def Nodes_size_def size_of_def)

lemma added_cells_nth:
  fixes v :: "ptr option"
  assumes "length m = n" "\<forall>r \<in> set m. length r = n" "s < n" "t < n" "a < n" "b < n"
  shows "added_cells u m s t v ! a ! b =
     (if a = s \<and> b = t \<or> u \<and> a = t \<and> b = s then v else m ! a ! b)"
proof -
  let ?m1 = "m[s := (m ! s)[t := v]]"
  have l1: "length ?m1 = n" using assms by simp
  have r1: "length (?m1 ! x) = n" if "x < n" for x
    using assms that by (cases "x = s") auto
  have r0: "length (m ! x) = n" if "x < n" for x using assms that by simp
  have n1: "?m1 ! a ! b = (if a = s \<and> b = t then v else m ! a ! b)"
    by (rule nth_matrix_update) (use assms r0 in simp_all)
  show ?thesis
  proof (cases u)
    case False
    then show ?thesis using n1 by (simp add: added_cells_def)
  next
    case True
    have n2: "?m1[t := (?m1 ! t)[s := v]] ! a ! b = (if a = t \<and> b = s then v else ?m1 ! a ! b)"
      by (rule nth_matrix_update) (use assms l1 r1 in simp_all)
    have ac: "added_cells u m s t v = ?m1[t := (?m1 ! t)[s := v]]"
      using True by (simp add: added_cells_def Let_def)
    have c: "(if P then v else if Q then v else x) = (if Q \<or> P then v else x)"
      for P Q and x :: "ptr option" by simp
    from True
    have "(a = s \<and> b = t \<or> u \<and> a = t \<and> b = s) = (a = s \<and> b = t \<or> a = t \<and> b = s)"
      by blast
    then show ?thesis unfolding ac n2 n1 c
      by (rule arg_cong[where f = "\<lambda>c. if c then v else m ! a ! b", symmetric])
  qed
qed

lemma added_cells_shape:
  assumes "length m = n" "\<forall>r \<in> set m. length r = n"
  shows "length (added_cells u m s t v) = n" "\<forall>r \<in> set (added_cells u m s t v). length r = n"
proof -
  have a: "\<forall>r \<in> set (m'[x := (m' ! x)[y := v]]). length r = n"
    if "\<forall>r \<in> set m'. length r = n" for m' :: matrix and x y
  proof
    fix r assume "r \<in> set (m'[x := (m' ! x)[y := v]])"
    then have "r \<in> insert ((m' ! x)[y := v]) (set m')" using set_update_subset_insert by fast
    moreover have "x < length m' \<Longrightarrow> length (m' ! x) = n" using that by simp
    moreover have "\<not> x < length m' \<Longrightarrow> m'[x := (m' ! x)[y := v]] = m'"
      by (simp add: list_update_beyond)
    ultimately show "length r = n" using that \<open>r \<in> set (m'[x := (m' ! x)[y := v]])\<close>
      by (cases "x < length m'") auto
  qed
  show "length (added_cells u m s t v) = n" using assms by (simp add: added_cells_def Let_def)
  show "\<forall>r \<in> set (added_cells u m s t v). length r = n"
    using a[OF a[OF assms(2)]] a[OF assms(2)] by (simp add: added_cells_def Let_def)
qed

lemma added_cells_None:
  assumes "length m = n" "\<forall>r \<in> set m. length r = n" "s < n" "t < n"
    "m ! s ! t = None" "u \<longrightarrow> m ! t ! s = None"
  shows "added_cells u m s t None = m"
proof -
  have "m[s := (m ! s)[t := None]] = m"
    using assms by (metis list_update_id)
  moreover have "u \<Longrightarrow> m[t := (m ! t)[s := None]] = m"
    using assms by (metis list_update_id)
  ultimately show ?thesis by (simp add: added_cells_def Let_def)
qed

lemma Edges_add_cases:
  assumes wf: "wf_graph w g" and st: "s < Nodes_size g" "t < Nodes_size g"
    and free: "adjacency_matrix g ! s ! t = None"
  obtains
    (nomem) "free_space_count (edges g) = 0" "avail (edge_heap w) = 0"
      "Edges_add (Edges_size g) s t d w g = (Inl UnavailableMemory, w, g)"
  | (ok) h1 a1 where
      "push_back \<lparr>edge_id = Edges_size g, edge_source = slot (nodes g) s,
                  edge_target = slot (nodes g) t, edge_data = d\<rparr> (edge_heap w) (edges g)
         = Inr (h1, a1)"
      "Edges_add (Edges_size g) s t d w g =
         (Inr (slot a1 (Edges_size g)), w\<lparr>edge_heap := h1\<rparr>,
          g\<lparr>edges := a1,
            adjacency_matrix := added_cells (is_undirected g) (adjacency_matrix g) s t
                                  (Some (slot a1 (Edges_size g)))\<rparr>)"
proof -
  let ?v = "\<lparr>edge_id = Edges_size g, edge_source = slot (nodes g) s,
                  edge_target = slot (nodes g) t, edge_data = d\<rparr>"
  let ?m = "adjacency_matrix g"
  from wf have so: "stores_ok w g" and mo: "matrix_ok g"
    and sp: "spare_fresh (edge_heap w) (edges g)" by (simp_all add: wf_graph_def)
  from so have awf: "wf_array (edge_heap w) (edges g)" and hk: "heap_ok (edge_heap w)"
    by (simp_all add: stores_ok_def)
  from mo have len: "length ?m = Nodes_size g" and rows: "\<forall>r \<in> set ?m. length r = Nodes_size g"
    by (simp_all add: matrix_ok_def)
  have rl: "length (?m ! x) = Nodes_size g" if "x < Nodes_size g" for x
    using that mo by (rule matrix_ok_row[rotated])
  have sym: "is_undirected g \<longrightarrow> ?m ! t ! s = None"
    using undirected_symmetric[OF wf _ st] free by simp
  have pre: "Edges_add (Edges_size g) s t d w g =
      (case Edges_add_try (Edges_size g) s t d w g of
         (Inl e, w1, g1) \<Rightarrow> Edges_add_catch (size_of (edges g)) s t e w1 g1
       | (Inr p, w1, g1) \<Rightarrow> (Inr p, w1, g1))"
    using st free by (simp add: Edges_add_def Edges_size_def Let_def matrix_at_ok[OF mo st])
  show thesis
  proof (cases "push_back ?v (edge_heap w) (edges g)")
    case (Inl e)
    with push_back_result[OF awf hk sp, of ?v] have f: "free_space_count (edges g) = 0"
      "avail (edge_heap w) = 0" and e: "e = UnavailableMemory" by auto
    have tr: "Edges_add_try (Edges_size g) s t d w g = (Inl UnavailableMemory, w, g)"
      using Inl e st by (simp add: Edges_add_try_def Nodes_get_ok)
    have ms: "matrix_set ?m s t None = Inr (?m[s := (?m ! s)[t := None]])"
      using st len rl by (simp add: matrix_set_def)
    have m1: "?m[s := (?m ! s)[t := None]] = ?m" using free by (metis list_update_id)
    have ms2: "matrix_set ?m t s None = Inr (?m[t := (?m ! t)[s := None]])"
      using st len rl by (simp add: matrix_set_def)
    have m2: "is_undirected g \<Longrightarrow> ?m[t := (?m ! t)[s := None]] = ?m"
      using sym by (metis list_update_id)
    have "Edges_add_catch (size_of (edges g)) s t UnavailableMemory w g = (Inl UnavailableMemory, w, g)"
      by (simp add: Edges_add_catch_def Let_def ms m1 ms2 m2)
    with pre tr have "Edges_add (Edges_size g) s t d w g = (Inl UnavailableMemory, w, g)"
      by simp
    with f show ?thesis by (rule nomem)
  next
    case (Inr s1)
    then obtain h1 a1 where pb: "push_back ?v (edge_heap w) (edges g) = Inr (h1, a1)"
      by (cases s1) auto
    note d = push_back_data[OF awf hk pb]
    let ?p = "slot a1 (Edges_size g)"
    have ge: "get_elem a1 (size_of a1 - 1) = Inr ?p"
      using d by (simp add: get_elem_def size_of_def Edges_size_def)
    let ?m1 = "?m[s := (?m ! s)[t := Some ?p]]"
    have ms: "matrix_set ?m s t (Some ?p) = Inr ?m1"
      using st len rl by (simp add: matrix_set_def)
    have "length (?m1 ! t) = Nodes_size g"
      using st len rl by (cases "t = s") auto
    then have ms2: "matrix_set ?m1 t s (Some ?p) = Inr (?m1[t := (?m1 ! t)[s := Some ?p]])"
      using st len by (simp add: matrix_set_def)
    have tr: "Edges_add_try (Edges_size g) s t d w g =
        (Inr ?p, w\<lparr>edge_heap := h1\<rparr>,
          g\<lparr>edges := a1,
            adjacency_matrix := added_cells (is_undirected g) ?m s t (Some ?p)\<rparr>)"
      using pb st ge ms ms2
      by (simp add: Edges_add_try_def Nodes_get_ok Let_def added_cells_def)
    with pre have "Edges_add (Edges_size g) s t d w g =
        (Inr ?p, w\<lparr>edge_heap := h1\<rparr>,
          g\<lparr>edges := a1,
            adjacency_matrix := added_cells (is_undirected g) ?m s t (Some ?p)\<rparr>)"
      by simp
    with pb show ?thesis by (rule ok)
  qed
qed

lemma added_cells_hit:
  fixes v :: "ptr option"
  assumes "length m = n" "\<forall>r \<in> set m. length r = n" "s < n" "t < n"
  shows "added_cells u m s t v ! s ! t = v" "u \<Longrightarrow> added_cells u m s t v ! t ! s = v"
  using added_cells_nth[OF assms assms(3,4), of u v] added_cells_nth[OF assms assms(4,3), of u v]
  by simp_all

lemma added_cells_miss:
  fixes v :: "ptr option"
  assumes "length m = n" "\<forall>r \<in> set m. length r = n" "s < n" "t < n" "a < n" "b < n"
    "\<not> (a = s \<and> b = t)" "\<not> (u \<and> a = t \<and> b = s)"
  shows "added_cells u m s t v ! a ! b = m ! a ! b"
  unfolding added_cells_nth[OF assms(1-6)] using assms(7,8) by (rule_tac if_not_P) blast

lemma Edges_add_ok_wf:
  assumes wf: "wf_graph w g" and st: "s < Nodes_size g" "t < Nodes_size g"
    and free: "adjacency_matrix g ! s ! t = None"
    and pb: "push_back \<lparr>edge_id = Edges_size g, edge_source = slot (nodes g) s,
                  edge_target = slot (nodes g) t, edge_data = d\<rparr> (edge_heap w) (edges g)
         = Inr (h1, a1)"
    and w': "w' = w\<lparr>edge_heap := h1\<rparr>"
    and g': "g' = g\<lparr>edges := a1,
            adjacency_matrix := added_cells (is_undirected g) (adjacency_matrix g) s t
                                  (Some (slot a1 (Edges_size g)))\<rparr>"
  shows "wf_graph w' g'"
proof -
  let ?v = "\<lparr>edge_id = Edges_size g, edge_source = slot (nodes g) s,
                  edge_target = slot (nodes g) t, edge_data = d\<rparr>"
  let ?m = "adjacency_matrix g" and ?k = "Edges_size g" and ?n = "Nodes_size g"
  let ?p = "slot a1 ?k" and ?u = "is_undirected g"
  let ?M = "added_cells ?u ?m s t (Some ?p)"
  from wf have so: "stores_ok w g" and mo: "matrix_ok g" and nd: "nodes_dense w g"
    and sp: "spare_fresh (edge_heap w) (edges g)"
    by (simp_all add: wf_graph_def)
  from so have awf: "wf_array (edge_heap w) (edges g)" and hk: "heap_ok (edge_heap w)"
    and nwf: "wf_array (node_heap w) (nodes g)" and nhk: "heap_ok (node_heap w)"
    by (simp_all add: stores_ok_def)
  from mo have len: "length ?m = ?n" and rows: "\<forall>r \<in> set ?m. length r = ?n"
    by (simp_all add: matrix_ok_def)
  have sym: "?u \<Longrightarrow> ?m ! t ! s = None"
    using undirected_symmetric[OF wf _ st] free by simp
  note d = push_back_data[OF awf hk pb]
  have wf1: "wf_array h1 a1" and hk1: "heap_ok h1"
    using push_back_wf[OF awf hk pb] push_back_heap_ok[OF awf hk pb] by simp_all
  have ns: "Nodes_size g' = ?n" by (simp add: g' Nodes_size_def)
  have es: "Edges_size g' = Suc ?k" using d by (simp add: g' Edges_size_def size_of_def)
  have sl: "slot a1 j = slot (edges g) j" if "j < ?k" for j
    using push_back_slot[OF awf hk pb] that by (simp add: Edges_size_def size_of_def)
  have ea: "edge_at w' g' j = edge_at w g j" if "j < ?k" for j
    using push_back_old[OF awf hk pb] that
    by (simp add: edge_at_def w' g' Edges_size_def size_of_def)
  have en: "edge_at w' g' ?k = Some ?v"
    using push_back_new[OF awf hk pb] by (simp add: edge_at_def w' g' Edges_size_def size_of_def)
  have M: "adjacency_matrix g' = ?M" by (simp add: g')
  have nodes_eq: "nodes g' = nodes g" "is_undirected g' = ?u" "edges g' = a1" by (simp_all add: g')
  note hit = added_cells_hit[OF len rows st, of ?u "Some ?p"]
  note miss = added_cells_miss[OF len rows st, of _ _ ?u "Some ?p"]
  have "stores_ok w' g'" using wf1 hk1 nwf nhk by (simp add: stores_ok_def w' g')
  moreover have "matrix_ok g'"
    unfolding matrix_ok_def M ns using added_cells_shape[OF len rows, of ?u s t "Some ?p"] by simp
  moreover have "nodes_dense w' g'"
    using nd by (simp add: nodes_dense_def node_at_def w' g' Nodes_size_def)
  moreover have "edge_ok w' g' j" if "j < Suc ?k" for j
  proof (cases "j = ?k")
    case True
    show ?thesis
      unfolding edge_ok_def M ns nodes_eq True
      apply (rule exI[of _ ?v], rule exI[of _ s], rule exI[of _ t])
      using en st hit by simp
  next
    case False
    with that have j: "j < ?k" by simp
    from edge_cell[OF wf j] obtain e s' t' where e: "edge_at w g j = Some e" "edge_id e = j"
      "s' < ?n" "t' < ?n"
      "edge_source e = slot (nodes g) s'" "edge_target e = slot (nodes g) t'"
      "?m ! s' ! t' = Some (slot (edges g) j)"
      "?u \<longrightarrow> ?m ! t' ! s' = Some (slot (edges g) j)"
      by blast
    have c1: "?M ! s' ! t' = ?m ! s' ! t'"
    proof (rule miss[OF e(3,4)])
      show "\<not> (s' = s \<and> t' = t)" using e(7) free by auto
      show "\<not> (?u \<and> s' = t \<and> t' = s)" using e(7) sym by auto
    qed
    have c2: "?M ! t' ! s' = ?m ! t' ! s'" if u: ?u
    proof (rule miss[OF e(4,3)])
      from u e(8) have o: "?m ! t' ! s' = Some (slot (edges g) j)" by simp
      show "\<not> (t' = s \<and> s' = t)" using o free by auto
      show "\<not> (?u \<and> t' = t \<and> s' = s)" using o sym by auto
    qed
    show ?thesis
      unfolding edge_ok_def M ns nodes_eq
      apply (rule exI[of _ e], rule exI[of _ s'], rule exI[of _ t'])
      using e c1 c2 ea[OF j] sl[OF j] by simp
  qed
  moreover have "cell_ok w' g' a b" if ab: "a < ?n" "b < ?n" for a b
    unfolding cell_ok_def
  proof (intro allI impI)
    fix q assume q: "adjacency_matrix g' ! a ! b = Some q"
    show "\<exists>j<Edges_size g'. \<exists>e. q = slot (edges g') j \<and> edge_at w' g' j = Some e \<and>
             (edge_source e = slot (nodes g') a \<and> edge_target e = slot (nodes g') b \<or>
              is_undirected g' \<and> edge_source e = slot (nodes g') b \<and>
              edge_target e = slot (nodes g') a)"
    proof (cases "a = s \<and> b = t \<or> ?u \<and> a = t \<and> b = s")
      case True
      then have "?M ! a ! b = Some ?p" using hit by auto
      with q M have qp: "q = ?p" by simp
      show ?thesis
        unfolding es nodes_eq
        apply (rule exI[of _ ?k], rule conjI, simp, rule exI[of _ ?v])
        using True en qp by auto
    next
      case False
      then have "?M ! a ! b = ?m ! a ! b" by (intro miss[OF ab]) auto
      with q M have o: "?m ! a ! b = Some q" by simp
      from cell_edge[OF wf ab o] obtain j e where j: "j < ?k" "q = slot (edges g) j"
        "edge_at w g j = Some e"
        "edge_source e = slot (nodes g) a \<and> edge_target e = slot (nodes g) b \<or>
         ?u \<and> edge_source e = slot (nodes g) b \<and> edge_target e = slot (nodes g) a"
        by blast
      show ?thesis
        unfolding es nodes_eq
        apply (rule exI[of _ j], rule conjI, use j(1) in simp, rule exI[of _ e])
        using j ea[OF j(1)] sl[OF j(1)] by simp
    qed
  qed
  moreover have "spare_fresh (edge_heap w') (edges g')"
    using push_back_spare[OF awf hk sp pb] by (simp add: w' g')
  ultimately show ?thesis unfolding wf_graph_def ns es by simp
qed

lemma Edges_add_wf:
  assumes wf: "wf_graph w g" and r: "Edges_add ident s t d w g = (r, w', g')"
  shows "wf_graph w' g'"
proof -
  from wf have mo: "matrix_ok g" by (simp add: wf_graph_def)
  have tri: "ident > Edges_size g \<or> ident < Edges_size g \<or> ident = Edges_size g"
    by linarith
  have rng: "(s \<ge> Nodes_size g \<or> t \<ge> Nodes_size g) \<or> (s < Nodes_size g \<and> t < Nodes_size g)"
    by linarith
  consider "ident > Edges_size g" | "ident < Edges_size g"
    | "ident = Edges_size g" "s \<ge> Nodes_size g \<or> t \<ge> Nodes_size g"
    | "ident = Edges_size g" "s < Nodes_size g" "t < Nodes_size g"
        "adjacency_matrix g ! s ! t \<noteq> None"
    | "ident = Edges_size g" "s < Nodes_size g" "t < Nodes_size g"
        "adjacency_matrix g ! s ! t = None"
    using tri rng by blast
  then show ?thesis
  proof cases
    case 1 with r wf show ?thesis by (simp add: Edges_add_invalid)
  next
    case 2 with r wf show ?thesis by (simp add: Edges_add_invalid)
  next
    case 3
    from r Edges_add_invalid(3)[OF 3, of d w] wf show ?thesis by simp
  next
    case 4
    then obtain p where "adjacency_matrix g ! s ! t = Some p" by auto
    from r[unfolded 4(1)] Edges_add_occupied[OF mo 4(2,3) this, of d w] wf show ?thesis by simp
  next
    case 5
    from wf 5(2-4) show ?thesis
    proof (cases rule: Edges_add_cases[where d = d])
      case nomem
      with r[unfolded 5(1)] wf show ?thesis by simp
    next
      case (ok h1 a1)
      from r[unfolded 5(1) ok(2)] have "w' = w\<lparr>edge_heap := h1\<rparr>"
        "g' = g\<lparr>edges := a1,
            adjacency_matrix := added_cells (is_undirected g) (adjacency_matrix g) s t
                                  (Some (slot a1 (Edges_size g)))\<rparr>" by simp_all
      with Edges_add_ok_wf[OF wf 5(2-4) ok(1)] show ?thesis by blast
    qed
  qed
qed

section \<open>The example graphs\<close>

lemmas eval_defs = run_commands_def Nodes_add_def Edges_add_def Edges_add_try_def Edges_add_catch_def
  push_back_def pop_back_def add_block_def free_space_count_fits slot_ok_def slot_def store_def destroy_def load_def
  size_of_def get_elem_def grow_adjacency_matrix_def matrix_at_def matrix_set_def Nodes_get_def
  Nodes_exists_def Nodes_size_def Edges_size_def caught_def resize_def
  Graph_new_def DirectedGraph_new_def UndirectedGraph_new_def Array_new_def DEFAULT_BLOCK_SIZE_def empty_world_def empty_heap_def
  Let_def

lemma Graph_new_wf:
  "heap_ok (node_heap w) \<Longrightarrow> heap_ok (edge_heap w) \<Longrightarrow> wf_graph w (Graph_new u)"
  by (simp add: wf_graph_def stores_ok_def matrix_ok_def nodes_dense_def Graph_new_def
      wf_array_def DEFAULT_BLOCK_SIZE_def Nodes_size_def Edges_size_def size_of_def Array_new_def
      spare_fresh_def)

lemma empty_world_ok: "heap_ok (node_heap (empty_world k))" "heap_ok (edge_heap (empty_world k))"
  by (simp_all add: empty_world_def empty_heap_def heap_ok_def)

lemma run_command_wf: "wf_graph (fst s) (snd s) \<Longrightarrow> wf_graph (fst (run_command c s)) (snd (run_command c s))"
proof (cases c)
  case (AddNode i d)
  obtain w g where s: "s = (w, g)" by (cases s)
  obtain r w' g' where "Nodes_add i d w g = (r, w', g')" by (metis prod_cases3)
  then show "wf_graph (fst s) (snd s) \<Longrightarrow> ?thesis"
    using Nodes_add_wf[of w g i d r w' g'] by (simp add: AddNode s)
next
  case (AddEdge i a b d)
  obtain w g where s: "s = (w, g)" by (cases s)
  obtain r w' g' where "Edges_add i a b d w g = (r, w', g')" by (metis prod_cases3)
  then show "wf_graph (fst s) (snd s) \<Longrightarrow> ?thesis"
    using Edges_add_wf[of w g i a b d r w' g'] by (simp add: AddEdge s)
qed

lemma run_commands_wf:
  "wf_graph (fst s) (snd s) \<Longrightarrow> wf_graph (fst (run_commands cs s)) (snd (run_commands cs s))"
  unfolding run_commands_def
  by (induction cs arbitrary: s) (simp_all add: run_command_wf)

lemma scenario_wf: "wf_graph (fst (scenario u)) (snd (scenario u))"
  unfolding scenario_def
  by (rule run_commands_wf) (simp add: Graph_new_wf empty_world_ok)

lemma scenario_graph:
  "snd (scenario u) =
     \<lparr>nodes = \<lparr>data = [0], block_size = 10, element_count = 3\<rparr>,
      edges = \<lparr>data = [0], block_size = 10, element_count = 2\<rparr>,
      adjacency_matrix =
        (if u then [[None, Some (0, 0), None], [Some (0, 0), None, Some (0, 1)], [None, Some (0, 1), None]]
         else [[None, Some (0, 0), None], [None, None, Some (0, 1)], [None, None, None]]),
      is_undirected = u\<rparr>"
  by (simp add: scenario_def scenario_commands_def eval_defs)

lemma tight_wf: "wf_graph (fst tight) (snd tight)"
  unfolding tight_def
  by (rule run_commands_wf) (simp add: Graph_new_wf empty_world_ok)

lemma scenario_fresh:
  "destroyed (node_heap (fst (scenario u))) = {}" "destroyed (edge_heap (fst (scenario u))) = {}"
  by (simp_all add: scenario_def scenario_commands_def eval_defs)
section \<open>Outcomes of the additions\<close>

lemma pop_back_error: "pop_back h a = Inl e \<Longrightarrow> e = EmptyArray \<or> e = UndefinedBehaviour"
  by (auto simp: pop_back_def Let_def split: if_splits)

lemma Nodes_add_never_id_error:
  assumes "ident = Nodes_size g"
  shows "fst (Nodes_add ident d w g) \<noteq> Inl InvalidIdentifier"
    "fst (Nodes_add ident d w g) \<noteq> Inl ConflictingItem"
  using assms
  by (auto simp: Nodes_add_def Nodes_size_def Let_def caught_def get_elem_def
      split: sum.splits prod.splits if_splits dest: pop_back_error)

lemma Edges_add_catch_error:
  "Edges_add_catch k s t e w g = (Inl x, w', g') \<Longrightarrow>
   x = UnavailableMemory \<or> x = UndefinedBehaviour \<or> x = EmptyArray"
  by (auto simp: Edges_add_catch_def Let_def matrix_set_def
      split: sum.splits prod.splits if_splits dest: pop_back_error)

lemma Edges_add_catch_Inl: "\<exists>x w' g'. Edges_add_catch k s t e w g = (Inl x, w', g')"
  by (auto simp: Edges_add_catch_def Let_def split: sum.splits prod.splits if_splits)

lemma Edges_add_id_ok:
  assumes "ident = Edges_size g"
  shows "fst (Edges_add ident s t d w g) \<noteq> Inl InvalidIdentifier"
    "fst (Edges_add ident s t d w g) = Inl ConflictingItem \<Longrightarrow>
       \<exists>p. matrix_at (adjacency_matrix g) s t = Inr (Some p)"
proof -
  have c: "fst (Edges_add_catch k s t e w1 g1) \<noteq> Inl InvalidIdentifier \<and>
           fst (Edges_add_catch k s t e w1 g1) \<noteq> Inl ConflictingItem" for k e w1 g1
  proof -
    obtain x w' g' where "Edges_add_catch k s t e w1 g1 = (Inl x, w', g')"
      using Edges_add_catch_Inl by blast
    with Edges_add_catch_error[OF this] show ?thesis by auto
  qed
  show "fst (Edges_add ident s t d w g) \<noteq> Inl InvalidIdentifier"
    using assms c
    by (auto simp: Edges_add_def Edges_size_def Let_def matrix_at_def
        split: sum.splits prod.splits option.splits if_splits)
  show "fst (Edges_add ident s t d w g) = Inl ConflictingItem \<Longrightarrow>
       \<exists>p. matrix_at (adjacency_matrix g) s t = Inr (Some p)"
    using assms c
    by (auto simp: Edges_add_def Edges_size_def Let_def matrix_at_def
        split: sum.splits prod.splits option.splits if_splits)
qed

lemma added_cells_diag: "added_cells u m s s v = m[s := (m ! s)[s := v]]"
  by (cases "s < length m") (simp_all add: added_cells_def Let_def list_update_beyond)

section \<open>Claims about adding nodes and edges\<close>

text \<open>
  Claim C6.  \<^verbatim>\<open>Nodes::add(id, data)\<close> and \<^verbatim>\<open>Edges::add(id, source, target, data)\<close>
  on a store of size \<open>n\<close>: an identifier above \<open>n\<close> fails with \<open>InvalidIdentifier\<close>, one
  below \<open>n\<close> fails with \<open>ConflictingItem\<close>, and both failures leave the world and the
  graph as they were.  With \<open>id = n\<close> the call gets past the validation of the
  identifier: it never fails with \<open>InvalidIdentifier\<close>; a node addition never fails
  with \<open>ConflictingItem\<close>, and an edge addition does so only for an occupied matrix cell.
\<close>

theorem add_id_validation:
  "(Nodes_size g < ident \<longrightarrow> Nodes_add ident d w g = (Inl InvalidIdentifier, w, g)) \<and>
   (ident < Nodes_size g \<longrightarrow> Nodes_add ident d w g = (Inl ConflictingItem, w, g)) \<and>
   (ident = Nodes_size g \<longrightarrow>
      fst (Nodes_add ident d w g) \<noteq> Inl InvalidIdentifier \<and>
      fst (Nodes_add ident d w g) \<noteq> Inl ConflictingItem) \<and>
   (Edges_size g < ident \<longrightarrow> Edges_add ident s t x w g = (Inl InvalidIdentifier, w, g)) \<and>
   (ident < Edges_size g \<longrightarrow> Edges_add ident s t x w g = (Inl ConflictingItem, w, g)) \<and>
   (ident = Edges_size g \<longrightarrow>
      fst (Edges_add ident s t x w g) \<noteq> Inl InvalidIdentifier \<and>
      (fst (Edges_add ident s t x w g) = Inl ConflictingItem \<longrightarrow>
         (\<exists>p. matrix_at (adjacency_matrix g) s t = Inr (Some p))))"
  using Nodes_add_invalid[where g = g and ident = ident and d = d and w = w]
    Nodes_add_never_id_error[where g = g and ident = ident and d = d and w = w]
    Edges_add_invalid(1,2)[where g = g and ident = ident and s = s and t = t and d = x and w = w]
    Edges_add_id_ok[where g = g and ident = ident and s = s and t = t and d = x and w = w]
  by blast

text \<open>The edge store of the scenario has size 2: identifier 5 is invalid, identifier 1
  conflicts, and nothing changes.\<close>

theorem add_id_validation_witness:
  "Edges_size (snd (scenario False)) = 2 \<and>
   Edges_add 5 0 2 ''z'' (fst (scenario False)) (snd (scenario False)) =
     (Inl InvalidIdentifier, fst (scenario False), snd (scenario False)) \<and>
   Edges_add 1 0 2 ''z'' (fst (scenario False)) (snd (scenario False)) =
     (Inl ConflictingItem, fst (scenario False), snd (scenario False)) \<and>
   fst (Edges_add 2 0 2 ''z'' (fst (scenario False)) (snd (scenario False))) \<noteq> Inl InvalidIdentifier \<and>
   Nodes_size (snd (scenario False)) = 3 \<and>
   Nodes_add 4 ''d'' (fst (scenario False)) (snd (scenario False)) =
     (Inl InvalidIdentifier, fst (scenario False), snd (scenario False)) \<and>
   Nodes_add 2 ''d'' (fst (scenario False)) (snd (scenario False)) =
     (Inl ConflictingItem, fst (scenario False), snd (scenario False))"
proof -
  have e: "Edges_size (snd (scenario False)) = 2" and n: "Nodes_size (snd (scenario False)) = 3"
    by (simp_all add: scenario_graph Edges_size_def Nodes_size_def size_of_def)
  show ?thesis
    using add_id_validation[of "snd (scenario False)" 5 "''d''" "fst (scenario False)" 0 2 "''z''"]
      add_id_validation[of "snd (scenario False)" 1 "''d''" "fst (scenario False)" 0 2 "''z''"]
      add_id_validation[of "snd (scenario False)" 2 "''d''" "fst (scenario False)" 0 2 "''z''"]
      add_id_validation[of "snd (scenario False)" 4 "''d''" "fst (scenario False)" 0 2 "''z''"]
    by (simp add: e n)
qed

text \<open>
  Claim C7.  In a well-formed graph the matrix has as many rows as there are nodes, and
  \<^verbatim>\<open>Edges::exists(source, target)\<close> fails with \<open>NonexistingItem\<close> exactly when one of
  the identifiers is not below the node count; for identifiers in range it returns
  whether the cell \<open>[source][target]\<close> is occupied, without failing.
\<close>

theorem exists_pair_asymmetry:
  assumes "wf_graph w g"
  shows "length (adjacency_matrix g) = Nodes_size g \<and>
         Edges_exists g s t =
           (if Nodes_size g \<le> s \<or> Nodes_size g \<le> t then Inl NonexistingItem
            else Inr (adjacency_matrix g ! s ! t \<noteq> None))"
proof -
  from assms have mo: "matrix_ok g" by (simp add: wf_graph_def)
  then have len: "length (adjacency_matrix g) = Nodes_size g" by (simp add: matrix_ok_def)
  show ?thesis
    using len matrix_at_ok[OF mo, of s t] by (simp add: Edges_exists_def Let_def not_le)
qed

theorem exists_pair_asymmetry_witness:
  "wf_graph (fst (scenario False)) (snd (scenario False)) \<and>
   Nodes_size (snd (scenario False)) = 3 \<and>
   Edges_exists (snd (scenario False)) 0 1 = Inr True \<and>
   Edges_exists (snd (scenario False)) 0 2 = Inr False \<and>
   Edges_exists (snd (scenario False)) 0 7 = Inl NonexistingItem \<and>
   Edges_exists (snd (scenario False)) 3 0 = Inl NonexistingItem"
proof -
  have n: "Nodes_size (snd (scenario False)) = 3"
    by (simp add: scenario_graph Nodes_size_def size_of_def)
  have m: "adjacency_matrix (snd (scenario False)) =
      [[None, Some (0, 0), None], [None, None, Some (0, 1)], [None, None, None]]"
    by (simp add: scenario_graph)
  show ?thesis
    using exists_pair_asymmetry[OF scenario_wf, of False 0 1]
      exists_pair_asymmetry[OF scenario_wf, of False 0 2]
      exists_pair_asymmetry[OF scenario_wf, of False 0 7]
      exists_pair_asymmetry[OF scenario_wf, of False 3 0]
      scenario_wf[of False]
    by (simp add: n m)
qed

text \<open>
  Claim C10.  In a well-formed graph with node \<open>s\<close> and a free cell \<open>[s][s]\<close>,
  \<^verbatim>\<open>Edges::add\<close> with the next identifier and \<open>source = target = s\<close> fails only when
  the container is full and the allocator refuses a block (and then changes nothing);
  otherwise it stores an edge whose source and target both are the node \<open>s\<close>, writes
  the one diagonal cell \<open>[s][s]\<close>, directed or undirected, and afterwards
  \<^verbatim>\<open>exists(s, s)\<close> is true.
\<close>

theorem self_loop_add:
  assumes wf: "wf_graph w g" and s: "s < Nodes_size g"
    and free: "adjacency_matrix g ! s ! s = None"
  shows "if free_space_count (edges g) = 0 \<and> avail (edge_heap w) = 0
         then Edges_add (Edges_size g) s s d w g = (Inl UnavailableMemory, w, g)
         else (\<exists>p w' g' e.
                 Edges_add (Edges_size g) s s d w g = (Inr p, w', g') \<and>
                 Edges_size g' = Suc (Edges_size g) \<and>
                 Edges_get_id g' (Edges_size g) = Inr p \<and>
                 load (edge_heap w') p = Some e \<and>
                 edge_id e = Edges_size g \<and> edge_data e = d \<and>
                 Nodes_get g' s = Inr (edge_source e) \<and> edge_target e = edge_source e \<and>
                 getSource_getId w' e = Inr s \<and> getTarget_getId w' e = Inr s \<and>
                 adjacency_matrix g' =
                   (adjacency_matrix g)[s := (adjacency_matrix g ! s)[s := Some p]] \<and>
                 Edges_exists g' s s = Inr True \<and> Edges_get g' s s = Inr p \<and>
                 wf_graph w' g')"
  using wf s s free
proof (cases rule: Edges_add_cases[where d = d])
  case nomem
  then show ?thesis by simp
next
  case (ok h1 a1)
  let ?v = "\<lparr>edge_id = Edges_size g, edge_source = slot (nodes g) s,
             edge_target = slot (nodes g) s, edge_data = d\<rparr>"
  let ?p = "slot a1 (Edges_size g)"
  let ?w = "w\<lparr>edge_heap := h1\<rparr>"
  let ?M = "(adjacency_matrix g)[s := (adjacency_matrix g ! s)[s := Some ?p]]"
  let ?g = "g\<lparr>edges := a1, adjacency_matrix := ?M\<rparr>"
  from wf have so: "stores_ok w g" and mo: "matrix_ok g" and nd: "nodes_dense w g"
    and sp: "spare_fresh (edge_heap w) (edges g)"
    by (simp_all add: wf_graph_def)
  from so have awf: "wf_array (edge_heap w) (edges g)" and hk: "heap_ok (edge_heap w)"
    by (simp_all add: stores_ok_def)
  from push_back_result(1)[OF awf hk sp, of ?v] ok(1)
  have nofail: "\<not> (free_space_count (edges g) = 0 \<and> avail (edge_heap w) = 0)" by auto
  note d = push_back_data[OF awf hk ok(1)]
  have r: "Edges_add (Edges_size g) s s d w g = (Inr ?p, ?w, ?g)"
    using ok(2) by (simp add: added_cells_diag)
  have wf': "wf_graph ?w ?g"
    using Edges_add_ok_wf[OF wf s s free ok(1) refl refl] by (simp add: added_cells_diag)
  have sz: "Edges_size ?g = Suc (Edges_size g)"
    using d by (simp add: Edges_size_def size_of_def)
  have gi: "Edges_get_id ?g (Edges_size g) = Inr ?p"
    using d by (simp add: Edges_get_id_def Edges_exists_id_def Edges_size_def size_of_def get_elem_def)
  have ld: "load (edge_heap ?w) ?p = Some ?v"
    using push_back_new[OF awf hk ok(1)] by (simp add: Edges_size_def size_of_def)
  have ng: "Nodes_get ?g s = Inr (slot (nodes g) s)"
    using Nodes_get_ok[of s ?g] s by (simp add: Nodes_size_def)
  from nd s obtain n where n: "node_at w g s = Some n" "node_id n = s"
    by (auto simp: nodes_dense_def)
  then have ids: "getSource_getId ?w ?v = Inr s" "getTarget_getId ?w ?v = Inr s"
    by (simp_all add: getSource_getId_def getTarget_getId_def node_at_def)
  have len: "length (adjacency_matrix g) = Nodes_size g"
    and row: "length (adjacency_matrix g ! s) = Nodes_size g"
    using mo s by (simp_all add: matrix_ok_def)
  have cell: "?M ! s ! s = Some ?p" using s len row by simp
  have ex: "Edges_exists ?g s s = Inr True" "Edges_get ?g s s = Inr ?p"
    using s len row by (simp_all add: Edges_exists_def Edges_get_def matrix_at_def Let_def)
  show ?thesis
    using nofail r sz gi ld ng ids ex wf' by simp
qed

theorem self_loop_add_witness:
  "wf_graph (fst (scenario True)) (snd (scenario True)) \<and> 2 < Nodes_size (snd (scenario True)) \<and>
   adjacency_matrix (snd (scenario True)) ! 2 ! 2 = None \<and>
   fst (Edges_add 2 2 2 ''loop'' (fst (scenario True)) (snd (scenario True))) = Inr (0, 2) \<and>
   adjacency_matrix (snd (snd (Edges_add 2 2 2 ''loop'' (fst (scenario True)) (snd (scenario True))))) =
     [[None, Some (0, 0), None], [Some (0, 0), None, Some (0, 1)], [None, Some (0, 1), Some (0, 2)]] \<and>
   Edges_exists (snd (snd (Edges_add 2 2 2 ''loop'' (fst (scenario True)) (snd (scenario True))))) 2 2
     = Inr True"
proof -
  have n: "Nodes_size (snd (scenario True)) = 3" and e: "Edges_size (snd (scenario True)) = 2"
    by (simp_all add: scenario_graph Nodes_size_def Edges_size_def size_of_def)
  have m: "adjacency_matrix (snd (scenario True)) =
      [[None, Some (0, 0), None], [Some (0, 0), None, Some (0, 1)], [None, Some (0, 1), None]]"
    by (simp add: scenario_graph)
  have f: "free_space_count (edges (snd (scenario True))) \<noteq> 0"
    by (simp add: scenario_graph free_space_count_fits)
  have lt: "2 < Nodes_size (snd (scenario True))" using n by simp
  have c: "adjacency_matrix (snd (scenario True)) ! 2 ! 2 = None" by (simp add: m)
  from self_loop_add[OF scenario_wf lt c, of "''loop''"] f e
  obtain p w' g' where r: "Edges_add 2 2 2 ''loop'' (fst (scenario True)) (snd (scenario True)) = (Inr p, w', g')"
    and gi: "Edges_get_id g' 2 = Inr p"
    and am: "adjacency_matrix g' = (adjacency_matrix (snd (scenario True)))
                 [2 := (adjacency_matrix (snd (scenario True)) ! 2)[2 := Some p]]"
    and ex: "Edges_exists g' 2 2 = Inr True"
    by auto
  have "fst (Edges_add 2 2 2 ''loop'' (fst (scenario True)) (snd (scenario True))) = Inr (0, 2)"
    by (simp add: scenario_graph scenario_fresh eval_defs split: if_splits)
  with r have "p = (0, 2)" by simp
  with r am ex m scenario_wf[of True] lt c show ?thesis by simp
qed

text \<open>
  Claim C2.  \<^verbatim>\<open>Nodes::add\<close> undoes the append when the matrix row is refused: it
  calls \<^verbatim>\<open>pop_back\<close>, which decrements the count and calls the destructor of the node
  in its slot, and throws \<open>UnavailableMemory\<close>.  The size, \<^verbatim>\<open>exists\<close> and the matrix are
  as before the call, but the state is not: the slot of the removed node holds a
  destroyed object, and the next \<^verbatim>\<open>Nodes::add\<close> copy-assigns the new node into it.
  In the graph \<open>tight\<close>, one node and no matrix row left, adding node 1 fails and is
  undone; once rows can be allocated again, adding node 1 again is undefined behaviour.
\<close>

theorem rollback_leaves_destroyed_slot:
  "case Nodes_add 1 ''b'' (fst tight) (snd tight) of
     (r, w', g') \<Rightarrow>
       r = Inl UnavailableMemory \<and> Nodes_size g' = 1 \<and> adjacency_matrix g' = [[None]] \<and>
       Nodes_size (snd tight) = 1 \<and> adjacency_matrix (snd tight) = [[None]] \<and>
       (0, 1) \<notin> destroyed (node_heap (fst tight)) \<and> (0, 1) \<in> destroyed (node_heap w') \<and>
       fst (Nodes_add 1 ''b'' (w'\<lparr>row_avail := 10\<rparr>) g') = Inl UndefinedBehaviour"
  by (simp add: tight_def eval_defs)

subsection \<open>Copying containers and graphs\<close>

lemma wf_array_blocks_ok: "wf_array h a \<Longrightarrow> blocks_ok h a"
  by (simp add: wf_array_def blocks_ok_def)

lemma wf_array_alt:
  "wf_array h a \<longleftrightarrow> blocks_ok h a \<and> element_count a \<le> length (data a) * block_size a \<and>
     (\<forall>i < element_count a. load h (slot a i) \<noteq> None)"
  by (auto simp: wf_array_def blocks_ok_def)

lemma add_blocks_result:
  "add_blocks n h a = Inr (h', a') \<Longrightarrow>
     data a' = data a @ [brk h..<brk h + n] \<and> block_size a' = block_size a \<and>
     element_count a' = element_count a \<and> brk h' = brk h + n \<and> avail h' = avail h - n \<and>
     n \<le> avail h \<and>
     (\<forall>b. blk h' b = (if brk h \<le> b \<and> b < brk h + n
                       then Some (replicate (block_size a) None) else blk h b))"
proof (induction n arbitrary: h a)
  case 0
  then show ?case by auto
next
  case (Suc n)
  from Suc.prems obtain h1 a1 where ab: "add_block h a = Inr (h1, a1)"
    and rest: "add_blocks n h1 a1 = Inr (h', a')"
    by (auto split: sum.splits)
  from ab have av: "avail h \<noteq> 0"
    and h1: "h1 = h\<lparr>blk := (blk h)(brk h \<mapsto> replicate (block_size a) None),
                  brk := Suc (brk h), avail := avail h - 1\<rparr>"
    and a1: "a1 = a\<lparr>data := data a @ [brk h]\<rparr>"
    by (auto simp: add_block_def split: if_splits)
  from Suc.IH[OF rest] have ih: "data a' = data a1 @ [brk h1..<brk h1 + n]"
    "block_size a' = block_size a1" "element_count a' = element_count a1"
    "brk h' = brk h1 + n" "avail h' = avail h1 - n" "n \<le> avail h1"
    "\<And>b. blk h' b = (if brk h1 \<le> b \<and> b < brk h1 + n
                       then Some (replicate (block_size a1) None) else blk h1 b)"
    by simp_all
  have "data a' = data a @ [brk h..<brk h + Suc n]"
    using ih(1) by (simp add: h1 a1 upt_conv_Cons)
  moreover have "\<forall>b. blk h' b = (if brk h \<le> b \<and> b < brk h + Suc n
                       then Some (replicate (block_size a) None) else blk h b)"
    using ih(7) by (auto simp: h1 a1)
  ultimately show ?case using ih(2-6) av by (simp add: h1 a1)
qed

lemma add_blocks_destroyed:
  "add_blocks n h a = Inr (h', a') \<Longrightarrow> destroyed h' = destroyed h"
  by (induction n arbitrary: h a) (auto simp: add_block_def split: sum.splits if_splits)

lemma add_blocks_succeeds: "n \<le> avail h \<Longrightarrow> \<exists>h' a'. add_blocks n h a = Inr (h', a')"
proof (induction n arbitrary: h a)
  case 0
  then show ?case by simp
next
  case (Suc n)
  then have "avail h \<noteq> 0" by simp
  then obtain h1 a1 where ab: "add_block h a = Inr (h1, a1)" and "avail h1 = avail h - 1"
    by (auto simp: add_block_def)
  with Suc.prems have "n \<le> avail h1" by simp
  from Suc.IH[OF this, of a1] ab show ?case by simp
qed

lemma add_blocks_error: "add_blocks n h a = Inl e \<Longrightarrow> e = UnavailableMemory"
  by (induction n arbitrary: h a) (auto simp: add_block_def split: sum.splits if_splits)

lemma blocks_ok_slot:
  assumes "blocks_ok h a" "i < length (data a) * block_size a"
  shows "fst (slot a i) \<in> set (data a)"
    and "\<exists>xs. blk h (fst (slot a i)) = Some xs \<and> snd (slot a i) < length xs"
    and "slot_ok a i"
proof -
  from assms have d: "i div block_size a < length (data a)" and bs: "0 < block_size a"
    by (simp_all add: div_less_blocks blocks_ok_def)
  then show m: "fst (slot a i) \<in> set (data a)" by (simp add: slot_def)
  with assms(1) obtain xs where "blk h (fst (slot a i)) = Some xs" "length xs = block_size a"
    unfolding blocks_ok_def by blast
  moreover have "snd (slot a i) < block_size a" using bs by (simp add: slot_def)
  ultimately show "\<exists>xs. blk h (fst (slot a i)) = Some xs \<and> snd (slot a i) < length xs" by simp
  show "slot_ok a i" using d bs by (simp add: slot_ok_def)
qed

lemma blocks_ok_store: "blocks_ok h a \<Longrightarrow> blocks_ok (store h p v) a"
  unfolding blocks_ok_def using blk_store_length[of h _ _ p v] by metis

lemma blocks_ok_slot_inj:
  assumes "blocks_ok h a" "i < length (data a) * block_size a"
    "j < length (data a) * block_size a" "slot a i = slot a j"
  shows "i = j"
  using assms slot_inj[of a i j] by (simp add: blocks_ok_def)

text \<open>The loops that copy elements and rebind pointers destroy nothing.\<close>

lemma for_each_copy_destroyed:
  "for_each (copy_element this other) js h = Inr h' \<Longrightarrow> destroyed h' = destroyed h"
  by (induction js arbitrary: h)
     (auto simp: copy_element_def split: sum.splits if_splits option.splits)

lemma copy_loop:
  assumes bo: "blocks_ok h this" and bs: "block_size other = block_size this"
    and disj: "set (data this) \<inter> set (data other) = {}"
    and wo: "wf_array h other"
    and c1: "c \<le> length (data this) * block_size this" and c2: "c \<le> element_count other"
    and nd: "\<forall>i < c. slot this i \<notin> destroyed h"
  shows "\<exists>h'. for_each (copy_element this other) [k..<c] h = Inr h' \<and>
           blocks_ok h' this \<and> brk h' = brk h \<and> avail h' = avail h \<and>
           (\<forall>b. b \<notin> set (data this) \<longrightarrow> blk h' b = blk h b) \<and>
           (\<forall>i. k \<le> i \<and> i < c \<longrightarrow> load h' (slot this i) = load h (slot other i)) \<and>
           (\<forall>i < k. i < c \<longrightarrow> load h' (slot this i) = load h (slot this i))"
  using bo wo nd
proof (induction "c - k" arbitrary: k h)
  case 0
  then have "[k..<c] = []" and "c \<le> k" by simp_all
  with 0 show ?case by auto
next
  case (Suc d)
  then have kc: "k < c" by simp
  then have up: "[k..<c] = k # [Suc k..<c]" by (simp add: upt_conv_Cons)
  note bo = Suc.prems(1) and wo = Suc.prems(2) and nd = Suc.prems(3)
  have oo: "other\<lparr>block_size := block_size this\<rparr> = other" using bs by simp
  from kc c1 have kt: "k < length (data this) * block_size this" by simp
  from kc c2 have ko: "k < element_count other" by simp
  with wo have kol: "k < length (data other) * block_size other" by (simp add: wf_array_def)
  from wo ko obtain v where v: "load h (slot other k) = Some v" by (auto simp: wf_array_def)
  have sok: "slot_ok this k" using blocks_ok_slot(3)[OF bo kt] .
  have soo: "slot_ok other k" using blocks_ok_slot(3)[OF wf_array_blocks_ok[OF wo] kol] .
  let ?h1 = "store h (slot this k) (Some v)"
  have step: "copy_element this other k h = Inr ?h1"
    using sok soo v nd kc by (simp add: copy_element_def oo)
  have nd1: "\<forall>i < c. slot this i \<notin> destroyed ?h1" using nd by simp
  from blocks_ok_slot(2)[OF bo kt] obtain xs where
    xs: "blk h (fst (slot this k)) = Some xs" "snd (slot this k) < length xs" by blast
  have inthis: "fst (slot this k) \<in> set (data this)" using blocks_ok_slot(1)[OF bo kt] .
  have bo1: "blocks_ok ?h1 this" using bo by (rule blocks_ok_store)
  have fr1: "blk ?h1 b = blk h b" if "b \<notin> set (data this)" for b
    using that inthis by (intro blk_store_other) auto
  have wo1: "wf_array ?h1 other"
    using wo disj fr1 by (intro wf_array_cong[OF wo]) auto
  have eq: "d = c - Suc k" using Suc.hyps(2) by simp
  from Suc.hyps(1)[OF eq bo1 wo1 nd1] obtain h' where
    r: "for_each (copy_element this other) [Suc k..<c] ?h1 = Inr h'"
    and p: "blocks_ok h' this" "brk h' = brk ?h1" "avail h' = avail ?h1"
      "\<And>b. b \<notin> set (data this) \<Longrightarrow> blk h' b = blk ?h1 b"
      "\<And>i. Suc k \<le> i \<Longrightarrow> i < c \<Longrightarrow> load h' (slot this i) = load ?h1 (slot other i)"
      "\<And>i. i < Suc k \<Longrightarrow> i < c \<Longrightarrow> load h' (slot this i) = load ?h1 (slot this i)"
    by blast
  have lo: "load ?h1 (slot other i) = load h (slot other i)" if "i < c" for i
  proof -
    from that c2 wo have "i < length (data other) * block_size other" by (simp add: wf_array_def)
    from blocks_ok_slot(1)[OF wf_array_blocks_ok[OF wo] this] inthis disj
    have "fst (slot other i) \<noteq> fst (slot this k)" by auto
    then show ?thesis by (rule load_store_other)
  qed
  have lt: "load ?h1 (slot this i) = (if i = k then Some v else load h (slot this i))" if "i < c" for i
  proof -
    from that c1 have it: "i < length (data this) * block_size this" by simp
    have "slot this i = slot this k \<longleftrightarrow> i = k"
      using blocks_ok_slot_inj[OF bo it kt] by auto
    then show ?thesis using load_store[OF xs, of "Some v" "slot this i"] by simp
  qed
  have "for_each (copy_element this other) [k..<c] h = Inr h'"
    using step r by (simp add: up)
  moreover have "\<forall>b. b \<notin> set (data this) \<longrightarrow> blk h' b = blk h b"
    using p(4) fr1 by simp
  moreover have "\<forall>i. k \<le> i \<and> i < c \<longrightarrow> load h' (slot this i) = load h (slot other i)"
  proof (intro allI impI)
    fix i assume i: "k \<le> i \<and> i < c"
    show "load h' (slot this i) = load h (slot other i)"
    proof (cases "i = k")
      case True
      with p(6)[of k] kc lt[of k] v show ?thesis by simp
    next
      case False
      with i have "Suc k \<le> i" by simp
      with p(5)[of i] i lo[of i] show ?thesis by simp
    qed
  qed
  moreover have "\<forall>i < k. i < c \<longrightarrow> load h' (slot this i) = load h (slot this i)"
    using p(6) lt by simp
  ultimately show ?case using p(1-3) by simp
qed

lemma Array_copy_steps:
  assumes wo: "wf_array h other" and hk: "heap_ok h"
    and ab: "add_blocks (length (data other)) h
             \<lparr>data = [], block_size = block_size other, element_count = element_count other\<rparr>
             = Inr (h1, this)"
  shows "\<exists>h2. Array_copy h other = Inr (h2, this) \<and>
           wf_array h2 this \<and> heap_ok h2 \<and>
           element_count this = element_count other \<and> block_size this = block_size other \<and>
           set (data this) = {brk h..<brk h2} \<and>
           (\<forall>b < brk h. blk h2 b = blk h b) \<and> avail h2 = avail h - length (data other) \<and>
           (\<forall>i < element_count other. load h2 (slot this i) = load h (slot other i)) \<and>
           destroyed h2 = destroyed h \<and> spare_fresh h2 this"
proof -
  let ?L = "length (data other)"
  note dd1 = add_blocks_destroyed[OF ab]
  from add_blocks_result[OF ab]
  have dt: "data this = [brk h..<brk h + ?L]" and bs: "block_size this = block_size other"
    and ct: "element_count this = element_count other" and bk: "brk h1 = brk h + ?L"
    and av: "avail h1 = avail h - ?L"
    and b1: "\<And>b. blk h1 b = (if brk h \<le> b \<and> b < brk h + ?L
                       then Some (replicate (block_size other) None) else blk h b)"
    by simp_all
  from wo have bso: "0 < block_size other"
    and cap: "element_count other \<le> ?L * block_size other" by (simp_all add: wf_array_def)
  have bo: "blocks_ok h1 this"
    unfolding blocks_ok_def using bso by (auto simp: dt bs b1)
  have old: "b < brk h" if "b \<in> set (data other)" for b
    using wf_array_allocated[OF wo hk that] .
  have disj: "set (data this) \<inter> set (data other) = {}"
    using old by (fastforce simp: dt)
  have "blk h1 b = blk h b" if "b \<in> set (data other)" for b
    using old[OF that] by (simp add: b1)
  then have wo1: "wf_array h1 other"
    by (intro wf_array_cong[OF wo]) simp
  have c1: "element_count other \<le> length (data this) * block_size this"
    using cap by (simp add: dt bs)
  have fresh: "slot this i \<notin> destroyed h" if "i < length (data this) * block_size this" for i
  proof -
    from blocks_ok_slot(1)[OF bo that] have "brk h \<le> fst (slot this i)" by (simp add: dt)
    with heap_ok_destroyed[OF hk, of "slot this i"] show ?thesis by auto
  qed
  have nd: "\<forall>i < element_count other. slot this i \<notin> destroyed h1"
    using fresh c1 by (simp add: dd1)
  from copy_loop[OF bo bs[symmetric] disj wo1 c1 order_refl nd, of 0]
  obtain h2 where
    r: "for_each (copy_element this other) [0..<element_count other] h1 = Inr h2"
    and p: "blocks_ok h2 this" "brk h2 = brk h1" "avail h2 = avail h1"
      "\<And>b. b \<notin> set (data this) \<Longrightarrow> blk h2 b = blk h1 b"
      "\<And>i. i < element_count other \<Longrightarrow> load h2 (slot this i) = load h1 (slot other i)"
    by auto
  have lo: "load h1 (slot other i) = load h (slot other i)" if "i < element_count other" for i
  proof -
    from that cap have "i < ?L * block_size other" by simp
    from slot_in_data[OF wo this] old have "fst (slot other i) < brk h" by simp
    then show ?thesis by (simp add: load_def b1)
  qed
  have cp: "load h2 (slot this i) = load h (slot other i)" if "i < element_count other" for i
    using p(5)[OF that] lo[OF that] by simp
  have wf2: "wf_array h2 this"
    unfolding wf_array_alt using p(1) c1 cp wo by (auto simp: ct wf_array_def)
  have fr: "blk h2 b = blk h b" if "b < brk h" for b
    using p(4)[of b] that by (simp add: dt b1)
  have dd2: "destroyed h2 = destroyed h"
    using for_each_copy_destroyed[OF r] dd1 by simp
  have hk2: "heap_ok h2"
  proof (rule heap_okI)
    fix b assume "brk h2 \<le> b"
    then have "brk h + ?L \<le> b" by (simp add: p(2) bk)
    then show "blk h2 b = None"
      using p(4)[of b] heap_ok_blk[OF hk, of b] by (simp add: dt b1)
  next
    fix q assume "q \<in> destroyed h2"
    then show "fst q < brk h2"
      using heap_ok_destroyed[OF hk, of q] by (simp add: dd2 p(2) bk)
  qed
  have sf: "spare_fresh h2 this"
    unfolding spare_fresh_def using fresh by (simp add: dd2)
  have "Array_copy h other = Inr (h2, this)"
    using ab r by (simp add: Array_copy_def ct)
  moreover have "set (data this) = {brk h..<brk h2}" by (simp add: dt p(2) bk)
  ultimately show ?thesis
    using wf2 hk2 ct bs fr cp p(3) av dd2 sf by auto
qed

lemma Array_copy_Inr:
  assumes wo: "wf_array h other" and hk: "heap_ok h"
    and r: "Array_copy h other = Inr (h2, this)"
  shows "wf_array h2 this" "heap_ok h2"
    "element_count this = element_count other" "block_size this = block_size other"
    "set (data this) = {brk h..<brk h2}"
    "\<And>b. b < brk h \<Longrightarrow> blk h2 b = blk h b"
    "\<And>i. i < element_count other \<Longrightarrow> load h2 (slot this i) = load h (slot other i)"
    "avail h2 = avail h - length (data other)"
    "destroyed h2 = destroyed h" "spare_fresh h2 this"
proof -
  from r obtain h1 t1 where ab: "add_blocks (length (data other)) h
             \<lparr>data = [], block_size = block_size other, element_count = element_count other\<rparr>
             = Inr (h1, t1)"
    by (auto simp: Array_copy_def split: sum.splits)
  from Array_copy_steps[OF wo hk ab] r
  have "wf_array h2 this \<and> heap_ok h2 \<and>
           element_count this = element_count other \<and> block_size this = block_size other \<and>
           set (data this) = {brk h..<brk h2} \<and>
           (\<forall>b < brk h. blk h2 b = blk h b) \<and> avail h2 = avail h - length (data other) \<and>
           (\<forall>i < element_count other. load h2 (slot this i) = load h (slot other i)) \<and>
           destroyed h2 = destroyed h \<and> spare_fresh h2 this"
    by auto
  then show "wf_array h2 this" "heap_ok h2"
    "element_count this = element_count other" "block_size this = block_size other"
    "set (data this) = {brk h..<brk h2}"
    "\<And>b. b < brk h \<Longrightarrow> blk h2 b = blk h b"
    "\<And>i. i < element_count other \<Longrightarrow> load h2 (slot this i) = load h (slot other i)"
    "avail h2 = avail h - length (data other)"
    "destroyed h2 = destroyed h" "spare_fresh h2 this"
    by simp_all
qed

lemma Array_copy_succeeds:
  assumes wo: "wf_array h other" and hk: "heap_ok h" and av: "length (data other) \<le> avail h"
  shows "\<exists>h2 this. Array_copy h other = Inr (h2, this)"
proof -
  from add_blocks_succeeds[OF av] obtain h1 this where
    "add_blocks (length (data other)) h
             \<lparr>data = [], block_size = block_size other, element_count = element_count other\<rparr>
             = Inr (h1, this)" by blast
  from Array_copy_steps[OF wo hk this] show ?thesis by blast
qed

lemma wf_array_store:
  assumes wf: "wf_array h a" and i: "i < element_count a"
  shows "wf_array (store h (slot a i) (Some v)) a"
    and "\<And>j. j < element_count a \<Longrightarrow>
           load (store h (slot a i) (Some v)) (slot a j) = (if j = i then Some v else load h (slot a j))"
    and "\<And>b. b \<notin> set (data a) \<Longrightarrow> blk (store h (slot a i) (Some v)) b = blk h b"
proof -
  let ?h = "store h (slot a i) (Some v)"
  from wf i have cap: "i < length (data a) * block_size a" by (simp add: wf_array_def)
  from slot_valid[OF wf cap] obtain xs where
    xs: "blk h (fst (slot a i)) = Some xs" "snd (slot a i) < length xs" by blast
  show ld: "load ?h (slot a j) = (if j = i then Some v else load h (slot a j))"
    if "j < element_count a" for j
  proof -
    have "slot a j = slot a i \<longleftrightarrow> j = i"
      using wf_array_slot_inj[OF wf that i] by auto
    then show ?thesis using load_store[OF xs, of "Some v" "slot a j"] by simp
  qed
  show "blk ?h b = blk h b" if "b \<notin> set (data a)" for b
    using that slot_in_data[OF wf cap] by (intro blk_store_other) auto
  have "blocks_ok ?h a" using wf by (intro blocks_ok_store wf_array_blocks_ok)
  then show "wf_array ?h a"
    unfolding wf_array_alt using wf ld by (auto simp: wf_array_def)
qed

lemma dense_getId:
  assumes "nodes_dense w g" "s < Nodes_size g"
  shows "getSource_getId w (e\<lparr>edge_source := slot (nodes g) s\<rparr>) = Inr s"
    and "getTarget_getId w (e\<lparr>edge_target := slot (nodes g) s\<rparr>) = Inr s"
  using assms
  by (auto simp: nodes_dense_def node_at_def getSource_getId_def getTarget_getId_def)

lemma update_pointers_destroyed:
  fixes w :: "('n, 'e) world"
  shows "for_each (update_pointers_of g) js w = Inr w' \<Longrightarrow>
     destroyed (edge_heap w') = destroyed (edge_heap w)"
proof (induction js arbitrary: w)
  case Nil
  then show ?case by simp
next
  case (Cons j js)
  from Cons.prems obtain w1 where s: "update_pointers_of g j w = Inr w1"
    and r: "for_each (update_pointers_of g) js w1 = Inr w'"
    by (auto split: sum.splits)
  from s have "destroyed (edge_heap w1) = destroyed (edge_heap w)"
    by (auto simp: update_pointers_of_def split: sum.splits prod.splits)
  with Cons.IH[OF r] show ?case by simp
qed

lemma update_loop:
  fixes w :: "('n, 'e) world"
  assumes so: "stores_ok w g" and nd: "nodes_dense w g"
    and ed: "\<And>j. j < Edges_size g \<Longrightarrow> \<exists>e s t. edge_ids w g j e s t"
  shows "\<exists>w'. for_each (update_pointers_of g) [k..<Edges_size g] w = Inr w' \<and>
           node_heap w' = node_heap w \<and> row_avail w' = row_avail w \<and>
           brk (edge_heap w') = brk (edge_heap w) \<and> avail (edge_heap w') = avail (edge_heap w) \<and>
           (\<forall>b. b \<notin> set (data (edges g)) \<longrightarrow> blk (edge_heap w') b = blk (edge_heap w) b) \<and>
           wf_array (edge_heap w') (edges g) \<and>
           (\<forall>j. k \<le> j \<and> j < Edges_size g \<longrightarrow>
              (\<exists>e s t. edge_ids w g j e s t \<and>
                 edge_at w' g j = Some (e\<lparr>edge_source := slot (nodes g) s,
                                          edge_target := slot (nodes g) t\<rparr>))) \<and>
           (\<forall>j < k. j < Edges_size g \<longrightarrow> edge_at w' g j = edge_at w g j)"
  using so nd ed
proof (induction "Edges_size g - k" arbitrary: k w)
  case 0
  then have "[k..<Edges_size g] = []" and "Edges_size g \<le> k" by simp_all
  with 0(2) show ?case by (auto simp: stores_ok_def)
next
  case (Suc d)
  let ?m = "Edges_size g"
  from Suc.hyps(2) have km: "k < ?m" by simp
  then have up: "[k..<?m] = k # [Suc k..<?m]" by (simp add: upt_conv_Cons)
  note so = Suc.prems(1) and nd = Suc.prems(2) and ed = Suc.prems(3)
  from so have awf: "wf_array (edge_heap w) (edges g)" by (simp add: stores_ok_def)
  have kc: "k < element_count (edges g)" using km by (simp add: Edges_size_def size_of_def)
  from ed[OF km] obtain e s t where e: "edge_ids w g k e s t" by blast
  then have ea: "edge_at w g k = Some e" and gs: "getSource_getId w e = Inr s"
    and gt: "getTarget_getId w e = Inr t" and sn: "s < Nodes_size g" and tn: "t < Nodes_size g"
    by (simp_all add: edge_ids_def)
  let ?e' = "e\<lparr>edge_source := slot (nodes g) s, edge_target := slot (nodes g) t\<rparr>"
  let ?w1 = "w\<lparr>edge_heap := store (edge_heap w) (slot (edges g) k) (Some ?e')\<rparr>"
  from awf kc have cap: "k < length (data (edges g)) * block_size (edges g)"
    by (simp add: wf_array_def)
  have sok: "slot_ok (edges g) k"
    using blocks_ok_slot(3)[OF wf_array_blocks_ok[OF awf] cap] .
  have ei: "edges_index w g k = Inr (slot (edges g) k, e)"
    using kc sok ea by (simp add: edges_index_def get_elem_def edge_at_def)
  have step: "update_pointers_of g k w = Inr ?w1"
    using ei gs gt sn tn by (simp add: update_pointers_of_def Nodes_get_ok)
  note st = wf_array_store[OF awf kc, where v = ?e']
  have so1: "stores_ok ?w1 g"
    using so st(1) by (simp add: stores_ok_def heap_ok_store)
  have nd1: "nodes_dense ?w1 g" using nd by (simp add: nodes_dense_def node_at_def)
  have ea1: "edge_at ?w1 g j = (if j = k then Some ?e' else edge_at w g j)" if "j < ?m" for j
    using st(2)[of j] that by (simp add: edge_at_def Edges_size_def size_of_def)
  have ids1: "getSource_getId ?w1 x = getSource_getId w x"
    "getTarget_getId ?w1 x = getTarget_getId w x" for x :: "'e Edge"
    by (simp_all add: getSource_getId_def getTarget_getId_def)
  have e'ids: "edge_ids ?w1 g k ?e' s t"
    using ea1[OF km] dense_getId[OF nd sn, of ?e'] dense_getId[OF nd tn, of ?e'] sn tn
    by (simp add: edge_ids_def ids1 getSource_getId_def getTarget_getId_def)
  have ed1: "\<exists>e s t. edge_ids ?w1 g j e s t" if "j < ?m" for j
  proof (cases "j = k")
    case True with e'ids show ?thesis by blast
  next
    case False
    from ed[OF that] obtain x a b where "edge_ids w g j x a b" by blast
    with False ea1[OF that] have "edge_ids ?w1 g j x a b"
      by (simp add: edge_ids_def ids1 Nodes_size_def)
    then show ?thesis by blast
  qed
  have eq: "d = ?m - Suc k" using Suc.hyps(2) by simp
  from Suc.hyps(1)[OF eq so1 nd1 ed1] obtain w' where
    r: "for_each (update_pointers_of g) [Suc k..<?m] ?w1 = Inr w'"
    and p: "node_heap w' = node_heap ?w1" "row_avail w' = row_avail ?w1"
      "brk (edge_heap w') = brk (edge_heap ?w1)" "avail (edge_heap w') = avail (edge_heap ?w1)"
      "\<And>b. b \<notin> set (data (edges g)) \<Longrightarrow> blk (edge_heap w') b = blk (edge_heap ?w1) b"
      "wf_array (edge_heap w') (edges g)"
      "\<And>j. Suc k \<le> j \<Longrightarrow> j < ?m \<Longrightarrow>
         \<exists>e s t. edge_ids ?w1 g j e s t \<and>
            edge_at w' g j = Some (e\<lparr>edge_source := slot (nodes g) s,
                                     edge_target := slot (nodes g) t\<rparr>)"
      "\<And>j. j < Suc k \<Longrightarrow> j < ?m \<Longrightarrow> edge_at w' g j = edge_at ?w1 g j"
    by blast
  have "for_each (update_pointers_of g) [k..<?m] w = Inr w'"
    using step r by (simp add: up)
  moreover have "\<forall>b. b \<notin> set (data (edges g)) \<longrightarrow> blk (edge_heap w') b = blk (edge_heap w) b"
    using p(5) st(3) by simp
  moreover have "\<forall>j. k \<le> j \<and> j < ?m \<longrightarrow>
              (\<exists>e s t. edge_ids w g j e s t \<and>
                 edge_at w' g j = Some (e\<lparr>edge_source := slot (nodes g) s,
                                          edge_target := slot (nodes g) t\<rparr>))"
  proof (intro allI impI)
    fix j assume j: "k \<le> j \<and> j < ?m"
    show "\<exists>e s t. edge_ids w g j e s t \<and>
                 edge_at w' g j = Some (e\<lparr>edge_source := slot (nodes g) s,
                                          edge_target := slot (nodes g) t\<rparr>)"
    proof (cases "j = k")
      case True
      with p(8)[of k] km ea1[OF km] e show ?thesis by auto
    next
      case False
      with j have sj: "Suc k \<le> j" and jm: "j < ?m" by simp_all
      from p(7)[OF sj jm] obtain x a b where x: "edge_ids ?w1 g j x a b"
        "edge_at w' g j = Some (x\<lparr>edge_source := slot (nodes g) a,
                                     edge_target := slot (nodes g) b\<rparr>)" by blast
      from x(1) False ea1[OF jm] have "edge_ids w g j x a b"
        by (simp add: edge_ids_def ids1 Nodes_size_def)
      with x(2) show ?thesis by blast
    qed
  qed
  moreover have "\<forall>j < k. j < ?m \<longrightarrow> edge_at w' g j = edge_at w g j"
    using p(8) ea1 by simp
  ultimately show ?case using p(1-4,6) by simp
qed

lemma emplace_rows_eq:
  "emplace_rows i n k m =
     (if i \<le> k then (True, k - i, m @ replicate i (replicate n None))
      else (False, 0, m @ replicate k (replicate n None)))"
proof (induction i arbitrary: k m)
  case 0
  then show ?case by simp
next
  case (Suc i)
  show ?case
  proof (cases k)
    case 0
    then show ?thesis by simp
  next
    case (Suc k')
    then show ?thesis
      by (simp add: Suc.IH replicate_app_Cons_same)
  qed
qed

lemma matrix_set_added:
  assumes "length M = n" "\<forall>r \<in> set M. length r = n" "s < n" "t < n"
  shows "(case matrix_set M s t v of
            Inl x \<Rightarrow> Inl x
          | Inr m1 \<Rightarrow> if u then matrix_set m1 t s v else Inr m1) = Inr (added_cells u M s t v)"
proof -
  let ?m1 = "M[s := (M ! s)[t := v]]"
  have ms: "matrix_set M s t v = Inr ?m1" using assms by (simp add: matrix_set_def)
  have "length (?m1 ! t) = n" using assms by (cases "t = s") auto
  then have "matrix_set ?m1 t s v = Inr (?m1[t := (?m1 ! t)[s := v]])"
    using assms by (simp add: matrix_set_def)
  with ms show ?thesis by (simp add: added_cells_def Let_def)
qed

lemma place_loop:
  fixes w :: "('n, 'e) world" and S T :: "nat \<Rightarrow> nat"
  assumes awf: "wf_array (edge_heap w) (edges g)"
    and ids: "\<And>j. j < Edges_size g \<Longrightarrow> \<exists>e. edge_ids w g j e (S j) (T j)"
    and n: "n = Nodes_size g" and u: "u = is_undirected g"
    and P: "P = slot (edges g)"
    and inv: "cells_from u n P S T k M"
    and invB: "simple_edges u (Edges_size g) S T \<longrightarrow> edges_placed u P S T k M"
    and k: "k \<le> Edges_size g"
  shows "\<exists>M'. for_each (place_edge w g) [k..<Edges_size g] M = Inr M' \<and>
           cells_from u n P S T (Edges_size g) M' \<and>
           (simple_edges u (Edges_size g) S T \<longrightarrow> edges_placed u P S T (Edges_size g) M')"
  using inv invB k
proof (induction "Edges_size g - k" arbitrary: k M)
  case 0
  then have "[k..<Edges_size g] = []" and "k = Edges_size g" by simp_all
  with 0 show ?case by simp
next
  case (Suc d)
  let ?m = "Edges_size g"
  from Suc.hyps(2) have km: "k < ?m" by simp
  then have up: "[k..<?m] = k # [Suc k..<?m]" by (simp add: upt_conv_Cons)
  note inv = Suc.prems(1) and invB = Suc.prems(2)
  from inv have len: "length M = n" and rows: "\<forall>r \<in> set M. length r = n"
    unfolding cells_from_def by blast+
  from inv have cells: "\<And>a b p. a < n \<Longrightarrow> b < n \<Longrightarrow> M ! a ! b = Some p \<Longrightarrow>
        \<exists>j < k. p = P j \<and> (S j = a \<and> T j = b \<or> u \<and> T j = a \<and> S j = b)"
    unfolding cells_from_def by blast
  from ids[OF km] obtain e where e: "edge_ids w g k e (S k) (T k)" by blast
  then have ea: "edge_at w g k = Some e" and gs: "getSource_getId w e = Inr (S k)"
    and gt: "getTarget_getId w e = Inr (T k)" and sn: "S k < n" and tn: "T k < n"
    by (simp_all add: edge_ids_def n)
  have kc: "k < element_count (edges g)" using km by (simp add: Edges_size_def size_of_def)
  from awf kc have cap: "k < length (data (edges g)) * block_size (edges g)"
    by (simp add: wf_array_def)
  have sok: "slot_ok (edges g) k"
    using blocks_ok_slot(3)[OF wf_array_blocks_ok[OF awf] cap] .
  have ei: "edges_index w g k = Inr (P k, e)"
    using kc sok ea by (simp add: edges_index_def get_elem_def edge_at_def P)
  let ?M1 = "added_cells u M (S k) (T k) (Some (P k))"
  have "place_edge w g k M = Inr (added_cells (is_undirected g) M (S k) (T k) (Some (P k)))"
    using ei gs gt
      matrix_set_added[OF len rows sn tn, where v = "Some (P k)" and u = "is_undirected g"]
    by (simp add: place_edge_def)
  then have step: "place_edge w g k M = Inr ?M1" by (simp add: u)
  note hit = added_cells_hit[OF len rows sn tn, of u "Some (P k)"]
  note miss = added_cells_miss[OF len rows sn tn, of _ _ u "Some (P k)"]
  note shape = added_cells_shape[OF len rows, of u "S k" "T k" "Some (P k)"]
  have inv1: "cells_from u n P S T (Suc k) ?M1"
    unfolding cells_from_def
  proof (intro conjI allI impI)
    show "length ?M1 = n" "\<forall>r \<in> set ?M1. length r = n" using shape by simp_all
    fix a b p assume ab: "a < n" "b < n" and c: "?M1 ! a ! b = Some p"
    show "\<exists>j < Suc k. p = P j \<and> (S j = a \<and> T j = b \<or> u \<and> T j = a \<and> S j = b)"
    proof (cases "a = S k \<and> b = T k \<or> u \<and> a = T k \<and> b = S k")
      case True
      then have "?M1 ! a ! b = Some (P k)" using hit by auto
      with c have "p = P k" by simp
      with True show ?thesis by (intro exI[of _ k]) auto
    next
      case False
      then have "?M1 ! a ! b = M ! a ! b" by (intro miss[OF ab]) auto
      with c cells[OF ab] obtain j where "j < k" "p = P j"
        "S j = a \<and> T j = b \<or> u \<and> T j = a \<and> S j = b" by auto
      then show ?thesis by (intro exI[of _ j]) auto
    qed
  qed
  have invB1: "simple_edges u ?m S T \<longrightarrow> edges_placed u P S T (Suc k) ?M1"
  proof
    assume si: "simple_edges u ?m S T"
    with invB have B: "\<And>j. j < k \<Longrightarrow> M ! S j ! T j = Some (P j) \<and> (u \<longrightarrow> M ! T j ! S j = Some (P j))"
      by (simp add: edges_placed_def)
    show "edges_placed u P S T (Suc k) ?M1"
      unfolding edges_placed_def
    proof (intro allI impI)
      fix j assume j: "j < Suc k"
      show "?M1 ! S j ! T j = Some (P j) \<and> (u \<longrightarrow> ?M1 ! T j ! S j = Some (P j))"
      proof (cases "j = k")
        case True
        with hit show ?thesis by simp
      next
        case False
        with j have jk: "j < k" by simp
        with km have jm: "j < ?m" by simp
        from ids[OF jm] have sj: "S j < n" and tj: "T j < n" by (auto simp: edge_ids_def n)
        from si jm km False
        have d1: "\<not> (S j = S k \<and> T j = T k)" and d2: "\<not> (u \<and> S j = T k \<and> T j = S k)"
          unfolding simple_edges_def by blast+
        from si km jm False
        have d3: "\<not> (u \<and> S k = T j \<and> T k = S j)"
          unfolding simple_edges_def by (metis (no_types))
        have "?M1 ! S j ! T j = M ! S j ! T j"
          by (rule miss[OF sj tj]) (use d1 d2 in auto)
        moreover have "?M1 ! T j ! S j = M ! T j ! S j" if u
          by (rule miss[OF tj sj]) (use d1 d3 that in auto)
        ultimately show ?thesis using B[OF jk] by simp
      qed
    qed
  qed
  have eq: "d = ?m - Suc k" using Suc.hyps(2) by simp
  from Suc.hyps(1)[OF eq inv1 invB1] km obtain M' where
    "for_each (place_edge w g) [Suc k..<?m] ?M1 = Inr M'"
    "cells_from u n P S T ?m M'"
    "simple_edges u ?m S T \<longrightarrow> edges_placed u P S T ?m M'"
    by auto
  then show ?case using step by (auto simp: up)
qed

lemma edge_ids_id:
  "edge_ids w g j e s t \<Longrightarrow> s = source_id w g j \<and> t = target_id w g j"
  by (simp add: edge_ids_def source_id_def target_id_def)

lemma cells_from_empty: "cells_from u n P S T 0 (replicate n (replicate n None))"
  by (simp add: cells_from_def)

lemma edges_placed_empty: "edges_placed u P S T 0 M"
  by (simp add: edges_placed_def)

text \<open>Rebinding the pointers and rebuilding the matrix, for a graph whose containers hold
  the copied records.\<close>

lemma rebuild:
  fixes w :: "('n, 'e) world"
  assumes so: "stores_ok w g" and nd: "nodes_dense w g"
    and ed0: "\<forall>j < Edges_size g. \<exists>e s t. edge_ids w g j e s t"
    and up: "update_source_and_target_pointers w g = Inr w2"
    and co: "construct_adjacency_matrix w2 g = (Inr x, w3, g3)"
  shows "node_heap w3 = node_heap w" "edge_heap w3 = edge_heap w2"
    "brk (edge_heap w3) = brk (edge_heap w)" "avail (edge_heap w3) = avail (edge_heap w)"
    "\<And>b. b \<notin> set (data (edges g)) \<Longrightarrow> blk (edge_heap w3) b = blk (edge_heap w) b"
    "wf_array (edge_heap w3) (edges g)"
    "\<exists>M. g3 = g\<lparr>adjacency_matrix := M\<rparr> \<and>
         cells_from (is_undirected g) (Nodes_size g) (slot (edges g))
            (source_id w g) (target_id w g) (Edges_size g) M \<and>
         (simple_edges (is_undirected g) (Edges_size g) (source_id w g) (target_id w g) \<longrightarrow>
            edges_placed (is_undirected g) (slot (edges g))
              (source_id w g) (target_id w g) (Edges_size g) M)"
    "\<And>j. j < Edges_size g \<Longrightarrow>
       \<exists>e. edge_ids w g j e (source_id w g j) (target_id w g j) \<and>
           edge_at w3 g j = Some (e\<lparr>edge_source := slot (nodes g) (source_id w g j),
                                    edge_target := slot (nodes g) (target_id w g j)\<rparr>)"
    "Nodes_size g \<le> row_avail w" "row_avail w3 = row_avail w - Nodes_size g"
    "destroyed (edge_heap w3) = destroyed (edge_heap w)"
proof -
  let ?m = "Edges_size g" and ?n = "Nodes_size g" and ?u = "is_undirected g"
  let ?S = "source_id w g" and ?T = "target_id w g" and ?P = "slot (edges g)"
  have ed: "\<exists>e s t. edge_ids w g j e s t" if "j < Edges_size g" for j
    using ed0 that by blast
  from update_loop[OF so nd ed, of 0] up obtain
    p: "node_heap w2 = node_heap w" "row_avail w2 = row_avail w"
      "brk (edge_heap w2) = brk (edge_heap w)" "avail (edge_heap w2) = avail (edge_heap w)"
      "\<And>b. b \<notin> set (data (edges g)) \<Longrightarrow> blk (edge_heap w2) b = blk (edge_heap w) b"
      "wf_array (edge_heap w2) (edges g)"
      "\<And>j. j < ?m \<Longrightarrow>
         \<exists>e s t. edge_ids w g j e s t \<and>
            edge_at w2 g j = Some (e\<lparr>edge_source := slot (nodes g) s,
                                     edge_target := slot (nodes g) t\<rparr>)"
    unfolding update_source_and_target_pointers_def Edges_size_def[symmetric] by auto
  have e2: "\<exists>e. edge_ids w g j e (?S j) (?T j) \<and>
           edge_at w2 g j = Some (e\<lparr>edge_source := slot (nodes g) (?S j),
                                    edge_target := slot (nodes g) (?T j)\<rparr>)"
    if "j < ?m" for j
  proof -
    from p(7)[OF that] obtain e s t where "edge_ids w g j e s t"
      "edge_at w2 g j = Some (e\<lparr>edge_source := slot (nodes g) s,
                                     edge_target := slot (nodes g) t\<rparr>)" by blast
    with edge_ids_id[OF this(1)] show ?thesis by auto
  qed
  have nd2: "nodes_dense w2 g" using nd p(1) by (simp add: nodes_dense_def node_at_def)
  have ids2: "\<exists>e. edge_ids w2 g j e (?S j) (?T j)" if "j < ?m" for j
  proof -
    from e2[OF that] obtain e where e: "edge_ids w g j e (?S j) (?T j)"
      "edge_at w2 g j = Some (e\<lparr>edge_source := slot (nodes g) (?S j),
                                    edge_target := slot (nodes g) (?T j)\<rparr>)" by blast
    from e(1) have lt: "?S j < ?n" "?T j < ?n" by (simp_all add: edge_ids_def)
    let ?e = "e\<lparr>edge_source := slot (nodes g) (?S j), edge_target := slot (nodes g) (?T j)\<rparr>"
    have "getSource_getId w2 ?e = Inr (?S j)" "getTarget_getId w2 ?e = Inr (?T j)"
      using dense_getId[OF nd2 lt(1), of ?e] dense_getId[OF nd2 lt(2), of ?e]
      by (simp_all add: getSource_getId_def getTarget_getId_def)
    with e(2) lt have "edge_ids w2 g j ?e (?S j) (?T j)" by (simp add: edge_ids_def)
    then show ?thesis by blast
  qed
  have em: "emplace_rows ?n ?n (row_avail w2) [] =
      (if ?n \<le> row_avail w2 then (True, row_avail w2 - ?n, replicate ?n (replicate ?n None))
       else (False, 0, replicate (row_avail w2) (replicate ?n None)))"
    by (simp add: emplace_rows_eq)
  from co em have ra: "?n \<le> row_avail w2"
    by (auto simp: construct_adjacency_matrix_def Let_def split: if_splits)
  from place_loop[OF p(6) ids2 refl refl refl cells_from_empty _ le0]
    edges_placed_empty
  obtain M where M: "for_each (place_edge w2 g) [0..<?m] (replicate ?n (replicate ?n None)) = Inr M"
    "cells_from ?u ?n ?P ?S ?T ?m M"
    "simple_edges ?u ?m ?S ?T \<longrightarrow> edges_placed ?u ?P ?S ?T ?m M"
    by blast
  from co em ra M(1) have w3: "w3 = w2\<lparr>row_avail := row_avail w2 - ?n\<rparr>"
    and g3: "g3 = g\<lparr>adjacency_matrix := M\<rparr>"
    by (simp_all add: construct_adjacency_matrix_def Let_def Edges_size_def)
  show "node_heap w3 = node_heap w" "edge_heap w3 = edge_heap w2"
    "brk (edge_heap w3) = brk (edge_heap w)" "avail (edge_heap w3) = avail (edge_heap w)"
    "wf_array (edge_heap w3) (edges g)"
    "Nodes_size g \<le> row_avail w" "row_avail w3 = row_avail w - Nodes_size g"
    using p ra by (simp_all add: w3)
  show "blk (edge_heap w3) b = blk (edge_heap w) b" if "b \<notin> set (data (edges g))" for b
    using p(5)[OF that] by (simp add: w3)
  show "destroyed (edge_heap w3) = destroyed (edge_heap w)"
    using update_pointers_destroyed[OF up[unfolded update_source_and_target_pointers_def]]
    by (simp add: w3)
  show "\<exists>M. g3 = g\<lparr>adjacency_matrix := M\<rparr> \<and> cells_from ?u ?n ?P ?S ?T ?m M \<and>
         (simple_edges ?u ?m ?S ?T \<longrightarrow> edges_placed ?u ?P ?S ?T ?m M)"
    using g3 M(2,3) by blast
  show "\<exists>e. edge_ids w g j e (?S j) (?T j) \<and>
           edge_at w3 g j = Some (e\<lparr>edge_source := slot (nodes g) (?S j),
                                    edge_target := slot (nodes g) (?T j)\<rparr>)"
    if "j < ?m" for j
    using e2[OF that] by (simp add: w3 edge_at_def)
qed

lemma rebuild_succeeds:
  fixes w :: "('n, 'e) world"
  assumes so: "stores_ok w g" and nd: "nodes_dense w g"
    and ed0: "\<forall>j < Edges_size g. \<exists>e s t. edge_ids w g j e s t"
    and ra: "Nodes_size g \<le> row_avail w"
  shows "\<exists>w2 w3 g3. update_source_and_target_pointers w g = Inr w2 \<and>
           construct_adjacency_matrix w2 g = (Inr (), w3, g3)"
proof -
  let ?m = "Edges_size g" and ?n = "Nodes_size g" and ?u = "is_undirected g"
  let ?S = "source_id w g" and ?T = "target_id w g" and ?P = "slot (edges g)"
  have ed: "\<exists>e s t. edge_ids w g j e s t" if "j < Edges_size g" for j
    using ed0 that by blast
  from update_loop[OF so nd ed, of 0] obtain w2 where
    up: "update_source_and_target_pointers w g = Inr w2"
    and p: "node_heap w2 = node_heap w" "row_avail w2 = row_avail w"
      "wf_array (edge_heap w2) (edges g)"
      "\<And>j. j < ?m \<Longrightarrow>
         \<exists>e s t. edge_ids w g j e s t \<and>
            edge_at w2 g j = Some (e\<lparr>edge_source := slot (nodes g) s,
                                     edge_target := slot (nodes g) t\<rparr>)"
    unfolding update_source_and_target_pointers_def Edges_size_def[symmetric] by auto
  have nd2: "nodes_dense w2 g" using nd p(1) by (simp add: nodes_dense_def node_at_def)
  have ids2: "\<exists>e. edge_ids w2 g j e (?S j) (?T j)" if "j < ?m" for j
  proof -
    from p(4)[OF that] obtain e s t where e: "edge_ids w g j e s t"
      "edge_at w2 g j = Some (e\<lparr>edge_source := slot (nodes g) s,
                                    edge_target := slot (nodes g) t\<rparr>)" by blast
    from edge_ids_id[OF e(1)] have st: "s = ?S j" "t = ?T j" by simp_all
    from e(1) have lt: "?S j < ?n" "?T j < ?n" by (simp_all add: edge_ids_def st)
    let ?e = "e\<lparr>edge_source := slot (nodes g) (?S j), edge_target := slot (nodes g) (?T j)\<rparr>"
    have "getSource_getId w2 ?e = Inr (?S j)" "getTarget_getId w2 ?e = Inr (?T j)"
      using dense_getId[OF nd2 lt(1), of ?e] dense_getId[OF nd2 lt(2), of ?e]
      by (simp_all add: getSource_getId_def getTarget_getId_def)
    with e(2) lt have "edge_ids w2 g j ?e (?S j) (?T j)" by (simp add: edge_ids_def st)
    then show ?thesis by blast
  qed
  from place_loop[OF p(3) ids2 refl refl refl cells_from_empty _ le0]
    edges_placed_empty
  obtain M where M: "for_each (place_edge w2 g) [0..<?m] (replicate ?n (replicate ?n None)) = Inr M"
    by blast
  have "construct_adjacency_matrix w2 g =
      (Inr (), w2\<lparr>row_avail := row_avail w2 - ?n\<rparr>, g\<lparr>adjacency_matrix := M\<rparr>)"
    using ra p(2) M by (simp add: construct_adjacency_matrix_def Let_def emplace_rows_eq Edges_size_def)
  with up show ?thesis by blast
qed

lemma load_cong_block: "blk h' (fst p) = blk h (fst p) \<Longrightarrow> load h' p = load h p"
  by (simp add: load_def)

lemma untouchedI:
  assumes "\<And>b. b \<in> set (data (nodes g)) \<Longrightarrow> blk (node_heap w') b = blk (node_heap w) b"
    "\<And>b. b \<in> set (data (edges g)) \<Longrightarrow> blk (edge_heap w') b = blk (edge_heap w) b"
    "\<And>p. fst p \<in> set (data (nodes g)) \<Longrightarrow>
       p \<in> destroyed (node_heap w') \<longleftrightarrow> p \<in> destroyed (node_heap w)"
    "\<And>p. fst p \<in> set (data (edges g)) \<Longrightarrow>
       p \<in> destroyed (edge_heap w') \<longleftrightarrow> p \<in> destroyed (edge_heap w)"
  shows "untouched g w w'"
  unfolding untouched_def using assms by blast

lemma untouched_blk:
  assumes "untouched g w w'"
  shows "b \<in> set (data (nodes g)) \<Longrightarrow> blk (node_heap w') b = blk (node_heap w) b"
    and "b \<in> set (data (edges g)) \<Longrightarrow> blk (edge_heap w') b = blk (edge_heap w) b"
  using assms unfolding untouched_def by blast+

lemma untouched_destroyed:
  assumes "untouched g w w'"
  shows "fst p \<in> set (data (nodes g)) \<Longrightarrow>
       p \<in> destroyed (node_heap w') \<longleftrightarrow> p \<in> destroyed (node_heap w)"
    and "fst p \<in> set (data (edges g)) \<Longrightarrow>
       p \<in> destroyed (edge_heap w') \<longleftrightarrow> p \<in> destroyed (edge_heap w)"
  using assms unfolding untouched_def by blast+

lemma spare_fresh_frame:
  assumes "wf_array h a" "spare_fresh h a"
    "\<And>p. fst p \<in> set (data a) \<Longrightarrow> p \<in> destroyed h' \<longleftrightarrow> p \<in> destroyed h"
  shows "spare_fresh h' a"
  unfolding spare_fresh_def
proof (intro allI impI)
  fix i assume i: "element_count a \<le> i \<and> i < length (data a) * block_size a"
  then have "fst (slot a i) \<in> set (data a)" using slot_in_data[OF assms(1)] by simp
  from assms(3)[OF this] assms(2) i show "slot a i \<notin> destroyed h'"
    by (simp add: spare_fresh_def)
qed

lemma untouched_at:
  assumes so: "stores_ok w g" and un: "untouched g w w'"
  shows "i < Nodes_size g \<Longrightarrow> node_at w' g i = node_at w g i"
    and "j < Edges_size g \<Longrightarrow> edge_at w' g j = edge_at w g j"
proof -
  from so have nwf: "wf_array (node_heap w) (nodes g)" and ewf: "wf_array (edge_heap w) (edges g)"
    by (simp_all add: stores_ok_def)
  show "node_at w' g i = node_at w g i" if "i < Nodes_size g"
  proof -
    from that nwf have "i < length (data (nodes g)) * block_size (nodes g)"
      by (simp add: wf_array_def Nodes_size_def size_of_def)
    from slot_in_data[OF nwf this] untouched_blk(1)[OF un] show ?thesis
      unfolding node_at_def by (intro load_cong_block) simp
  qed
  show "edge_at w' g j = edge_at w g j" if "j < Edges_size g"
  proof -
    from that ewf have "j < length (data (edges g)) * block_size (edges g)"
      by (simp add: wf_array_def Edges_size_def size_of_def)
    from slot_in_data[OF ewf this] untouched_blk(2)[OF un] show ?thesis
      unfolding edge_at_def by (intro load_cong_block) simp
  qed
qed

lemma wf_graph_frame:
  assumes wf: "wf_graph w g" and un: "untouched g w w'"
    and hk: "heap_ok (node_heap w')" "heap_ok (edge_heap w')"
  shows "wf_graph w' g"
proof -
  from wf have so: "stores_ok w g" and mo: "matrix_ok g" and nd: "nodes_dense w g"
    and eo: "\<And>j. j < Edges_size g \<Longrightarrow> edge_ok w g j"
    and co: "\<And>s t. s < Nodes_size g \<Longrightarrow> t < Nodes_size g \<Longrightarrow> cell_ok w g s t"
    by (simp_all add: wf_graph_def)
  note at = untouched_at[OF so un]
  from so untouched_blk[OF un]
  have "wf_array (node_heap w') (nodes g)" "wf_array (edge_heap w') (edges g)"
    unfolding stores_ok_def by (auto intro: wf_array_cong)
  with hk have "stores_ok w' g" by (simp add: stores_ok_def)
  moreover have "spare_fresh (edge_heap w') (edges g)"
    using spare_fresh_frame[of "edge_heap w" "edges g" "edge_heap w'"] wf so
      untouched_destroyed(2)[OF un]
    by (simp add: wf_graph_def stores_ok_def)
  moreover have "nodes_dense w' g" using nd at(1) by (simp add: nodes_dense_def)
  moreover have "edge_ok w' g j" if "j < Edges_size g" for j
    using eo[OF that] at(2)[OF that] by (simp add: edge_ok_def)
  moreover have "cell_ok w' g s t" if "s < Nodes_size g" "t < Nodes_size g" for s t
    using co[OF that] at(2) unfolding cell_ok_def by (metis (no_types, lifting))
  ultimately show ?thesis using mo by (simp add: wf_graph_def)
qed

lemma wf_edge:
  assumes wf: "wf_graph w g" and j: "j < Edges_size g"
  obtains e where "edge_ids w g j e (source_id w g j) (target_id w g j)" "edge_id e = j"
    "edge_source e = slot (nodes g) (source_id w g j)"
    "edge_target e = slot (nodes g) (target_id w g j)"
    "adjacency_matrix g ! source_id w g j ! target_id w g j = Some (slot (edges g) j)"
    "is_undirected g \<longrightarrow>
       adjacency_matrix g ! target_id w g j ! source_id w g j = Some (slot (edges g) j)"
proof -
  from wf have nd: "nodes_dense w g" by (simp add: wf_graph_def)
  from edge_cell[OF wf j] obtain e s t where e: "edge_at w g j = Some e" "edge_id e = j"
    "s < Nodes_size g" "t < Nodes_size g"
    "edge_source e = slot (nodes g) s" "edge_target e = slot (nodes g) t"
    "adjacency_matrix g ! s ! t = Some (slot (edges g) j)"
    "is_undirected g \<longrightarrow> adjacency_matrix g ! t ! s = Some (slot (edges g) j)"
    by blast
  have "getSource_getId w e = Inr s" "getTarget_getId w e = Inr t"
    using dense_getId[OF nd e(3), of e] dense_getId[OF nd e(4), of e] e(5,6)
    by (simp_all add: getSource_getId_def getTarget_getId_def)
  with e have ids: "edge_ids w g j e s t" by (simp add: edge_ids_def)
  from edge_ids_id[OF ids] have "s = source_id w g j" "t = target_id w g j" by simp_all
  with ids e show thesis by (intro that[of e]) simp_all
qed

lemma wf_simple:
  assumes wf: "wf_graph w g"
  shows "simple_edges (is_undirected g) (Edges_size g) (source_id w g) (target_id w g)"
  unfolding simple_edges_def
proof (intro allI impI)
  fix j j' assume j: "j < Edges_size g" and j': "j' < Edges_size g" and ne: "j \<noteq> j'"
  from wf have so: "stores_ok w g" by (simp add: wf_graph_def)
  from wf_edge[OF wf j] have a: 
    "adjacency_matrix g ! source_id w g j ! target_id w g j = Some (slot (edges g) j)" by metis
  from wf_edge[OF wf j'] have b:
    "adjacency_matrix g ! source_id w g j' ! target_id w g j' = Some (slot (edges g) j')"
    "is_undirected g \<longrightarrow>
       adjacency_matrix g ! target_id w g j' ! source_id w g j' = Some (slot (edges g) j')"
    by metis+
  have d: "slot (edges g) j \<noteq> slot (edges g) j'"
    using edge_slot_inj[OF so j j'] ne by blast
  show "\<not> (source_id w g j = source_id w g j' \<and> target_id w g j = target_id w g j') \<and>
        \<not> (is_undirected g \<and> source_id w g j = target_id w g j' \<and>
           target_id w g j = source_id w g j')"
    using a b d by auto
qed

lemma Edges_get_id_ok: "j < Edges_size g \<Longrightarrow> Edges_get_id g j = Inr (slot (edges g) j)"
  by (simp add: Edges_get_id_def Edges_exists_id_def get_elem_def Edges_size_def size_of_def)

lemma stores_slot_owned:
  assumes "stores_ok w g"
  shows "i < Nodes_size g \<Longrightarrow> owns (nodes g) (slot (nodes g) i)"
    and "j < Edges_size g \<Longrightarrow> owns (edges g) (slot (edges g) j)"
proof -
  from assms have nwf: "wf_array (node_heap w) (nodes g)" and ewf: "wf_array (edge_heap w) (edges g)"
    by (simp_all add: stores_ok_def)
  show "owns (nodes g) (slot (nodes g) i)" if "i < Nodes_size g"
  proof -
    from that nwf have "i < length (data (nodes g)) * block_size (nodes g)"
      by (simp add: wf_array_def Nodes_size_def size_of_def)
    from slot_in_data[OF nwf this] show ?thesis by (simp add: owns_def)
  qed
  show "owns (edges g) (slot (edges g) j)" if "j < Edges_size g"
  proof -
    from that ewf have "j < length (data (edges g)) * block_size (edges g)"
      by (simp add: wf_array_def Edges_size_def size_of_def)
    from slot_in_data[OF ewf this] show ?thesis by (simp add: owns_def)
  qed
qed

lemma rebuild_copy:
  fixes w :: "('n, 'e) world"
  assumes wfG: "wf_graph w G"
    and so1: "stores_ok w1 this"
    and szn: "Nodes_size this = Nodes_size G" and sze: "Edges_size this = Edges_size G"
    and cpn0: "\<forall>i < Nodes_size G. node_at w1 this i = node_at w G i"
    and cpe0: "\<forall>j < Edges_size G. edge_at w1 this j = edge_at w G j"
    and keepn0: "\<forall>i < Nodes_size G. node_at w1 G i = node_at w G i"
    and sepn: "set (data (nodes this)) \<inter> set (data (nodes G)) = {}"
    and sepe: "set (data (edges this)) \<inter> set (data (edges G)) = {}"
    and up: "update_source_and_target_pointers w1 this = Inr w2"
    and co: "construct_adjacency_matrix w2 this = (Inr x, w3, g3)"
  shows "copy_fidelity w G w3 g3"
    and "node_heap w3 = node_heap w1"
    and "\<And>b. b \<notin> set (data (edges this)) \<Longrightarrow> blk (edge_heap w3) b = blk (edge_heap w1) b"
    and "brk (edge_heap w3) = brk (edge_heap w1)"
    and "(is_undirected this \<longrightarrow> is_undirected G) \<Longrightarrow>
         spare_fresh (edge_heap w1) (edges this) \<Longrightarrow> wf_graph w3 g3"
    and "nodes g3 = nodes this" "edges g3 = edges this" "is_undirected g3 = is_undirected this"
    and "destroyed (edge_heap w3) = destroyed (edge_heap w1)"
proof -
  let ?n = "Nodes_size G" and ?m = "Edges_size G"
  have cpn: "node_at w1 this i = node_at w G i" if "i < Nodes_size G" for i
    using cpn0 that by blast
  have cpe: "edge_at w1 this j = edge_at w G j" if "j < Edges_size G" for j
    using cpe0 that by blast
  have keepn: "node_at w1 G i = node_at w G i" if "i < Nodes_size G" for i
    using keepn0 that by blast
  from wfG have soG: "stores_ok w G" and ndG: "nodes_dense w G" by (simp_all add: wf_graph_def)
  have nd1: "nodes_dense w1 this"
    using ndG cpn by (simp add: nodes_dense_def szn)
  have ed1: "\<exists>e. edge_ids w1 this j e (source_id w G j) (target_id w G j) \<and>
                  edge_ids w G j e (source_id w G j) (target_id w G j) \<and> edge_id e = j"
    if "j < ?m" for j
  proof -
    from wf_edge[OF wfG that] obtain e where
      e: "edge_ids w G j e (source_id w G j) (target_id w G j)" "edge_id e = j"
        "edge_source e = slot (nodes G) (source_id w G j)"
        "edge_target e = slot (nodes G) (target_id w G j)" by metis
    from e(1) have lt: "source_id w G j < ?n" "target_id w G j < ?n"
      and ea: "edge_at w G j = Some e"
      and g: "getSource_getId w e = Inr (source_id w G j)"
         "getTarget_getId w e = Inr (target_id w G j)"
      by (simp_all add: edge_ids_def)
    have "getSource_getId w1 e = getSource_getId w e"
      using keepn[OF lt(1)] e(3) by (simp add: getSource_getId_def node_at_def)
    moreover have "getTarget_getId w1 e = getTarget_getId w e"
      using keepn[OF lt(2)] e(4) by (simp add: getTarget_getId_def node_at_def)
    ultimately have "edge_ids w1 this j e (source_id w G j) (target_id w G j)"
      using cpe[OF that] ea g lt by (simp add: edge_ids_def szn)
    with e show ?thesis by blast
  qed
  have ed1': "\<forall>j < Edges_size this. \<exists>e s t. edge_ids w1 this j e s t"
    unfolding sze using ed1 by blast
  have S1: "source_id w1 this j = source_id w G j" "target_id w1 this j = target_id w G j"
    if "j < ?m" for j
    using ed1[OF that] edge_ids_id by metis+
  note rb = rebuild[OF so1 nd1 ed1' up co]
  from rb(7) obtain M where g3: "g3 = this\<lparr>adjacency_matrix := M\<rparr>"
    and cf: "cells_from (is_undirected this) (Nodes_size this) (slot (edges this))
            (source_id w1 this) (target_id w1 this) (Edges_size this) M"
    and ep: "simple_edges (is_undirected this) (Edges_size this) (source_id w1 this) (target_id w1 this) \<longrightarrow>
            edges_placed (is_undirected this) (slot (edges this))
              (source_id w1 this) (target_id w1 this) (Edges_size this) M"
    by blast
  show "node_heap w3 = node_heap w1" "brk (edge_heap w3) = brk (edge_heap w1)"
    "destroyed (edge_heap w3) = destroyed (edge_heap w1)"
    using rb(1,3,11) by simp_all
  show "blk (edge_heap w3) b = blk (edge_heap w1) b" if "b \<notin> set (data (edges this))" for b
    using rb(5)[OF that] .
  show "nodes g3 = nodes this" "edges g3 = edges this" "is_undirected g3 = is_undirected this"
    by (simp_all add: g3)
  have ns3: "Nodes_size g3 = ?n" and es3: "Edges_size g3 = ?m"
    by (simp_all add: g3 Nodes_size_def Edges_size_def szn[unfolded Nodes_size_def]
        sze[unfolded Edges_size_def])
  have na3: "node_at w3 g3 i = node_at w G i" if "i < ?n" for i
    using cpn[OF that] rb(1) by (simp add: node_at_def g3)
  have nd3: "nodes_dense w3 g3"
    using ndG na3 by (simp add: nodes_dense_def ns3)
  have so3: "stores_ok w3 g3"
  proof -
    from so1 have h1: "heap_ok (node_heap w1)" "heap_ok (edge_heap w1)"
      "wf_array (node_heap w1) (nodes this)" "wf_array (edge_heap w1) (edges this)"
      by (simp_all add: stores_ok_def)
    have "heap_ok (edge_heap w3)"
    proof (rule heap_okI)
      fix b assume b: "brk (edge_heap w3) \<le> b"
      then have "brk (edge_heap w1) \<le> b" by (simp add: rb(3))
      then have n1: "blk (edge_heap w1) b = None" using h1(2) by (simp add: heap_ok_def)
      have "b \<notin> set (data (edges this))"
        using wf_array_allocated[OF h1(4) h1(2), of b] \<open>brk (edge_heap w1) \<le> b\<close> by auto
      from rb(5)[OF this] n1 show "blk (edge_heap w3) b = None" by simp
    next
      fix q assume "q \<in> destroyed (edge_heap w3)"
      then show "fst q < brk (edge_heap w3)"
        using heap_ok_destroyed[OF h1(2), of q] by (simp add: rb(3,11))
    qed
    with h1 rb(1,6) show ?thesis by (simp add: stores_ok_def g3)
  qed
  have e3: "\<exists>e. edge_ids w G j e (source_id w G j) (target_id w G j) \<and> edge_id e = j \<and>
        edge_at w3 g3 j = Some (e\<lparr>edge_source := slot (nodes this) (source_id w G j),
                                   edge_target := slot (nodes this) (target_id w G j)\<rparr>)"
    if "j < ?m" for j
  proof -
    from that sze have j': "j < Edges_size this" by simp
    from rb(8)[OF j'] obtain e where
      e: "edge_ids w1 this j e (source_id w1 this j) (target_id w1 this j)"
        "edge_at w3 this j = Some (e\<lparr>edge_source := slot (nodes this) (source_id w1 this j),
                                    edge_target := slot (nodes this) (target_id w1 this j)\<rparr>)"
      by blast
    from ed1[OF that] obtain e' where
      e': "edge_ids w1 this j e' (source_id w G j) (target_id w G j)"
        "edge_ids w G j e' (source_id w G j) (target_id w G j)" "edge_id e' = j" by blast
    from e(1) e'(1) have "e' = e" by (simp add: edge_ids_def)
    with e e' S1[OF that] show ?thesis by (auto simp: g3 edge_at_def)
  qed
  have view3: "\<exists>s t d e.
        edge_view w G j = Some (j, s, t, d) \<and> edge_view w3 g3 j = Some (j, s, t, d) \<and>
        edge_at w3 g3 j = Some e \<and>
        Nodes_get g3 s = Inr (edge_source e) \<and> Nodes_get g3 t = Inr (edge_target e) \<and>
        owns (nodes g3) (edge_source e) \<and> owns (nodes g3) (edge_target e) \<and>
        \<not> owns (nodes G) (edge_source e) \<and> \<not> owns (nodes G) (edge_target e)"
    if "j < ?m" for j
  proof -
    let ?s = "source_id w G j" and ?t = "target_id w G j"
    from e3[OF that] obtain e where e: "edge_ids w G j e ?s ?t" "edge_id e = j"
      "edge_at w3 g3 j = Some (e\<lparr>edge_source := slot (nodes this) ?s,
                                   edge_target := slot (nodes this) ?t\<rparr>)" by blast
    let ?e = "e\<lparr>edge_source := slot (nodes this) ?s, edge_target := slot (nodes this) ?t\<rparr>"
    from e(1) have lt: "?s < ?n" "?t < ?n" by (simp_all add: edge_ids_def)
    have lt3: "?s < Nodes_size g3" "?t < Nodes_size g3" using lt ns3 by simp_all
    have v0: "edge_view w G j = Some (j, ?s, ?t, edge_data e)"
      using e(1,2) by (simp add: edge_view_def edge_ids_def)
    have gi: "getSource_getId w3 ?e = Inr ?s" "getTarget_getId w3 ?e = Inr ?t"
      using dense_getId[OF nd3 lt3(1), of ?e] dense_getId[OF nd3 lt3(2), of ?e]
      by (simp_all add: getSource_getId_def getTarget_getId_def g3)
    have v3: "edge_view w3 g3 j = Some (j, ?s, ?t, edge_data e)"
      using e(2,3) gi by (simp add: edge_view_def)
    have ng: "Nodes_get g3 ?s = Inr (edge_source ?e)" "Nodes_get g3 ?t = Inr (edge_target ?e)"
      using Nodes_get_ok[OF lt3(1)] Nodes_get_ok[OF lt3(2)] by (simp_all add: g3)
    have ow: "owns (nodes g3) (edge_source ?e)" "owns (nodes g3) (edge_target ?e)"
      using stores_slot_owned(1)[OF so3 lt3(1)] stores_slot_owned(1)[OF so3 lt3(2)]
      by (simp_all add: g3)
    then have nw: "\<not> owns (nodes G) (edge_source ?e)" "\<not> owns (nodes G) (edge_target ?e)"
      using sepn by (auto simp: owns_def g3)
    show ?thesis
      apply (rule exI[of _ ?s], rule exI[of _ ?t], rule exI[of _ "edge_data e"], rule exI[of _ ?e])
      using v0 v3 e(3) ng ow nw by simp
  qed
  from cf have cells: "\<And>a b p. a < ?n \<Longrightarrow> b < ?n \<Longrightarrow> M ! a ! b = Some p \<Longrightarrow>
        \<exists>j < ?m. p = slot (edges this) j \<and>
           (source_id w1 this j = a \<and> target_id w1 this j = b \<or>
            is_undirected this \<and> target_id w1 this j = a \<and> source_id w1 this j = b)"
    unfolding cells_from_def szn sze by blast
  from cf have shape: "length M = ?n" "\<forall>r \<in> set M. length r = ?n"
    unfolding cells_from_def szn by blast+
  have cellv: "(\<exists>j < Edges_size g3. Edges_get_id g3 j = Inr p) \<and>
          owns (edges g3) p \<and> \<not> owns (edges G) p"
    if "a < ?n" "b < ?n" "adjacency_matrix g3 ! a ! b = Some p" for a b p
  proof -
    from that(3) have "M ! a ! b = Some p" by (simp add: g3)
    from cells[OF that(1,2) this] obtain j where j: "j < ?m" "p = slot (edges this) j" by blast
    then have j3: "j < Edges_size g3" by (simp add: es3)
    have "Edges_get_id g3 j = Inr p" using Edges_get_id_ok[OF j3] j(2) by (simp add: g3)
    moreover have ow: "owns (edges g3) p"
      using stores_slot_owned(2)[OF so3 j3] j(2) by (simp add: g3)
    moreover have "\<not> owns (edges G) p" using ow sepe by (auto simp: owns_def g3)
    ultimately show ?thesis using j3 by blast
  qed
  show "copy_fidelity w G w3 g3"
    unfolding copy_fidelity_def ns3 es3
  proof (intro conjI allI impI)
    fix i assume i: "i < ?n"
    from ndG i obtain n where "node_at w G i = Some n" "node_id n = i"
      by (auto simp: nodes_dense_def)
    with na3[OF i]
    show "\<exists>d. node_view w G i = Some (i, d) \<and> node_view w3 g3 i = Some (i, d)"
      by (simp add: node_view_def)
  next
    fix j assume "j < ?m"
    from view3[OF this]
    show "\<exists>s t d e.
        edge_view w G j = Some (j, s, t, d) \<and> edge_view w3 g3 j = Some (j, s, t, d) \<and>
        edge_at w3 g3 j = Some e \<and>
        Nodes_get g3 s = Inr (edge_source e) \<and> Nodes_get g3 t = Inr (edge_target e) \<and>
        owns (nodes g3) (edge_source e) \<and> owns (nodes g3) (edge_target e) \<and>
        \<not> owns (nodes G) (edge_source e) \<and> \<not> owns (nodes G) (edge_target e)" .
  next
    fix s t p assume "s < ?n" "t < ?n" "adjacency_matrix g3 ! s ! t = Some p"
    from cellv[OF this]
    show "\<exists>j < ?m. Edges_get_id g3 j = Inr p" "owns (edges g3) p" "\<not> owns (edges G) p"
      by (simp_all add: es3)
  qed simp_all
  show "wf_graph w3 g3" if u: "is_undirected this \<longrightarrow> is_undirected G"
    and sp1: "spare_fresh (edge_heap w1) (edges this)"
  proof -
    from wf_simple[OF wfG]
    have "simple_edges (is_undirected this) ?m (source_id w G) (target_id w G)"
      using u unfolding simple_edges_def by blast
    then have "simple_edges (is_undirected this) (Edges_size this)
        (source_id w1 this) (target_id w1 this)"
      unfolding simple_edges_def sze using S1 by simp
    with ep have pl: "\<And>j. j < ?m \<Longrightarrow>
        M ! source_id w1 this j ! target_id w1 this j = Some (slot (edges this) j) \<and>
        (is_undirected this \<longrightarrow>
           M ! target_id w1 this j ! source_id w1 this j = Some (slot (edges this) j))"
      unfolding edges_placed_def sze by blast
    have mo3: "matrix_ok g3" unfolding matrix_ok_def ns3 using shape by (simp add: g3)
    have "edge_ok w3 g3 j" if j: "j < ?m" for j
    proof -
      let ?s = "source_id w G j" and ?t = "target_id w G j"
      from e3[OF j] obtain e where e: "edge_ids w G j e ?s ?t" "edge_id e = j"
        "edge_at w3 g3 j = Some (e\<lparr>edge_source := slot (nodes this) ?s,
                                   edge_target := slot (nodes this) ?t\<rparr>)" by blast
      let ?e = "e\<lparr>edge_source := slot (nodes this) ?s, edge_target := slot (nodes this) ?t\<rparr>"
      from e(1) have lt: "?s < ?n" "?t < ?n" by (simp_all add: edge_ids_def)
      show ?thesis
        unfolding edge_ok_def ns3
        apply (rule exI[of _ ?e], rule exI[of _ ?s], rule exI[of _ ?t])
        using e(2,3) lt pl[OF j] S1[OF j] by (simp add: g3)
    qed
    moreover have "cell_ok w3 g3 a b" if ab: "a < ?n" "b < ?n" for a b
      unfolding cell_ok_def
    proof (intro allI impI)
      fix p assume "adjacency_matrix g3 ! a ! b = Some p"
      then have "M ! a ! b = Some p" by (simp add: g3)
      from cells[OF ab this] obtain j where j: "j < ?m" "p = slot (edges this) j"
        "source_id w1 this j = a \<and> target_id w1 this j = b \<or>
            is_undirected this \<and> target_id w1 this j = a \<and> source_id w1 this j = b" by blast
      from e3[OF j(1)] obtain e where e: 
        "edge_at w3 g3 j = Some (e\<lparr>edge_source := slot (nodes this) (source_id w G j),
                                   edge_target := slot (nodes this) (target_id w G j)\<rparr>)" by blast
      show "\<exists>j<Edges_size g3. \<exists>e. p = slot (edges g3) j \<and> edge_at w3 g3 j = Some e \<and>
             (edge_source e = slot (nodes g3) a \<and> edge_target e = slot (nodes g3) b \<or>
              is_undirected g3 \<and> edge_source e = slot (nodes g3) b \<and>
              edge_target e = slot (nodes g3) a)"
        unfolding es3
        apply (rule exI[of _ j], rule conjI, rule j(1))
        apply (rule exI[of _ "e\<lparr>edge_source := slot (nodes this) (source_id w G j),
                                   edge_target := slot (nodes this) (target_id w G j)\<rparr>"])
        using j(2,3) e S1[OF j(1)] by (auto simp: g3)
    qed
    moreover have "spare_fresh (edge_heap w3) (edges g3)"
      using sp1 by (simp add: spare_fresh_def rb(11) g3)
    ultimately show ?thesis
      unfolding wf_graph_def using so3 mo3 nd3 by (simp add: ns3 es3)
  qed
qed

lemma Graph_copy_ok:
  fixes w :: "('n, 'e) world"
  assumes wfG: "wf_graph w G" and r: "Graph_copy w G = Inr (w', C)"
  shows "copy_fidelity w G w' C" "wf_graph w' C" "untouched G w w'" "wf_graph w' G"
    "is_undirected C = is_undirected G"
    "set (data (nodes C)) \<inter> set (data (nodes G)) = {}"
    "set (data (edges C)) \<inter> set (data (edges G)) = {}"
proof -
  from wfG have soG: "stores_ok w G" by (simp add: wf_graph_def)
  then have nwf: "wf_array (node_heap w) (nodes G)" and nhk: "heap_ok (node_heap w)"
    and ewf: "wf_array (edge_heap w) (edges G)" and ehk: "heap_ok (edge_heap w)"
    by (simp_all add: stores_ok_def)
  from r obtain nh ns where cn: "Array_copy (node_heap w) (nodes G) = Inr (nh, ns)"
    by (auto simp: Graph_copy_def split: sum.splits)
  from r cn obtain eh es where ce: "Array_copy (edge_heap w) (edges G) = Inr (eh, es)"
    by (auto simp: Graph_copy_def split: sum.splits)
  let ?w1 = "w\<lparr>node_heap := nh, edge_heap := eh\<rparr>"
  let ?c0 = "\<lparr>nodes = ns, edges = es, adjacency_matrix = [],
                  is_undirected = is_undirected G\<rparr>"
  from r cn ce obtain w2 where up: "update_source_and_target_pointers ?w1 ?c0 = Inr w2"
    by (auto simp: Graph_copy_def Let_def split: sum.splits)
  from r cn ce up obtain x where co: "construct_adjacency_matrix w2 ?c0 = (Inr x, w', C)"
    by (auto simp: Graph_copy_def Let_def split: sum.splits prod.splits)
  note an = Array_copy_Inr[OF nwf nhk cn] and ae = Array_copy_Inr[OF ewf ehk ce]
  have oldn: "b < brk (node_heap w)" if "b \<in> set (data (nodes G))" for b
    using wf_array_allocated[OF nwf nhk that] .
  have olde: "b < brk (edge_heap w)" if "b \<in> set (data (edges G))" for b
    using wf_array_allocated[OF ewf ehk that] .
  have so1: "stores_ok ?w1 ?c0" using an(1,2) ae(1,2) by (simp add: stores_ok_def)
  have szn: "Nodes_size ?c0 = Nodes_size G" using an(3) by (simp add: Nodes_size_def size_of_def)
  have sze: "Edges_size ?c0 = Edges_size G" using ae(3) by (simp add: Edges_size_def size_of_def)
  have cpn: "node_at ?w1 ?c0 i = node_at w G i" if "i < Nodes_size G" for i
    using an(7)[of i] that by (simp add: node_at_def Nodes_size_def size_of_def)
  have cpe: "edge_at ?w1 ?c0 j = edge_at w G j" if "j < Edges_size G" for j
    using ae(7)[of j] that by (simp add: edge_at_def Edges_size_def size_of_def)
  have un1: "untouched G w ?w1"
    using an(6,9) ae(6,9) oldn olde by (intro untouchedI) simp_all
  have keepn: "node_at ?w1 G i = node_at w G i" if "i < Nodes_size G" for i
    using untouched_at(1)[OF soG un1 that] .
  have sepn: "set (data (nodes ?c0)) \<inter> set (data (nodes G)) = {}"
    using an(5) oldn by fastforce
  have sepe: "set (data (edges ?c0)) \<inter> set (data (edges G)) = {}"
    using ae(5) olde by fastforce
  have cpn0: "\<forall>i < Nodes_size G. node_at ?w1 ?c0 i = node_at w G i" using cpn by blast
  have cpe0: "\<forall>j < Edges_size G. edge_at ?w1 ?c0 j = edge_at w G j" using cpe by blast
  have keepn0: "\<forall>i < Nodes_size G. node_at ?w1 G i = node_at w G i" using keepn by blast
  note rc = rebuild_copy[OF wfG so1 szn sze cpn0 cpe0 keepn0 sepn sepe up co]
  show "copy_fidelity w G w' C" using rc(1) .
  show wfC: "wf_graph w' C" using rc(5) ae(10) by simp
  show "is_undirected C = is_undirected G" using rc(8) by simp
  show "set (data (nodes C)) \<inter> set (data (nodes G)) = {}" using sepn rc(6) by simp
  show "set (data (edges C)) \<inter> set (data (edges G)) = {}" using sepe rc(7) by simp
  show un: "untouched G w w'"
  proof (rule untouchedI)
    fix b assume "b \<in> set (data (nodes G))"
    with an(6) oldn rc(2) show "blk (node_heap w') b = blk (node_heap w) b" by simp
  next
    fix b assume b: "b \<in> set (data (edges G))"
    with sepe have "b \<notin> set (data (edges ?c0))" by auto
    from rc(3)[OF this] ae(6)[OF olde[OF b]]
    show "blk (edge_heap w') b = blk (edge_heap w) b" by simp
  next
    fix p :: ptr
    show "p \<in> destroyed (node_heap w') \<longleftrightarrow> p \<in> destroyed (node_heap w)"
      using rc(2) an(9) by simp
    show "p \<in> destroyed (edge_heap w') \<longleftrightarrow> p \<in> destroyed (edge_heap w)"
      using rc(9) ae(9) by simp
  qed
  from wfC have "heap_ok (node_heap w')" "heap_ok (edge_heap w')"
    by (simp_all add: wf_graph_def stores_ok_def)
  with wf_graph_frame[OF wfG un] show "wf_graph w' G" by simp
qed

lemma wf_edge_ids_all:
  "wf_graph w g \<Longrightarrow> \<forall>j < Edges_size g. \<exists>e s t. edge_ids w g j e s t"
  using wf_edge by metis

lemma Graph_copy_succeeds:
  fixes w :: "('n, 'e) world"
  assumes wfG: "wf_graph w G"
    and av: "length (data (nodes G)) \<le> avail (node_heap w)"
      "length (data (edges G)) \<le> avail (edge_heap w)" "Nodes_size G \<le> row_avail w"
  shows "\<exists>w' C. Graph_copy w G = Inr (w', C)"
proof -
  from wfG have soG: "stores_ok w G" and ndG: "nodes_dense w G" by (simp_all add: wf_graph_def)
  then have nwf: "wf_array (node_heap w) (nodes G)" and nhk: "heap_ok (node_heap w)"
    and ewf: "wf_array (edge_heap w) (edges G)" and ehk: "heap_ok (edge_heap w)"
    by (simp_all add: stores_ok_def)
  from Array_copy_succeeds[OF nwf nhk av(1)] obtain nh ns where
    cn: "Array_copy (node_heap w) (nodes G) = Inr (nh, ns)" by blast
  from Array_copy_succeeds[OF ewf ehk av(2)] obtain eh es where
    ce: "Array_copy (edge_heap w) (edges G) = Inr (eh, es)" by blast
  let ?w1 = "w\<lparr>node_heap := nh, edge_heap := eh\<rparr>"
  let ?c0 = "\<lparr>nodes = ns, edges = es, adjacency_matrix = [],
                  is_undirected = is_undirected G\<rparr>"
  note an = Array_copy_Inr[OF nwf nhk cn] and ae = Array_copy_Inr[OF ewf ehk ce]
  have oldn: "b < brk (node_heap w)" if "b \<in> set (data (nodes G))" for b
    using wf_array_allocated[OF nwf nhk that] .
  have olde: "b < brk (edge_heap w)" if "b \<in> set (data (edges G))" for b
    using wf_array_allocated[OF ewf ehk that] .
  have so1: "stores_ok ?w1 ?c0" using an(1,2) ae(1,2) by (simp add: stores_ok_def)
  have szn: "Nodes_size ?c0 = Nodes_size G" using an(3) by (simp add: Nodes_size_def size_of_def)
  have sze: "Edges_size ?c0 = Edges_size G" using ae(3) by (simp add: Edges_size_def size_of_def)
  have cpn: "node_at ?w1 ?c0 i = node_at w G i" if "i < Nodes_size G" for i
    using an(7)[of i] that by (simp add: node_at_def Nodes_size_def size_of_def)
  have cpe: "edge_at ?w1 ?c0 j = edge_at w G j" if "j < Edges_size G" for j
    using ae(7)[of j] that by (simp add: edge_at_def Edges_size_def size_of_def)
  have un1: "untouched G w ?w1"
    using an(6,9) ae(6,9) oldn olde by (intro untouchedI) simp_all
  have nd1: "nodes_dense ?w1 ?c0"
    using ndG cpn unfolding nodes_dense_def szn by simp
  have ed1: "\<forall>j < Edges_size ?c0. \<exists>e s t. edge_ids ?w1 ?c0 j e s t"
    unfolding sze
  proof (intro allI impI)
    fix j assume j: "j < Edges_size G"
    from wf_edge[OF wfG j] obtain e where
      e: "edge_ids w G j e (source_id w G j) (target_id w G j)"
        "edge_source e = slot (nodes G) (source_id w G j)"
        "edge_target e = slot (nodes G) (target_id w G j)" by metis
    from e(1) have lt: "source_id w G j < Nodes_size G" "target_id w G j < Nodes_size G"
      and ea: "edge_at w G j = Some e"
      and g: "getSource_getId w e = Inr (source_id w G j)"
         "getTarget_getId w e = Inr (target_id w G j)"
      by (simp_all add: edge_ids_def)
    have "getSource_getId ?w1 e = getSource_getId w e"
      using untouched_at(1)[OF soG un1 lt(1)] e(2)
      by (simp add: getSource_getId_def node_at_def)
    moreover have "getTarget_getId ?w1 e = getTarget_getId w e"
      using untouched_at(1)[OF soG un1 lt(2)] e(3)
      by (simp add: getTarget_getId_def node_at_def)
    ultimately have "edge_ids ?w1 ?c0 j e (source_id w G j) (target_id w G j)"
      using cpe[OF j] ea g lt unfolding edge_ids_def szn by simp
    then show "\<exists>e s t. edge_ids ?w1 ?c0 j e s t" by blast
  qed
  have ra: "Nodes_size ?c0 \<le> row_avail ?w1" using av(3) szn by simp
  from rebuild_succeeds[OF so1 nd1 ed1 ra] obtain w2 w3 g3 where
    "update_source_and_target_pointers ?w1 ?c0 = Inr w2"
    "construct_adjacency_matrix w2 ?c0 = (Inr (), w3, g3)" by blast
  with cn ce show ?thesis by (simp add: Graph_copy_def Let_def)
qed

text \<open>A successful copy loop has found none of its target slots destroyed.\<close>

lemma for_each_copy_fresh:
  "for_each (copy_element this other) js h = Inr h' \<Longrightarrow> j \<in> set js \<Longrightarrow>
   slot this j \<notin> destroyed h"
proof (induction js arbitrary: h)
  case Nil
  then show ?case by simp
next
  case (Cons i js)
  from Cons.prems(1) obtain h1 where s: "copy_element this other i h = Inr h1"
    and r: "for_each (copy_element this other) js h1 = Inr h'"
    by (auto split: sum.splits)
  from s have d: "destroyed h1 = destroyed h" and f: "slot this i \<notin> destroyed h"
    by (auto simp: copy_element_def split: if_splits option.splits)
  show ?case
  proof (cases "j = i")
    case True
    with f show ?thesis by simp
  next
    case False
    with Cons.prems(2) have "j \<in> set js" by simp
    from Cons.IH[OF r this] d show ?thesis by simp
  qed
qed

text \<open>In a container without elements whose spare slots are fresh, no slot of any block
  is destroyed.\<close>

lemma spare_fresh_empty:
  assumes "spare_fresh h a" "element_count a = 0" "b \<in> set (data a)" "k < block_size a"
  shows "(b, k) \<notin> destroyed h"
proof -
  from assms(3) obtain j where j: "j < length (data a)" "data a ! j = b"
    by (auto simp: in_set_conv_nth)
  let ?i = "j * block_size a + k"
  have "?i < length (data a) * block_size a"
  proof -
    have "?i < Suc j * block_size a" using assms(4) by simp
    also have "\<dots> \<le> length (data a) * block_size a"
      using j(1) by (intro mult_le_mono1) simp
    finally show ?thesis .
  qed
  with assms(1,2) have "slot a ?i \<notin> destroyed h" by (simp add: spare_fresh_def)
  moreover have "slot a ?i = (b, k)" using assms(4) j(2) by (simp add: slot_def)
  ultimately show ?thesis by simp
qed

lemma blocks_ok_allocated:
  "blocks_ok h a \<Longrightarrow> heap_ok h \<Longrightarrow> b \<in> set (data a) \<Longrightarrow> b < brk h"
  unfolding blocks_ok_def using heap_ok_blk[of h b] by (metis not_le option.distinct(1))

lemma add_blocks_until_destroyed:
  "add_blocks_until n h a = Inr (h', a') \<Longrightarrow> destroyed h' = destroyed h"
proof (induction n h a rule: add_blocks_until.induct)
  case (1 n h a)
  show ?case
  proof (cases "length (data a) * block_size a < n")
    case False
    with "1.prems" show ?thesis by (simp add: add_blocks_until.simps[of n h a])
  next
    case True
    with "1.prems" have "(case add_block h a of Inl e \<Rightarrow> Inl e
         | Inr (h1, a1) \<Rightarrow> add_blocks_until n h1 a1) = Inr (h', a')"
      by (simp add: add_blocks_until.simps[of n h a])
    then obtain h1 a1 where ab: "add_block h a = Inr (h1, a1)"
      and rest: "add_blocks_until n h1 a1 = Inr (h', a')"
      by (cases "add_block h a") auto
    from ab have "destroyed h1 = destroyed h" by (auto simp: add_block_def split: if_splits)
    with "1.IH"[OF True ab refl rest] show ?thesis by simp
  qed
qed

lemma add_blocks_until_ok:
  assumes "add_blocks_until n h a = Inr (h', a')" "blocks_ok h a" "heap_ok h"
  shows "blocks_ok h' a' \<and> heap_ok h' \<and> brk h \<le> brk h' \<and>
         set (data a') = set (data a) \<union> {brk h..<brk h'} \<and>
         block_size a' = block_size a \<and> element_count a' = element_count a \<and>
         n \<le> length (data a') * block_size a' \<and>
         (\<forall>b < brk h. blk h' b = blk h b)"
  using assms
proof (induction n h a rule: add_blocks_until.induct)
  case (1 n h a)
  show ?case
  proof (cases "length (data a) * block_size a < n")
    case False
    with "1.prems"(1) have "h' = h" "a' = a"
      by (simp_all add: add_blocks_until.simps[of n h a])
    with "1.prems"(2,3) False show ?thesis by auto
  next
    case True
    with "1.prems"(1) have "(case add_block h a of Inl e \<Rightarrow> Inl e
         | Inr (h1, a1) \<Rightarrow> add_blocks_until n h1 a1) = Inr (h', a')"
      by (simp add: add_blocks_until.simps[of n h a])
    then obtain h1 a1 where ab: "add_block h a = Inr (h1, a1)"
      and rest: "add_blocks_until n h1 a1 = Inr (h', a')"
      by (cases "add_block h a") auto
    from ab have h1: "h1 = h\<lparr>blk := (blk h)(brk h \<mapsto> replicate (block_size a) None),
                  brk := Suc (brk h), avail := avail h - 1\<rparr>"
      and a1: "a1 = a\<lparr>data := data a @ [brk h]\<rparr>"
      by (auto simp: add_block_def split: if_splits)
    have fresh: "brk h \<notin> set (data a)"
      using blocks_ok_allocated[OF "1.prems"(2,3)] by blast
    have bo1: "blocks_ok h1 a1"
      using "1.prems"(2) fresh by (auto simp: blocks_ok_def h1 a1)
    have hk1: "heap_ok h1" using "1.prems"(3) by (fastforce simp: heap_ok_def h1)
    from "1.IH"[OF True ab refl rest bo1 hk1]
    have ih: "blocks_ok h' a'" "heap_ok h'" "brk h1 \<le> brk h'"
      "set (data a') = set (data a1) \<union> {brk h1..<brk h'}"
      "block_size a' = block_size a1" "element_count a' = element_count a1"
      "n \<le> length (data a') * block_size a'" "\<forall>b < brk h1. blk h' b = blk h1 b"
      by blast+
    have b1: "brk h1 = Suc (brk h)" and d1: "data a1 = data a @ [brk h]"
      and s1: "block_size a1 = block_size a" "element_count a1 = element_count a"
      by (simp_all add: h1 a1)
    have k1: "blk h1 b = blk h b" if "b < brk h" for b using that by (simp add: h1)
    have lt: "brk h < brk h'" using ih(3) b1 by simp
    then have "{brk h..<brk h'} = insert (brk h) {Suc (brk h)..<brk h'}" by auto
    then have "set (data a') = set (data a) \<union> {brk h..<brk h'}"
      unfolding ih(4) d1 b1 by simp
    moreover have "\<forall>b < brk h. blk h' b = blk h b"
    proof (intro allI impI)
      fix b assume b: "b < brk h"
      then have "b < brk h1" by (simp add: b1)
      with ih(8) k1[OF b] show "blk h' b = blk h b" by simp
    qed
    ultimately show ?thesis using ih(1,2,5,6,7) lt s1 by simp
  qed
qed

lemma load_frame:
  assumes "wf_array h a" "\<forall>b \<in> set (data a). blk h' b = blk h b" "i < element_count a"
  shows "load h' (slot a i) = load h (slot a i)"
proof -
  from assms(1,3) have "i < length (data a) * block_size a" by (simp add: wf_array_def)
  from slot_in_data[OF assms(1) this] assms(2) show ?thesis
    by (intro load_cong_block) simp
qed

text \<open>
  \<^verbatim>\<open>Array::operator=(const Array&)\<close> onto a container that holds no element and has no
  destroyed slot.  (Onto a container with elements the operator destroys them and then
  assigns to the destroyed objects.)
\<close>

lemma Array_copy_assign_ok:
  assumes wt: "wf_array h this" and wo: "wf_array h other" and hk: "heap_ok h"
    and disj: "set (data this) \<inter> set (data other) = {}"
    and emp: "element_count this = 0" and sp: "spare_fresh h this"
    and r: "Array_copy_assign h this other = (Inr x, h4, this3)"
  shows "wf_array h4 this3" "heap_ok h4"
    "element_count this3 = element_count other" "block_size this3 = block_size other"
    "set (data this3) \<subseteq> set (data this) \<union> {brk h..<brk h4}"
    "\<And>b. b < brk h \<Longrightarrow> b \<notin> set (data this) \<Longrightarrow> blk h4 b = blk h b"
    "\<And>i. i < element_count other \<Longrightarrow> load h4 (slot this3 i) = load h (slot other i)"
    "set (data this3) \<inter> set (data other) = {}"
    "destroyed h4 = destroyed h" "spare_fresh h4 this3"
proof -
  let ?c = "element_count other"
  from wt have bot: "blocks_ok h this"
    and capt: "element_count this \<le> length (data this) * block_size this"
    by (simp_all add: wf_array_def blocks_ok_def)
  have oldt: "b < brk h" if "b \<in> set (data this)" for b
    using wf_array_allocated[OF wt hk that] .
  have oldo: "b < brk h" if "b \<in> set (data other)" for b
    using wf_array_allocated[OF wo hk that] .
  define h1 where "h1 = h"
  have d: "for_each (destroy_element this) [0..<element_count this] h = Inr h1"
    by (simp add: emp h1_def)
  have p1: "blocks_ok h1 this" "brk h1 = brk h"
      "\<And>b. b \<notin> set (data this) \<Longrightarrow> blk h1 b = blk h b"
    using bot by (simp_all add: h1_def)
  define this1 where "this1 = this\<lparr>element_count := ?c\<rparr>"
  define h2 where "h2 = (if block_size this1 \<noteq> block_size other
      then release_blocks (data this1) h1 else h1)"
  define this2 where "this2 = (if block_size this1 \<noteq> block_size other
      then this1\<lparr>block_size := block_size other, data := []\<rparr> else this1)"
  from r d obtain h3 where
    ab: "add_blocks_until ?c h2 this2 = Inr (h3, this3)"
    and cl: "for_each (copy_element this3 other) [0..<?c] h3 = Inr h4"
    by (auto simp: Array_copy_assign_def Let_def h2_def this2_def this1_def
        split: sum.splits if_splits prod.splits)
  from wo have bso: "0 < block_size other" by (simp add: wf_array_def)
  have bo2: "blocks_ok h2 this2"
    using p1(1) bso by (auto simp: blocks_ok_def h2_def this2_def this1_def release_blocks_def)
  have b2: "brk h2 = brk h" by (simp add: h2_def p1(2) release_blocks_def)
  have fr2: "blk h2 b = blk h b" if "b \<notin> set (data this)" for b
    using p1(3)[OF that] that by (simp add: h2_def release_blocks_def this1_def)
  have d2: "destroyed h2 = destroyed h" by (simp add: h2_def h1_def release_blocks_def)
  have hk2: "heap_ok h2"
  proof (rule heap_okI)
    fix b assume "brk h2 \<le> b"
    then have b: "brk h \<le> b" by (simp add: b2)
    then have "b \<notin> set (data this)" using oldt[of b] by auto
    from fr2[OF this] hk b show "blk h2 b = None" by (simp add: heap_ok_def)
  next
    fix q assume "q \<in> destroyed h2"
    then show "fst q < brk h2" using heap_ok_destroyed[OF hk, of q] by (simp add: d2 b2)
  qed
  have sub2: "set (data this2) \<subseteq> set (data this)" by (simp add: this2_def this1_def)
  have bs2: "block_size this2 = block_size other" "element_count this2 = ?c"
    by (simp_all add: this2_def this1_def)
  from add_blocks_until_ok[OF ab bo2 hk2]
  have p3: "blocks_ok h3 this3" "heap_ok h3" "brk h2 \<le> brk h3"
    "set (data this3) = set (data this2) \<union> {brk h2..<brk h3}"
    "block_size this3 = block_size this2" "element_count this3 = element_count this2"
    "?c \<le> length (data this3) * block_size this3" "\<forall>b < brk h2. blk h3 b = blk h2 b"
    by blast+
  have fo3: "blk h3 b = blk h b" if "b \<in> set (data other)" for b
  proof -
    from that disj have "b \<notin> set (data this)" by auto
    with fr2 p3(8) oldo[OF that] show ?thesis by (simp add: b2)
  qed
  have wo3: "wf_array h3 other" using fo3 by (intro wf_array_cong[OF wo]) simp
  have disj3: "set (data this3) \<inter> set (data other) = {}"
    using p3(4) sub2 disj oldo by (fastforce simp: b2)
  have d3: "destroyed h3 = destroyed h" using add_blocks_until_destroyed[OF ab] d2 by simp
  have nd3: "\<forall>i < ?c. slot this3 i \<notin> destroyed h3"
    using for_each_copy_fresh[OF cl] by simp
  from copy_loop[OF p3(1) _ disj3 wo3 p3(7) order_refl nd3, of 0] p3(5) bs2(1) cl
  have p4: "blocks_ok h4 this3" "brk h4 = brk h3"
    "\<And>b. b \<notin> set (data this3) \<Longrightarrow> blk h4 b = blk h3 b"
    "\<And>i. i < ?c \<Longrightarrow> load h4 (slot this3 i) = load h3 (slot other i)"
    by auto
  show cp: "load h4 (slot this3 i) = load h (slot other i)" if "i < ?c" for i
    using p4(4)[OF that] load_frame[OF wo _ that, of h3] fo3 by simp
  show "wf_array h4 this3"
    unfolding wf_array_alt using p4(1) p3(6,7) bs2 cp wo by (auto simp: wf_array_def)
  show d4: "destroyed h4 = destroyed h" using for_each_copy_destroyed[OF cl] d3 by simp
  show "heap_ok h4"
  proof (rule heap_okI)
    fix b assume b: "brk h4 \<le> b"
    then have "b \<notin> set (data this3)"
      using blocks_ok_allocated[OF p3(1,2), of b] by (auto simp: p4(2))
    from p4(3)[OF this] p3(2) b show "blk h4 b = None" by (simp add: heap_ok_def p4(2))
  next
    fix q assume "q \<in> destroyed h4"
    then show "fst q < brk h4"
      using heap_ok_destroyed[OF hk, of q] p3(3) by (simp add: d4 p4(2) b2)
  qed
  show "spare_fresh h4 this3"
    unfolding spare_fresh_def
  proof (intro allI impI)
    fix i assume i: "element_count this3 \<le> i \<and> i < length (data this3) * block_size this3"
    then have m: "fst (slot this3 i) \<in> set (data this3)"
      using blocks_ok_slot(1)[OF p3(1)] by simp
    from p3(1) have bs3: "0 < block_size this3" by (simp add: blocks_ok_def)
    show "slot this3 i \<notin> destroyed h4"
    proof (cases "fst (slot this3 i) \<in> set (data this2)")
      case False
      with m p3(4) have "brk h \<le> fst (slot this3 i)" by (auto simp: b2)
      with heap_ok_destroyed[OF hk, of "slot this3 i"] show ?thesis by (auto simp: d4)
    next
      case True
      then have same: "block_size this1 = block_size other" and in1: "fst (slot this3 i) \<in> set (data this)"
        by (auto simp: this2_def this1_def split: if_splits)
      then have "block_size this3 = block_size this"
        using p3(5) bs2(1) by (simp add: this1_def)
      with bs3 have "snd (slot this3 i) < block_size this" by (simp add: slot_def)
      from spare_fresh_empty[OF sp emp in1 this] show ?thesis by (simp add: d4)
    qed
  qed
  show "element_count this3 = ?c" "block_size this3 = block_size other"
    using p3(5,6) bs2 by simp_all
  show "set (data this3) \<subseteq> set (data this) \<union> {brk h..<brk h4}"
    using p3(4) sub2 by (auto simp: b2 p4(2))
  show "blk h4 b = blk h b" if "b < brk h" "b \<notin> set (data this)" for b
  proof -
    from that sub2 p3(4) have "b \<notin> set (data this3)" by (auto simp: b2)
    from p4(3)[OF this] p3(8) that fr2 show ?thesis by (simp add: b2)
  qed
  show "set (data this3) \<inter> set (data other) = {}" using disj3 .
qed

lemma Graph_copy_assign_ok:
  fixes w :: "('n, 'e) world"
  assumes wfG: "wf_graph w G" and soT: "stores_ok w this" and sep: "separate this G"
    and emp: "Nodes_size this = 0" "Edges_size this = 0"
    and spt: "spare_fresh (node_heap w) (nodes this)" "spare_fresh (edge_heap w) (edges this)"
    and r: "Graph_copy_assign w this G = (Inr x, w', C)"
  shows "copy_fidelity w G w' C" "untouched G w w'" "wf_graph w' G"
    "(is_undirected this \<longrightarrow> is_undirected G) \<Longrightarrow> wf_graph w' C"
    "is_undirected C = is_undirected this" "separate C G"
    "spare_fresh (node_heap w') (nodes C)"
proof -
  from wfG have soG: "stores_ok w G" by (simp add: wf_graph_def)
  then have nwf: "wf_array (node_heap w) (nodes G)" and nhk: "heap_ok (node_heap w)"
    and ewf: "wf_array (edge_heap w) (edges G)" and ehk: "heap_ok (edge_heap w)"
    by (simp_all add: stores_ok_def)
  from soT have tnwf: "wf_array (node_heap w) (nodes this)"
    and tewf: "wf_array (edge_heap w) (edges this)" by (simp_all add: stores_ok_def)
  from sep have sn: "set (data (nodes this)) \<inter> set (data (nodes G)) = {}"
    and se: "set (data (edges this)) \<inter> set (data (edges G)) = {}"
    by (simp_all add: separate_def)
  from r obtain y nh ns where
    cn: "Array_copy_assign (node_heap w) (nodes this) (nodes G) = (Inr y, nh, ns)"
    by (auto simp: Graph_copy_assign_def split: sum.splits prod.splits)
  let ?w1 = "w\<lparr>node_heap := nh\<rparr>" and ?g1 = "this\<lparr>nodes := ns\<rparr>"
  from r cn obtain z eh es where
    ce: "Array_copy_assign (edge_heap w) (edges this) (edges G) = (Inr z, eh, es)"
    by (auto simp: Graph_copy_assign_def Let_def split: sum.splits prod.splits)
  let ?w2 = "w\<lparr>node_heap := nh, edge_heap := eh\<rparr>" and ?g2 = "this\<lparr>nodes := ns, edges := es\<rparr>"
  from r cn ce obtain w3 where up: "update_source_and_target_pointers ?w2 ?g2 = Inr w3"
    by (auto simp: Graph_copy_assign_def Let_def split: sum.splits prod.splits)
  from r cn ce up have co: "construct_adjacency_matrix w3 ?g2 = (Inr x, w', C)"
    by (auto simp: Graph_copy_assign_def Let_def split: sum.splits prod.splits)
  from emp have emp': "element_count (nodes this) = 0" "element_count (edges this) = 0"
    by (simp_all add: Nodes_size_def Edges_size_def size_of_def)
  note an = Array_copy_assign_ok[OF tnwf nwf nhk sn emp'(1) spt(1) cn]
    and ae = Array_copy_assign_ok[OF tewf ewf ehk se emp'(2) spt(2) ce]
  have oldn: "b < brk (node_heap w)" if "b \<in> set (data (nodes G))" for b
    using wf_array_allocated[OF nwf nhk that] .
  have olde: "b < brk (edge_heap w)" if "b \<in> set (data (edges G))" for b
    using wf_array_allocated[OF ewf ehk that] .
  have keepnb: "blk nh b = blk (node_heap w) b" if "b \<in> set (data (nodes G))" for b
    using an(6)[OF oldn[OF that]] that sn by auto
  have keepeb: "blk eh b = blk (edge_heap w) b" if "b \<in> set (data (edges G))" for b
    using ae(6)[OF olde[OF that]] that se by auto
  have so1: "stores_ok ?w2 ?g2" using an(1,2) ae(1,2) by (simp add: stores_ok_def)
  have szn: "Nodes_size ?g2 = Nodes_size G" using an(3) by (simp add: Nodes_size_def size_of_def)
  have sze: "Edges_size ?g2 = Edges_size G" using ae(3) by (simp add: Edges_size_def size_of_def)
  have cpn0: "\<forall>i < Nodes_size G. node_at ?w2 ?g2 i = node_at w G i"
    using an(7) by (simp add: node_at_def Nodes_size_def size_of_def)
  have cpe0: "\<forall>j < Edges_size G. edge_at ?w2 ?g2 j = edge_at w G j"
    using ae(7) by (simp add: edge_at_def Edges_size_def size_of_def)
  have un1: "untouched G w ?w2"
    using keepnb keepeb an(9) ae(9) by (intro untouchedI) simp_all
  have keepn0: "\<forall>i < Nodes_size G. node_at ?w2 G i = node_at w G i"
    using untouched_at(1)[OF soG un1] by blast
  have sepn: "set (data (nodes ?g2)) \<inter> set (data (nodes G)) = {}" using an(8) by simp
  have sepe: "set (data (edges ?g2)) \<inter> set (data (edges G)) = {}" using ae(8) by simp
  note rc = rebuild_copy[OF wfG so1 szn sze cpn0 cpe0 keepn0 sepn sepe up co]
  show "copy_fidelity w G w' C" using rc(1) .
  show "wf_graph w' C" if "is_undirected this \<longrightarrow> is_undirected G"
    using rc(5) that ae(10) by simp
  show "is_undirected C = is_undirected this" using rc(8) by simp
  show "separate C G" using sepn sepe rc(6,7) by (simp add: separate_def)
  show "spare_fresh (node_heap w') (nodes C)" using an(10) rc(2,6) by simp
  show un: "untouched G w w'"
  proof (rule untouchedI)
    fix b assume "b \<in> set (data (nodes G))"
    with keepnb rc(2) show "blk (node_heap w') b = blk (node_heap w) b" by simp
  next
    fix b assume b: "b \<in> set (data (edges G))"
    with sepe have "b \<notin> set (data (edges ?g2))" by auto
    from rc(3)[OF this] keepeb[OF b]
    show "blk (edge_heap w') b = blk (edge_heap w) b" by simp
  next
    fix p :: ptr
    show "p \<in> destroyed (node_heap w') \<longleftrightarrow> p \<in> destroyed (node_heap w)"
      using rc(2) an(9) by simp
    show "p \<in> destroyed (edge_heap w') \<longleftrightarrow> p \<in> destroyed (edge_heap w)"
      using rc(9) ae(9) by simp
  qed
  have "heap_ok (node_heap w')" using rc(2) an(2) by simp
  moreover have "heap_ok (edge_heap w')"
  proof (rule heap_okI)
    fix b assume b: "brk (edge_heap w') \<le> b"
    then have b2: "brk eh \<le> b" using rc(4) by simp
    then have "b \<notin> set (data es)" using wf_array_allocated[OF ae(1,2), of b] by auto
    then have "blk (edge_heap w') b = blk eh b" using rc(3)[of b] by simp
    with ae(2) b2 show "blk (edge_heap w') b = None" by (simp add: heap_ok_def)
  next
    fix q assume "q \<in> destroyed (edge_heap w')"
    then show "fst q < brk (edge_heap w')"
      using heap_ok_destroyed[OF ae(2), of q] by (simp add: rc(4,9))
  qed
  ultimately show "wf_graph w' G" using wf_graph_frame[OF wfG un] by simp
qed
subsection \<open>Copies of the example graph\<close>

lemmas copy_eval_defs = Graph_copy_def Graph_copy_assign_def Array_copy_def Array_copy_assign_def
  copy_element_def destroy_element_def release_blocks_def add_blocks_until.simps
  update_source_and_target_pointers_def update_pointers_of_def getSource_getId_def getTarget_getId_def
  edges_index_def construct_adjacency_matrix_def place_edge_def

lemma scenario_world:
  "avail (node_heap (fst (scenario u))) = 99" "avail (edge_heap (fst (scenario u))) = 99"
  "row_avail (fst (scenario u)) = 94"
  "brk (node_heap (fst (scenario u))) = 1" "brk (edge_heap (fst (scenario u))) = 1"
  by (simp_all add: scenario_def scenario_commands_def eval_defs)

lemma scenario_views:
  "node_view (fst (scenario u)) (snd (scenario u)) 2 = Some (2, ''c'')"
  "edge_view (fst (scenario u)) (snd (scenario u)) 1 = Some (1, 1, 2, ''y'')"
  by (simp_all add: scenario_def scenario_commands_def eval_defs node_view_def edge_view_def node_at_def edge_at_def getSource_getId_def getTarget_getId_def numeral_2_eq_2)

lemma assign_ok:
  "fst (Graph_copy_assign (fst (scenario False)) (Graph_new False) (snd (scenario False))) = Inr ()"
  by (simp add: scenario_def scenario_commands_def eval_defs copy_eval_defs upt_conv_Cons numeral_2_eq_2 numeral_3_eq_3)

text \<open>The example graph is copied by the constructor and assigned to a new empty graph:
  both copies have the node 2 with payload c and the edge 1 from 1 to 2 with
  payload y.\<close>

lemma scenario_copies:
  "(\<exists>w1 C1. Graph_copy (fst (scenario False)) (snd (scenario False)) = Inr (w1, C1) \<and>
      copy_fidelity (fst (scenario False)) (snd (scenario False)) w1 C1 \<and>
      node_view w1 C1 2 = Some (2, ''c'') \<and> edge_view w1 C1 1 = Some (1, 1, 2, ''y'')) \<and>
   (\<exists>w2 C2. Graph_copy_assign (fst (scenario False)) (Graph_new False) (snd (scenario False))
               = (Inr (), w2, C2) \<and>
      copy_fidelity (fst (scenario False)) (snd (scenario False)) w2 C2 \<and>
      node_view w2 C2 2 = Some (2, ''c'') \<and> edge_view w2 C2 1 = Some (1, 1, 2, ''y''))"
proof -
  let ?w = "fst (scenario False)" and ?G = "snd (scenario False)"
  note wf = scenario_wf[of False]
  have sz: "Nodes_size ?G = 3" "Edges_size ?G = 2"
    by (simp_all add: scenario_graph Nodes_size_def Edges_size_def size_of_def)
  have view: "node_view w' C 2 = Some (2, ''c'') \<and> edge_view w' C 1 = Some (1, 1, 2, ''y'')"
    if "copy_fidelity ?w ?G w' C" for w' :: "(string, string) world" and C
  proof -
    from that have "\<exists>d. node_view ?w ?G 2 = Some (2, d) \<and> node_view w' C 2 = Some (2, d)"
      unfolding copy_fidelity_def sz by simp
    moreover from that have "\<exists>s t d. edge_view ?w ?G 1 = Some (1, s, t, d) \<and>
        edge_view w' C 1 = Some (1, s, t, d)"
      unfolding copy_fidelity_def sz by (metis one_less_numeral_iff semiring_norm(76))
    ultimately show ?thesis using scenario_views[of False] by auto
  qed
  have so: "stores_ok ?w ?G" using wf by (simp add: wf_graph_def)
  have sT: "stores_ok ?w (Graph_new False)"
    using so by (simp add: stores_ok_def Graph_new_def Array_new_def wf_array_def DEFAULT_BLOCK_SIZE_def)
  have sp: "separate (Graph_new False) ?G"
    by (simp add: separate_def Graph_new_def Array_new_def)
  have emp: "Nodes_size (Graph_new False) = 0" "Edges_size (Graph_new False) = 0"
    "spare_fresh (node_heap ?w) (nodes (Graph_new False))"
    "spare_fresh (edge_heap ?w) (edges (Graph_new False))"
    by (simp_all add: Graph_new_def Array_new_def Nodes_size_def Edges_size_def size_of_def
        spare_fresh_def)
  have "length (data (nodes ?G)) \<le> avail (node_heap ?w)"
    "length (data (edges ?G)) \<le> avail (edge_heap ?w)" "Nodes_size ?G \<le> row_avail ?w"
    by (simp_all add: scenario_world sz) (simp_all add: scenario_graph)
  from Graph_copy_succeeds[OF wf this]
  obtain w1 C1 where c1: "Graph_copy ?w ?G = Inr (w1, C1)" by blast
  obtain w2 C2 where c2: "Graph_copy_assign ?w (Graph_new False) ?G = (Inr (), w2, C2)"
    using assign_ok by (metis prod.collapse)
  note f = Graph_copy_ok(1)[OF wf c1] Graph_copy_assign_ok(1)[OF wf sT sp emp c2]
  from c1 c2 f view[OF f(1)] view[OF f(2)] show ?thesis by blast
qed

text \<open>Assigning a graph to itself: \<^verbatim>\<open>Array::operator=(const Array&)\<close> destroys the elements of
  \<open>this\<close> and then reads them from \<open>other\<close>, which is the same container.\<close>

lemma self_assignment_undefined:
  "fst (Graph_copy_assign (fst (scenario False)) (snd (scenario False)) (snd (scenario False)))
     = Inl UndefinedBehaviour"
  by (simp add: scenario_def scenario_commands_def eval_defs copy_eval_defs upt_conv_Cons
      numeral_2_eq_2 numeral_3_eq_3)

text \<open>Both graphs of \<open>two_graphs\<close> are well formed, and they own different blocks.\<close>

lemma two_graphs_graph:
  "snd two_graphs =
     \<lparr>nodes = \<lparr>data = [1], block_size = 10, element_count = 1\<rparr>,
      edges = \<lparr>data = [], block_size = 10, element_count = 0\<rparr>,
      adjacency_matrix = [[None]], is_undirected = False\<rparr>"
  by (simp add: two_graphs_def scenario_graph scenario_fresh scenario_world eval_defs)

lemma two_graphs_wf:
  "wf_graph (fst two_graphs) (snd two_graphs)"
  "wf_graph (fst two_graphs) (snd (scenario False))"
  "separate (snd two_graphs) (snd (scenario False))"
proof -
  let ?w = "fst (scenario False)" and ?G = "snd (scenario False)"
  note wf = scenario_wf[of False]
  then have so: "stores_ok ?w ?G" by (simp add: wf_graph_def)
  then have hk: "heap_ok (node_heap ?w)" "heap_ok (edge_heap ?w)" by (simp_all add: stores_ok_def)
  obtain r where r: "Nodes_add 0 ''z'' ?w (Graph_new False) = (r, fst two_graphs, snd two_graphs)"
    by (simp add: two_graphs_def) (metis prod.collapse)
  from Nodes_add_wf[OF Graph_new_wf[OF hk] r] show wfT: "wf_graph (fst two_graphs) (snd two_graphs)" .
  show "separate (snd two_graphs) ?G"
    by (simp add: separate_def two_graphs_graph scenario_graph)
  have "untouched ?G ?w (fst two_graphs)"
    by (rule untouchedI)
       (simp_all add: two_graphs_def scenario_graph scenario_fresh scenario_world eval_defs)
  from wf_graph_frame[OF wf this] wfT show "wf_graph (fst two_graphs) ?G"
    by (simp add: wf_graph_def stores_ok_def)
qed

section \<open>Claim C1: copy fidelity\<close>

text \<open>
  Claim C1.  A copy made by the copy constructor has the nodes and edges of \<open>G\<close>, with
  pointers into its own containers (\<open>Graph_copy_ok\<close>), and so has the result of
  assigning \<open>G\<close> to a graph that never held an element (\<open>Graph_copy_assign_ok\<close>).  The
  assignment to a graph that holds elements does not give a copy:
  \<^verbatim>\<open>Array::operator=(const Array&)\<close> calls the destructor of every element of the target
  and then copy-assigns the elements of \<open>G\<close> to the destroyed objects.  In
  \<open>two_graphs\<close> the target holds the node 0 with payload z, the example graph is
  assigned to it, and the assignment of the first node is undefined behaviour.
\<close>

theorem copy_assign_onto_elements:
  "Nodes_size (snd two_graphs) = 1 \<and> Nodes_size (snd (scenario False)) = 3 \<and>
   node_view (fst two_graphs) (snd two_graphs) 0 = Some (0, ''z'') \<and>
   node_view (fst two_graphs) (snd (scenario False)) 0 = Some (0, ''a'') \<and>
   fst (Graph_copy_assign (fst two_graphs) (snd two_graphs) (snd (scenario False)))
     = Inl UndefinedBehaviour"
  by (simp add: two_graphs_def scenario_def scenario_commands_def eval_defs copy_eval_defs
      node_view_def node_at_def upt_conv_Cons numeral_2_eq_2 numeral_3_eq_3)

section \<open>Reachable graphs are well formed\<close>

lemma reachable_wf: "reachable w g \<Longrightarrow> wf_graph w g"
proof (induction rule: reachable.induct)
  case (new_graph w u)
  then show ?case by (rule Graph_new_wf)
next
  case (node_add w g i d r w' g')
  from Nodes_add_wf[OF node_add.IH node_add.hyps(2)] show ?case .
next
  case (node_add_next w g d r w' g')
  from Nodes_add_wf[OF node_add_next.IH node_add_next.hyps(2)[unfolded Nodes_add_next_def]]
  show ?case .
next
  case (edge_add w g j s t x q w' g')
  from Edges_add_wf[OF edge_add.IH edge_add.hyps(2)] show ?case .
next
  case (edge_add_next w g s t x q w' g')
  from Edges_add_wf[OF edge_add_next.IH edge_add_next.hyps(2)[unfolded Edges_add_next_def]]
  show ?case .
next
  case (copy w g w' c)
  from Graph_copy_ok(2)[OF copy.IH copy.hyps(2)] show ?case .
next
  case (copy_assign w this g y w' c)
  from copy_assign.IH(1) have so: "stores_ok w this"
    and sp: "spare_fresh (edge_heap w) (edges this)" by (simp_all add: wf_graph_def)
  from Graph_copy_assign_ok(4)[OF copy_assign.IH(2) so copy_assign.hyps(3,4,5,6) sp
      copy_assign.hyps(8,7)]
  show ?case .
next
  case (elsewhere w g w')
  from wf_graph_frame[OF elsewhere.IH elsewhere.hyps(2,3,4)] show ?case .
qed

lemma run_command_reachable:
  "reachable (fst s) (snd s) \<Longrightarrow> reachable (fst (run_command c s)) (snd (run_command c s))"
proof (cases c)
  case (AddNode i d)
  obtain w g where s: "s = (w, g)" by (cases s)
  obtain r w' g' where "Nodes_add i d w g = (r, w', g')" by (metis prod_cases3)
  then show "reachable (fst s) (snd s) \<Longrightarrow> ?thesis"
    using node_add[of w g i d r w' g'] by (simp add: AddNode s)
next
  case (AddEdge i a b d)
  obtain w g where s: "s = (w, g)" by (cases s)
  obtain r w' g' where "Edges_add i a b d w g = (r, w', g')" by (metis prod_cases3)
  then show "reachable (fst s) (snd s) \<Longrightarrow> ?thesis"
    using edge_add[of w g i a b d r w' g'] by (simp add: AddEdge s)
qed

lemma run_commands_reachable:
  "reachable (fst s) (snd s) \<Longrightarrow> reachable (fst (run_commands cs s)) (snd (run_commands cs s))"
  unfolding run_commands_def
  by (induction cs arbitrary: s) (simp_all add: run_command_reachable)

lemma scenario_reachable: "reachable (fst (scenario u)) (snd (scenario u))"
  unfolding scenario_def
  by (rule run_commands_reachable) (simp add: new_graph empty_world_ok)

section \<open>Successful additions, and the edge behind a matrix cell\<close>

lemma Nodes_add_Inr:
  assumes wf: "wf_graph w g" and r: "Nodes_add i d w g = (Inr p, w', g')"
  shows "i = Nodes_size g" "Nodes_size g' = Suc i" "Nodes_get g' i = Inr p"
    "node_at w' g' i = Some \<lparr>node_id = i, node_data = d\<rparr>"
proof -
  show i: "i = Nodes_size g"
    using r Nodes_add_invalid[where g = g and ident = i and d = d and w = w]
    by (cases "i < Nodes_size g"; cases "Nodes_size g < i") auto
  from wf have so: "stores_ok w g" and mo: "matrix_ok g" by (simp_all add: wf_graph_def)
  from so have awf: "wf_array (node_heap w) (nodes g)" and hk: "heap_ok (node_heap w)"
    by (simp_all add: stores_ok_def)
  from so mo have "Nodes_size g' = Suc i \<and> Nodes_get g' i = Inr p \<and>
    node_at w' g' i = Some \<lparr>node_id = i, node_data = d\<rparr>"
  proof (cases rule: Nodes_add_cases[where d = d])
    case nomem
    with r i show ?thesis by simp
  next
    case dead
    with r i show ?thesis by simp
  next
    case (norows h1 a1 h3 a3)
    with r i show ?thesis by simp
  next
    case (ok h1 a1)
    note d1 = push_back_data[OF awf hk ok(1)]
    from r[unfolded i ok(3)] have p: "p = slot a1 (Nodes_size g)"
      and w': "w' = w\<lparr>node_heap := h1, row_avail := row_avail w - Nodes_size g - 1\<rparr>"
      and g': "g' = g\<lparr>nodes := a1,
            adjacency_matrix := map (\<lambda>r. r @ [None]) (adjacency_matrix g)
                 @ [replicate (Nodes_size g + 1) None]\<rparr>" by simp_all
    have sz: "Nodes_size g' = Suc i"
      using d1 by (simp add: g' i Nodes_size_def size_of_def)
    moreover have "Nodes_get g' i = Inr p"
      using Nodes_get_ok[of i g'] sz by (simp add: p g' i)
    moreover have "node_at w' g' i = Some \<lparr>node_id = i, node_data = d\<rparr>"
      using push_back_new[OF awf hk ok(1)]
      by (simp add: node_at_def w' g' i Nodes_size_def size_of_def)
    ultimately show ?thesis by simp
  qed
  then show "Nodes_size g' = Suc i" "Nodes_get g' i = Inr p"
    "node_at w' g' i = Some \<lparr>node_id = i, node_data = d\<rparr>" by simp_all
qed

lemma node_view_Some: "node_at w g i = Some n \<Longrightarrow> node_view w g i = Some (node_id n, node_data n)"
  by (simp add: node_view_def)

lemma wf_edge_view:
  assumes wf: "wf_graph w g" and j: "j < Edges_size g"
  shows "\<exists>d. edge_view w g j = Some (j, source_id w g j, target_id w g j, d)"
    and "source_id w g j < Nodes_size g" "target_id w g j < Nodes_size g"
proof -
  from wf_edge[OF wf j] obtain e where
    e: "edge_ids w g j e (source_id w g j) (target_id w g j)" "edge_id e = j" by metis
  then show "\<exists>d. edge_view w g j = Some (j, source_id w g j, target_id w g j, d)"
    by (simp add: edge_view_def edge_ids_def)
  from e(1) show "source_id w g j < Nodes_size g" "target_id w g j < Nodes_size g"
    by (simp_all add: edge_ids_def)
qed

lemma Edges_add_Inr:
  assumes wf: "wf_graph w g" and r: "Edges_add j s t x w g = (Inr q, w', g')"
  shows "j = Edges_size g" "s < Nodes_size g" "t < Nodes_size g"
    "adjacency_matrix g ! s ! t = None"
    "Edges_size g' = Suc j" "Edges_get_id g' j = Inr q"
    "edge_view w' g' j = Some (j, s, t, x)"
    "Nodes_size g' = Nodes_size g"
proof -
  from wf have so: "stores_ok w g" and mo: "matrix_ok g" and nd: "nodes_dense w g"
    by (simp_all add: wf_graph_def)
  from so have awf: "wf_array (edge_heap w) (edges g)" and hk: "heap_ok (edge_heap w)"
    by (simp_all add: stores_ok_def)
  show j: "j = Edges_size g"
    using r Edges_add_invalid(1,2)[where g = g and ident = j and s = s and t = t and d = x and w = w]
    by (cases "j < Edges_size g"; cases "Edges_size g < j") auto
  show st: "s < Nodes_size g" "t < Nodes_size g"
    using r Edges_add_invalid(3)[OF j, where s = s and t = t and d = x and w = w]
    by (cases "s < Nodes_size g"; cases "t < Nodes_size g"; auto)+
  show free: "adjacency_matrix g ! s ! t = None"
    using r Edges_add_occupied[OF mo st, where d = x and w = w] j
    by (cases "adjacency_matrix g ! s ! t") auto
  from wf st free have "Edges_size g' = Suc j \<and> Edges_get_id g' j = Inr q \<and>
    edge_view w' g' j = Some (j, s, t, x) \<and> Nodes_size g' = Nodes_size g"
  proof (cases rule: Edges_add_cases[where d = x])
    case nomem
    with r j show ?thesis by simp
  next
    case (ok h1 a1)
    let ?v = "\<lparr>edge_id = Edges_size g, edge_source = slot (nodes g) s,
               edge_target = slot (nodes g) t, edge_data = x\<rparr>"
    note d = push_back_data[OF awf hk ok(1)]
    from r[unfolded j ok(2)] have q: "q = slot a1 (Edges_size g)"
      and w': "w' = w\<lparr>edge_heap := h1\<rparr>"
      and g': "g' = g\<lparr>edges := a1,
            adjacency_matrix := added_cells (is_undirected g) (adjacency_matrix g) s t
                                  (Some (slot a1 (Edges_size g)))\<rparr>" by auto
    have "Edges_size g' = Suc j"
      using d by (simp add: g' j Edges_size_def size_of_def)
    moreover have "Nodes_size g' = Nodes_size g" by (simp add: g' Nodes_size_def)
    moreover have "Edges_get_id g' j = Inr q"
      using d by (simp add: Edges_get_id_def Edges_exists_id_def Edges_size_def size_of_def
          get_elem_def g' j q)
    moreover have ea: "edge_at w' g' j = Some ?v"
      using push_back_new[OF awf hk ok(1)]
      by (simp add: edge_at_def w' g' j Edges_size_def size_of_def)
    from nd st obtain n m where "node_at w g s = Some n" "node_id n = s"
      "node_at w g t = Some m" "node_id m = t"
      unfolding nodes_dense_def by blast
    then have "getSource_getId w' ?v = Inr s" "getTarget_getId w' ?v = Inr t"
      by (simp_all add: getSource_getId_def getTarget_getId_def node_at_def w')
    with ea have "edge_view w' g' j = Some (j, s, t, x)"
      by (simp add: edge_view_def j)
    ultimately show ?thesis by simp
  qed
  then show "Edges_size g' = Suc j" "Edges_get_id g' j = Inr q"
    "edge_view w' g' j = Some (j, s, t, x)" "Nodes_size g' = Nodes_size g" by simp_all
qed

lemma edge_view_ids:
  "edge_view w g j = Some (a, s, t, x) \<Longrightarrow> source_id w g j = s \<and> target_id w g j = t"
  by (auto simp: edge_view_def source_id_def target_id_def split: option.splits sum.splits)

lemma wf_cell_view:
  assumes wf: "wf_graph w g" and st: "s < Nodes_size g" "t < Nodes_size g"
    and c: "adjacency_matrix g ! s ! t = Some p"
  shows "\<exists>j < Edges_size g. Edges_get_id g j = Inr p \<and>
           ((\<exists>d. edge_view w g j = Some (j, s, t, d)) \<or>
            is_undirected g \<and> (\<exists>d. edge_view w g j = Some (j, t, s, d)))"
proof -
  from wf have so: "stores_ok w g" by (simp add: wf_graph_def)
  from cell_edge[OF wf st c] obtain j e where j: "j < Edges_size g" "p = slot (edges g) j"
    "edge_at w g j = Some e"
    "edge_source e = slot (nodes g) s \<and> edge_target e = slot (nodes g) t \<or>
     is_undirected g \<and> edge_source e = slot (nodes g) t \<and> edge_target e = slot (nodes g) s"
    by blast
  let ?S = "source_id w g j" and ?T = "target_id w g j"
  from wf_edge[OF wf j(1)] obtain e' where e': "edge_ids w g j e' ?S ?T"
    "edge_source e' = slot (nodes g) ?S" "edge_target e' = slot (nodes g) ?T" by metis
  from e'(1) j(3) have ee: "e' = e" and lt: "?S < Nodes_size g" "?T < Nodes_size g"
    by (simp_all add: edge_ids_def)
  from wf_edge_view(1)[OF wf j(1)] obtain d where v: "edge_view w g j = Some (j, ?S, ?T, d)"
    by blast
  have inj: "slot (nodes g) a = slot (nodes g) b \<Longrightarrow> a < Nodes_size g \<Longrightarrow>
      b < Nodes_size g \<Longrightarrow> a = b" for a b
    using node_slot_inj[OF so] by blast
  from j(4) have "?S = s \<and> ?T = t \<or> is_undirected g \<and> ?S = t \<and> ?T = s"
    using e'(2,3) ee inj[of ?S s] inj[of ?T t] inj[of ?S t] inj[of ?T s] lt st by metis
  with v have "(\<exists>d. edge_view w g j = Some (j, s, t, d)) \<or>
            is_undirected g \<and> (\<exists>d. edge_view w g j = Some (j, t, s, d))" by auto
  with j(1,2) Edges_get_id_ok[OF j(1)] show ?thesis by blast
qed

section \<open>Claims about reachable graphs\<close>

text \<open>
  Claim C4.  In every reachable graph the node at position \<open>i\<close> has the identifier
  \<open>i\<close> and the edge at position \<open>j\<close> has the identifier \<open>j\<close>.  A successful
  \<^verbatim>\<open>add\<close>, of either overload and of either store, puts the new record at the
  position of the size before the call, with that identifier, and the size grows by
  one; the overloads that take an identifier reject every other identifier, with
  \<open>ConflictingItem\<close> below the size and \<open>InvalidIdentifier\<close> above it, and change
  nothing.
\<close>

theorem dense_id_invariant:
  fixes w :: "('n, 'e) world"
  assumes "reachable w g"
  shows "(\<forall>i < Nodes_size g. \<exists>d. node_view w g i = Some (i, d)) \<and>
         (\<forall>j < Edges_size g. \<exists>s t x. edge_view w g j = Some (j, s, t, x)) \<and>
         (Nodes_add i d w g = (Inr p, w1, g1) \<longrightarrow>
            i = Nodes_size g \<and> Nodes_size g1 = Suc (Nodes_size g) \<and>
            Nodes_get g1 i = Inr p \<and> node_view w1 g1 i = Some (i, d)) \<and>
         (Nodes_add_next d w g = (Inr p, w1, g1) \<longrightarrow>
            Nodes_size g1 = Suc (Nodes_size g) \<and>
            Nodes_get g1 (Nodes_size g) = Inr p \<and>
            node_view w1 g1 (Nodes_size g) = Some (Nodes_size g, d)) \<and>
         (Edges_add j s t x w g = (Inr q, w2, g2) \<longrightarrow>
            j = Edges_size g \<and> Edges_size g2 = Suc (Edges_size g) \<and>
            Edges_get_id g2 j = Inr q \<and> edge_view w2 g2 j = Some (j, s, t, x)) \<and>
         (Edges_add_next s t x w g = (Inr q, w2, g2) \<longrightarrow>
            Edges_size g2 = Suc (Edges_size g) \<and>
            Edges_get_id g2 (Edges_size g) = Inr q \<and>
            edge_view w2 g2 (Edges_size g) = Some (Edges_size g, s, t, x)) \<and>
         (i \<noteq> Nodes_size g \<longrightarrow>
            Nodes_add i d w g =
              (Inl (if i < Nodes_size g then ConflictingItem else InvalidIdentifier), w, g)) \<and>
         (j \<noteq> Edges_size g \<longrightarrow>
            Edges_add j s t x w g =
              (Inl (if j < Edges_size g then ConflictingItem else InvalidIdentifier), w, g))"
proof -
  from assms have wf: "wf_graph w g" by (rule reachable_wf)
  then have nd: "nodes_dense w g" by (simp add: wf_graph_def)
  have n: "\<forall>i < Nodes_size g. \<exists>d. node_view w g i = Some (i, d)"
    using nd unfolding nodes_dense_def by (auto simp: node_view_def)
  have e: "\<forall>j < Edges_size g. \<exists>s t x. edge_view w g j = Some (j, s, t, x)"
    using wf_edge_view(1)[OF wf] by blast
  have na: "i = Nodes_size g \<and> Nodes_size g1 = Suc (Nodes_size g) \<and>
            Nodes_get g1 i = Inr p \<and> node_view w1 g1 i = Some (i, d)"
    if "Nodes_add i d w g = (Inr p, w1, g1)" for i
    using Nodes_add_Inr[OF wf that] by (simp add: node_view_def)
  have ea: "j = Edges_size g \<and> Edges_size g2 = Suc (Edges_size g) \<and>
            Edges_get_id g2 j = Inr q \<and> edge_view w2 g2 j = Some (j, s, t, x)"
    if "Edges_add j s t x w g = (Inr q, w2, g2)" for j
    using Edges_add_Inr[OF wf that] by simp
  have nn: "Nodes_size g1 = Suc (Nodes_size g) \<and> Nodes_get g1 (Nodes_size g) = Inr p \<and>
            node_view w1 g1 (Nodes_size g) = Some (Nodes_size g, d)"
    if "Nodes_add_next d w g = (Inr p, w1, g1)"
    using na[of "Nodes_size g"] that by (simp add: Nodes_add_next_def Nodes_size_def)
  have en: "Edges_size g2 = Suc (Edges_size g) \<and> Edges_get_id g2 (Edges_size g) = Inr q \<and>
            edge_view w2 g2 (Edges_size g) = Some (Edges_size g, s, t, x)"
    if "Edges_add_next s t x w g = (Inr q, w2, g2)"
    using ea[of "Edges_size g"] that by (simp add: Edges_add_next_def Edges_size_def)
  have ni: "Nodes_add i d w g =
      (Inl (if i < Nodes_size g then ConflictingItem else InvalidIdentifier), w, g)"
    if "i \<noteq> Nodes_size g"
    using that Nodes_add_invalid[where g = g and ident = i and d = d and w = w]
    by (cases "i < Nodes_size g") auto
  have ei: "Edges_add j s t x w g =
      (Inl (if j < Edges_size g then ConflictingItem else InvalidIdentifier), w, g)"
    if "j \<noteq> Edges_size g"
    using that Edges_add_invalid(1,2)[where g = g and ident = j and s = s and t = t and d = x and w = w]
    by (cases "j < Edges_size g") auto
  show ?thesis
  proof (intro conjI impI)
    show "\<forall>i < Nodes_size g. \<exists>d. node_view w g i = Some (i, d)" by (rule n)
    show "\<forall>j < Edges_size g. \<exists>s t x. edge_view w g j = Some (j, s, t, x)" by (rule e)
  qed (use na nn ea en ni ei in \<open>simp_all\<close>)
qed

text \<open>The example graph: node 2 and edge 1 carry their positions, the identifiers 7
  and 0 are rejected, and node 3 is added at position 3.\<close>

theorem dense_id_invariant_witness:
  "reachable (fst (scenario False)) (snd (scenario False)) \<and>
   Nodes_size (snd (scenario False)) = 3 \<and> Edges_size (snd (scenario False)) = 2 \<and>
   node_view (fst (scenario False)) (snd (scenario False)) 2 = Some (2, ''c'') \<and>
   edge_view (fst (scenario False)) (snd (scenario False)) 1 = Some (1, 1, 2, ''y'') \<and>
   Nodes_add 7 ''q'' (fst (scenario False)) (snd (scenario False)) =
     (Inl InvalidIdentifier, fst (scenario False), snd (scenario False)) \<and>
   Edges_add 0 2 0 ''z'' (fst (scenario False)) (snd (scenario False)) =
     (Inl ConflictingItem, fst (scenario False), snd (scenario False)) \<and>
   fst (Nodes_add 3 ''d'' (fst (scenario False)) (snd (scenario False))) = Inr (0, 3) \<and>
   node_view (fst (snd (Nodes_add 3 ''d'' (fst (scenario False)) (snd (scenario False)))))
             (snd (snd (Nodes_add 3 ''d'' (fst (scenario False)) (snd (scenario False))))) 3
     = Some (3, ''d'')"
proof -
  let ?w = "fst (scenario False)" and ?g = "snd (scenario False)"
  have sz: "Nodes_size ?g = 3" "Edges_size ?g = 2"
    by (simp_all add: scenario_graph Nodes_size_def Edges_size_def size_of_def)
  have r: "fst (Nodes_add 3 ''d'' ?w ?g) = Inr (0, 3)"
    by (simp add: scenario_graph scenario_fresh scenario_world eval_defs)
  obtain w1 g1 where a: "Nodes_add 3 ''d'' ?w ?g = (Inr (0, 3), w1, g1)"
    using r by (metis prod.collapse)
  note T = dense_id_invariant[OF scenario_reachable[of False],
      of 3 "''d''" "(0, 3)" w1 g1 0 2 0 "''z''"]
  note U = dense_id_invariant[OF scenario_reachable[of False], of 7 "''q''"]
  from T[THEN conjunct2, THEN conjunct2, THEN conjunct1] a
  have v: "node_view w1 g1 3 = Some (3, ''d'')" by blast
  from T[THEN conjunct2, THEN conjunct2, THEN conjunct2, THEN conjunct2, THEN conjunct2,
      THEN conjunct2, THEN conjunct2] sz(2)
  have c: "Edges_add 0 2 0 ''z'' ?w ?g = (Inl ConflictingItem, ?w, ?g)" by simp
  from U[THEN conjunct2, THEN conjunct2, THEN conjunct2, THEN conjunct2, THEN conjunct2,
      THEN conjunct2, THEN conjunct1] sz(1)
  have i: "Nodes_add 7 ''q'' ?w ?g = (Inl InvalidIdentifier, ?w, ?g)" by simp
  from v a have v': "node_view (fst (snd (Nodes_add 3 ''d'' ?w ?g)))
             (snd (snd (Nodes_add 3 ''d'' ?w ?g))) 3 = Some (3, ''d'')" by simp
  show ?thesis
    by (intro conjI scenario_reachable sz scenario_views i c r v')
qed

text \<open>
  Claim C5.  In every reachable graph no two edges have the same source and the same
  target, and \<^verbatim>\<open>Edges::add\<close> (both overloads) fails with \<open>ConflictingItem\<close> and
  changes nothing when the cell of the pair is occupied.  In an undirected graph with
  nodes \<open>s\<close> and \<open>t\<close>, \<^verbatim>\<open>exists(s, t)\<close> and \<^verbatim>\<open>exists(t, s)\<close> agree, \<^verbatim>\<open>get(s, t)\<close>
  and \<^verbatim>\<open>get(t, s)\<close> agree, the two cells are equal, and when they are occupied they
  hold the address of one edge of the store, which joins \<open>s\<close> and \<open>t\<close> (in one of the
  two orders) and is the only edge that does.
\<close>

theorem no_multigraph_and_symmetry:
  fixes w :: "('n, 'e) world"
  assumes "reachable w g"
  shows "(j < Edges_size g \<and> k < Edges_size g \<and>
            edge_view w g j = Some (a, s, t, x) \<and> edge_view w g k = Some (b, s, t, y) \<longrightarrow>
            j = k) \<and>
         (s < Nodes_size g \<and> t < Nodes_size g \<and> Edges_exists g s t = Inr True \<longrightarrow>
            Edges_add (Edges_size g) s t x w g = (Inl ConflictingItem, w, g) \<and>
            Edges_add_next s t x w g = (Inl ConflictingItem, w, g)) \<and>
         (is_undirected g \<and> s < Nodes_size g \<and> t < Nodes_size g \<longrightarrow>
            Edges_exists g s t = Edges_exists g t s \<and> Edges_get g s t = Edges_get g t s \<and>
            adjacency_matrix g ! s ! t = adjacency_matrix g ! t ! s \<and>
            (\<forall>p. Edges_get g s t = Inr p \<longrightarrow>
               (\<exists>i < Edges_size g. Edges_get_id g i = Inr p \<and>
                  ((\<exists>d. edge_view w g i = Some (i, s, t, d)) \<or>
                   (\<exists>d. edge_view w g i = Some (i, t, s, d))) \<and>
                  (\<forall>i' < Edges_size g. \<forall>c d.
                     edge_view w g i' = Some (c, s, t, d) \<or>
                     edge_view w g i' = Some (c, t, s, d) \<longrightarrow> i' = i))))"
proof -
  from assms have wf: "wf_graph w g" by (rule reachable_wf)
  then have mo: "matrix_ok g" by (simp add: wf_graph_def)
  then have len: "length (adjacency_matrix g) = Nodes_size g" by (simp add: matrix_ok_def)
  note simple = wf_simple[OF wf, unfolded simple_edges_def, rule_format]
  have one: "j = k" if "j < Edges_size g" "k < Edges_size g"
    "edge_view w g j = Some (a, s, t, x)" "edge_view w g k = Some (b, s, t, y)" for j k a b x y
  proof (rule ccontr)
    assume "j \<noteq> k"
    from simple[OF that(1,2) this] edge_view_ids[OF that(3)] edge_view_ids[OF that(4)]
    show False by simp
  qed
  have occ: "Edges_add (Edges_size g) s t x w g = (Inl ConflictingItem, w, g) \<and>
            Edges_add_next s t x w g = (Inl ConflictingItem, w, g)"
    if st: "s < Nodes_size g" "t < Nodes_size g" and ex: "Edges_exists g s t = Inr True"
  proof -
    from ex st len matrix_at_ok[OF mo st] obtain p where "adjacency_matrix g ! s ! t = Some p"
      by (auto simp: Edges_exists_def Let_def)
    from Edges_add_occupied[OF mo st this, of x w] show ?thesis
      by (simp add: Edges_add_next_def Edges_size_def)
  qed
  have und: "Edges_exists g s t = Edges_exists g t s \<and> Edges_get g s t = Edges_get g t s \<and>
            adjacency_matrix g ! s ! t = adjacency_matrix g ! t ! s \<and>
            (\<forall>p. Edges_get g s t = Inr p \<longrightarrow>
               (\<exists>i < Edges_size g. Edges_get_id g i = Inr p \<and>
                  ((\<exists>d. edge_view w g i = Some (i, s, t, d)) \<or>
                   (\<exists>d. edge_view w g i = Some (i, t, s, d))) \<and>
                  (\<forall>i' < Edges_size g. \<forall>c d.
                     edge_view w g i' = Some (c, s, t, d) \<or>
                     edge_view w g i' = Some (c, t, s, d) \<longrightarrow> i' = i)))"
    if u: "is_undirected g" and st: "s < Nodes_size g" "t < Nodes_size g"
  proof -
    have sym: "adjacency_matrix g ! s ! t = adjacency_matrix g ! t ! s"
      using undirected_symmetric[OF wf u st] by simp
    have ex: "Edges_exists g s t = Edges_exists g t s"
      using sym st len matrix_at_ok[OF mo st] matrix_at_ok[OF mo st(2,1)]
      by (simp add: Edges_exists_def Let_def)
    have ge: "Edges_get g s t = Edges_get g t s"
      using sym st len matrix_at_ok[OF mo st] matrix_at_ok[OF mo st(2,1)]
      by (simp add: Edges_get_def Let_def)
    have cell: "\<exists>i < Edges_size g. Edges_get_id g i = Inr p \<and>
                  ((\<exists>d. edge_view w g i = Some (i, s, t, d)) \<or>
                   (\<exists>d. edge_view w g i = Some (i, t, s, d))) \<and>
                  (\<forall>i' < Edges_size g. \<forall>c d.
                     edge_view w g i' = Some (c, s, t, d) \<or>
                     edge_view w g i' = Some (c, t, s, d) \<longrightarrow> i' = i)"
      if "Edges_get g s t = Inr p" for p
    proof -
      from that st len matrix_at_ok[OF mo st] have c: "adjacency_matrix g ! s ! t = Some p"
        by (auto simp: Edges_get_def Let_def split: option.splits)
      from wf_cell_view[OF wf st c] obtain i where i: "i < Edges_size g"
        "Edges_get_id g i = Inr p"
        "(\<exists>d. edge_view w g i = Some (i, s, t, d)) \<or> (\<exists>d. edge_view w g i = Some (i, t, s, d))"
        by blast
      from i(3) have ids: "source_id w g i = s \<and> target_id w g i = t \<or>
          source_id w g i = t \<and> target_id w g i = s"
        by (auto dest: edge_view_ids)
      have "i' = i" if i': "i' < Edges_size g"
        and v: "edge_view w g i' = Some (c, s, t, d) \<or> edge_view w g i' = Some (c, t, s, d)"
        for i' c d
      proof (rule ccontr)
        assume ne: "i' \<noteq> i"
        from v have "source_id w g i' = s \<and> target_id w g i' = t \<or>
          source_id w g i' = t \<and> target_id w g i' = s"
          by (auto dest: edge_view_ids)
        with simple[OF i' i(1) ne] ids u show False by auto
      qed
      with i show ?thesis by blast
    qed
    from sym ex ge cell show ?thesis by blast
  qed
  show ?thesis
  proof (intro conjI impI)
    assume "j < Edges_size g \<and> k < Edges_size g \<and>
            edge_view w g j = Some (a, s, t, x) \<and> edge_view w g k = Some (b, s, t, y)"
    then show "j = k" using one by blast
  next
    assume h: "s < Nodes_size g \<and> t < Nodes_size g \<and> Edges_exists g s t = Inr True"
    with occ show "Edges_add (Edges_size g) s t x w g = (Inl ConflictingItem, w, g)"
      "Edges_add_next s t x w g = (Inl ConflictingItem, w, g)" by blast+
  next
    assume h: "is_undirected g \<and> s < Nodes_size g \<and> t < Nodes_size g"
    then have h': "is_undirected g" "s < Nodes_size g" "t < Nodes_size g" by simp_all
    note r = und[OF h']
    from r show "Edges_exists g s t = Edges_exists g t s" by (rule conjunct1)
    from r show "Edges_get g s t = Edges_get g t s" by (elim conjE)
    from r show "adjacency_matrix g ! s ! t = adjacency_matrix g ! t ! s" by (elim conjE)
    from r show "\<forall>p. Edges_get g s t = Inr p \<longrightarrow>
               (\<exists>i < Edges_size g. Edges_get_id g i = Inr p \<and>
                  ((\<exists>d. edge_view w g i = Some (i, s, t, d)) \<or>
                   (\<exists>d. edge_view w g i = Some (i, t, s, d))) \<and>
                  (\<forall>i' < Edges_size g. \<forall>c d.
                     edge_view w g i' = Some (c, s, t, d) \<or>
                     edge_view w g i' = Some (c, t, s, d) \<longrightarrow> i' = i))" by (elim conjE)
  qed
qed

text \<open>The undirected example graph: the edge 0 joins 0 and 1, both cells hold its
  address, and adding an edge from 1 to 0 is a conflict.\<close>

theorem no_multigraph_and_symmetry_witness:
  "reachable (fst (scenario True)) (snd (scenario True)) \<and>
   is_undirected (snd (scenario True)) \<and>
   Nodes_size (snd (scenario True)) = 3 \<and> Edges_size (snd (scenario True)) = 2 \<and>
   Edges_exists (snd (scenario True)) 0 1 = Inr True \<and>
   Edges_exists (snd (scenario True)) 1 0 = Inr True \<and>
   Edges_get (snd (scenario True)) 0 1 = Inr (0, 0) \<and>
   Edges_get (snd (scenario True)) 1 0 = Inr (0, 0) \<and>
   Edges_get_id (snd (scenario True)) 0 = Inr (0, 0) \<and>
   edge_view (fst (scenario True)) (snd (scenario True)) 0 = Some (0, 0, 1, ''x'') \<and>
   Edges_add 2 1 0 ''z'' (fst (scenario True)) (snd (scenario True)) =
     (Inl ConflictingItem, fst (scenario True), snd (scenario True))"
proof -
  let ?w = "fst (scenario True)" and ?g = "snd (scenario True)"
  have sz: "Nodes_size ?g = 3" "Edges_size ?g = 2"
    by (simp_all add: scenario_graph Nodes_size_def Edges_size_def size_of_def)
  have u: "is_undirected ?g" by (simp add: scenario_graph)
  have e01: "Edges_exists ?g 0 1 = Inr True" "Edges_get ?g 0 1 = Inr (0, 0)"
    by (simp_all add: scenario_graph Edges_exists_def Edges_get_def matrix_at_def Let_def)
  have gi: "Edges_get_id ?g 0 = Inr (0, 0)"
    by (simp add: scenario_graph Edges_get_id_def Edges_exists_id_def Edges_size_def size_of_def
        get_elem_def slot_def)
  have ev: "edge_view ?w ?g 0 = Some (0, 0, 1, ''x'')"
    by (simp add: scenario_def scenario_commands_def eval_defs edge_view_def edge_at_def
        getSource_getId_def getTarget_getId_def)
  note T = no_multigraph_and_symmetry[OF scenario_reachable[of True], of _ _ _ 1 0 "''z''"]
  from T[THEN conjunct2, THEN conjunct2] u sz(1)
  have s: "Edges_exists ?g 1 0 = Edges_exists ?g 0 1" "Edges_get ?g 1 0 = Edges_get ?g 0 1"
    by simp_all
  with e01 have e10: "Edges_exists ?g 1 0 = Inr True" "Edges_get ?g 1 0 = Inr (0, 0)"
    by simp_all
  from T[THEN conjunct2, THEN conjunct1] e10(1) sz
  have c: "Edges_add 2 1 0 ''z'' ?w ?g = (Inl ConflictingItem, ?w, ?g)" by simp
  show ?thesis
    by (intro conjI scenario_reachable u sz e01 e10 gi ev c)
qed

section \<open>Claim C8: moving a graph\<close>

text \<open>
  Claim C8.  \<^verbatim>\<open>DirectedGraph\<close> and \<^verbatim>\<open>UndirectedGraph\<close> declare a copy constructor and
  no move constructor, so that \<^verbatim>\<open>DirectedGraph C(std::move(G))\<close> runs the copy
  constructor: \<open>G\<close> keeps its nodes and edges, and the records of \<open>C\<close> are new
  records at other addresses.  For the example graph, the copy has the three nodes and
  two edges in the blocks 1 of the two heaps, and the example graph still has them in
  the blocks 0.
\<close>

theorem move_construction_copies:
  "case Graph_copy (fst (scenario False)) (snd (scenario False)) of
     Inl e \<Rightarrow> False
   | Inr (w', C) \<Rightarrow>
       Nodes_size C = 3 \<and> Edges_size C = 2 \<and>
       Nodes_get C 0 = Inr (1, 0) \<and> Edges_get C 0 1 = Inr (1, 0) \<and>
       Nodes_size (snd (scenario False)) = 3 \<and> Edges_size (snd (scenario False)) = 2 \<and>
       Nodes_get (snd (scenario False)) 0 = Inr (0, 0) \<and>
       Edges_get (snd (scenario False)) 0 1 = Inr (0, 0) \<and>
       node_view w' (snd (scenario False)) 0 = Some (0, ''a'') \<and>
       node_view w' C 0 = Some (0, ''a'')"
  by (simp add: scenario_def scenario_commands_def eval_defs copy_eval_defs
      Edges_get_def node_view_def node_at_def upt_conv_Cons numeral_2_eq_2 numeral_3_eq_3)
end
